(* ===== verification/Prom_Prelude.thy ===== *)
theory Prom_Prelude
  imports Main "HOL-Library.Word" "HOL-Library.Multiset"
    "HOL-Library.List_Lexorder" "HOL-Library.Char_ord"
begin

text \<open>
  Shared vocabulary of the development: the Go values the components exchange (errors,
  results, panics, wrapped 64-bit arithmetic, decimal printing) and the lemmas on lists,
  options and strings that the component theories use.

  A Go \<open>string\<close> is a \<^typ>\<open>string\<close>, that is a list of bytes (\<^typ>\<open>char\<close> has 256
  values); \<open>HOL-Library.List_Lexorder\<close> and \<open>HOL-Library.Char_ord\<close> give it Go's
  bytewise lexicographic order.  A Go \<open>int64\<close> or \<open>int\<close> is an \<^typ>\<open>int\<close>; operations
  that can leave the 64-bit range go through \<open>wrap64\<close>.
\<close>

named_theorems go_simps \<open>evaluation of results, outcomes and machine arithmetic\<close>
named_theorems inv_intros \<open>preservation of the components' invariants\<close>


section \<open>Errors, results and panics\<close>

text \<open>
  Values of Go's \<open>error\<close> interface.  The sentinels are compared by identity in the code,
  so each is a constructor of its own; \<open>fmt.Errorf\<close> and \<open>errors.New\<close> build
  \<open>ErrMsg\<close>, a \<open>%w\<close> wrapper builds \<open>ErrWrap\<close>, a \<open>*pgconn.PgError\<close> is
  \<open>PgError code message\<close>, and every other error that a library returns is \<open>ExtError\<close>.
\<close>

datatype go_error =
    ErrEntryNotFound
  | ErrNoMetricName
  | ErrMissingTableName
  | ErrInvalidData
  | ErrMsg string
  | ErrWrap string go_error
  | PgError string string
  | ExtError string

type_synonym 'a result = "go_error + 'a"

text \<open>A call that may panic, with the panic's message, or return.\<close>

datatype 'a outcome = Panic string | Return 'a

definition outcome_bind :: "'a outcome \<Rightarrow> ('a \<Rightarrow> 'b outcome) \<Rightarrow> 'b outcome" where
  "outcome_bind m f = (case m of Panic s \<Rightarrow> Panic s | Return a \<Rightarrow> f a)"

lemma outcome_bind_simps [simp, go_simps]:
  "outcome_bind (Panic s) f = Panic s"
  "outcome_bind (Return a) f = f a"
  by (simp_all add: outcome_bind_def)

lemma outcome_bind_Return_iff:
  "outcome_bind m f = Return b \<longleftrightarrow> (\<exists>a. m = Return a \<and> f a = Return b)"
  by (cases m) auto


section \<open>Machine integers and decimal printing\<close>

text \<open>A \<open>float64\<close> is its IEEE 754 bit pattern; arithmetic on it is not needed here.\<close>

type_synonym float64 = "64 word"

text \<open>Two's complement wrap-around of a 64-bit signed result.\<close>

definition wrap64 :: "int \<Rightarrow> int" where
  "wrap64 x = (x + 2 ^ 63) mod 2 ^ 64 - 2 ^ 63"

definition in_int64 :: "int \<Rightarrow> bool" where
  "in_int64 x \<longleftrightarrow> - (2 ^ 63) \<le> x \<and> x < 2 ^ 63"

abbreviation max_int64 :: int where "max_int64 \<equiv> 2 ^ 63 - 1"
abbreviation min_int64 :: int where "min_int64 \<equiv> - (2 ^ 63)"

lemma wrap64_id [go_simps]: "in_int64 x \<Longrightarrow> wrap64 x = x"
  by (simp add: wrap64_def in_int64_def)

lemma wrap64_in_int64 [simp]: "in_int64 (wrap64 x)"
  by (simp add: wrap64_def in_int64_def)

text \<open>Go's integer division rounds towards zero, HOL's towards minus infinity.\<close>

definition go_quot :: "int \<Rightarrow> int \<Rightarrow> int" where
  "go_quot n d = (let q = abs n div abs d in if (n < 0) = (d < 0) then q else - q)"

lemma go_quot_nonneg: "0 \<le> n \<Longrightarrow> 0 < d \<Longrightarrow> go_quot n d = n div d"
  by (simp add: go_quot_def Let_def)

text \<open>The \<open>%d\<close> verb.\<close>

definition digit_char :: "nat \<Rightarrow> char" where
  "digit_char d = char_of (48 + d)"

fun show_nat :: "nat \<Rightarrow> string" where
  "show_nat n = (if n < 10 then [digit_char n]
                 else show_nat (n div 10) @ [digit_char (n mod 10)])"

declare show_nat.simps [simp del]

definition show_int :: "int \<Rightarrow> string" where
  "show_int i = (if i < 0 then CHR ''-'' # show_nat (nat (- i)) else show_nat (nat i))"


lemma digit_char_eq_iff:
  "a < 10 \<Longrightarrow> b < 10 \<Longrightarrow> digit_char a = digit_char b \<longleftrightarrow> a = b"
proof -
  assume "a < 10" "b < 10"
  then have "of_char (digit_char a) = 48 + a" "of_char (digit_char b) = 48 + b"
    by (simp_all add: digit_char_def)
  then show ?thesis by (metis add_left_cancel)
qed

lemma digit_char_range: "d < 10 \<Longrightarrow> digit_char d \<in> set ''0123456789''"
proof -
  assume "d < 10"
  then have "d = 0 \<or> d = 1 \<or> d = 2 \<or> d = 3 \<or> d = 4 \<or> d = 5 \<or> d = 6 \<or> d = 7 \<or> d = 8 \<or> d = 9"
    by arith
  then show ?thesis by (elim disjE) (simp_all add: digit_char_def char_of_def bit_0)
qed

lemma show_nat_digits: "set (show_nat n) \<subseteq> set ''0123456789''"
proof (induction n rule: show_nat.induct)
  case (1 n)
  show ?case
  proof (cases "n < 10")
    case True
    then show ?thesis using digit_char_range [of n] by (simp add: show_nat.simps [of n])
  next
    case False
    then show ?thesis using 1 digit_char_range [of "n mod 10"]
      by (subst show_nat.simps) simp
  qed
qed

lemma show_nat_nonempty: "show_nat n \<noteq> []"
  by (subst show_nat.simps) simp

lemma show_nat_inj: "show_nat a = show_nat b \<Longrightarrow> a = b"
proof (induction a arbitrary: b rule: show_nat.induct)
  case (1 a)
  have eq: "show_nat a = show_nat b" by fact
  consider "a < 10" "b < 10" | "a < 10" "\<not> b < 10" | "\<not> a < 10" "b < 10" | "\<not> a < 10" "\<not> b < 10"
    by blast
  then show ?case
  proof cases
    case 1
    with eq show ?thesis by (simp add: show_nat.simps [of a] show_nat.simps [of b] digit_char_eq_iff)
  next
    case 2
    with eq show ?thesis
      by (simp add: show_nat.simps [of a] show_nat.simps [of b] show_nat_nonempty Cons_eq_append_conv)
  next
    case 3
    with eq show ?thesis
      by (simp add: show_nat.simps [of a] show_nat.simps [of b] show_nat_nonempty append_eq_Cons_conv)
  next
    case 4
    with eq have "show_nat (a div 10) = show_nat (b div 10)" "a mod 10 = b mod 10"
      by (simp_all add: show_nat.simps [of a] show_nat.simps [of b] digit_char_eq_iff)
    with 1 4 have "a div 10 = b div 10" by simp
    with \<open>a mod 10 = b mod 10\<close> show ?thesis by (metis div_mult_mod_eq)
  qed
qed

text \<open>A number followed by a character that is no digit can be read back.\<close>

lemma show_nat_append_inj:
  assumes "show_nat a @ c # s = show_nat b @ c # t" and "c \<notin> set ''0123456789''"
  shows "a = b \<and> s = t"
proof -
  define D where "D = set ''0123456789''"
  have c: "c \<notin> D" unfolding D_def by (rule assms(2))
  have sub: "set (show_nat n) \<subseteq> D" for n unfolding D_def by (rule show_nat_digits)
  have tw: "takeWhile (\<lambda>x. x \<in> D) (show_nat n @ c # r) = show_nat n" for n r
    using c sub [of n] by (subst takeWhile_append2) auto
  have "takeWhile (\<lambda>x. x \<in> D) (show_nat a @ c # s) = takeWhile (\<lambda>x. x \<in> D) (show_nat b @ c # t)"
    by (simp only: assms(1))
  then have "a = b" by (simp only: tw) (rule show_nat_inj)
  with assms(1) show ?thesis by simp
qed


section \<open>Sums over the values of a map\<close>

definition sum_map :: "('v \<Rightarrow> 'm :: comm_monoid_add) \<Rightarrow> ('k \<rightharpoonup> 'v) \<Rightarrow> 'm" where
  "sum_map f m = (\<Sum>k \<in> dom m. f (the (m k)))"

lemma sum_map_upd:
  assumes "finite (dom m)"
  shows "sum_map f (m(k \<mapsto> v)) + (case m k of None \<Rightarrow> 0 | Some v0 \<Rightarrow> f v0) = sum_map f m + f v"
proof -
  have eq: "(\<Sum>x \<in> dom m - {k}. f (the ((m(k \<mapsto> v)) x))) = (\<Sum>x \<in> dom m - {k}. f (the (m x)))"
    by (rule sum.cong) auto
  have new: "sum_map f (m(k \<mapsto> v)) = f v + (\<Sum>x \<in> dom m - {k}. f (the (m x)))"
    unfolding sum_map_def dom_fun_upd using assms eq by (simp add: sum.insert_remove)
  show ?thesis
  proof (cases "m k")
    case None
    then have "dom m - {k} = dom m" by auto
    with new None show ?thesis by (simp add: sum_map_def ac_simps)
  next
    case (Some v0)
    then have "sum_map f m = f v0 + (\<Sum>x \<in> dom m - {k}. f (the (m x)))"
      unfolding sum_map_def using assms by (subst sum.remove [of _ k]) auto
    with new Some show ?thesis by (simp add: ac_simps)
  qed
qed

end
