(* ===== verification/Prom_Labels.thy ===== *)
theory Prom_Labels
  imports Prom_Prelude
begin

text \<open>
  Series labels, \<open>pkg/pgmodel/labels.go\<close>: the canonical string of a label set, the process-wide
  interner of \<open>Labels\<close> objects, and the translation of protobuf label matchers.

  The interner is a \<open>sync.Map\<close> shared by all goroutines.  A miss is a \<open>Load\<close> followed by a
  \<open>LoadOrStore\<close>, and others may store in between: \<open>labelProtosToLabels\<close> takes a function
  \<open>env\<close> for what they do to the interner there (\<open>id\<close> when nobody interferes).
  \<open>sort.Slice\<close> is modelled by the stable \<open>sort_key\<close>; where the order of equal names could
  matter, the theorems assume distinct names.
\<close>


section \<open>Labels and their canonical string\<close>

record label =
  lbl_name :: string
  lbl_value :: string

definition MetricNameLabelName :: string where
  "MetricNameLabelName = ''__name__''"

text \<open>\<open>binary.LittleEndian.PutUint16(buf, uint16(n))\<close>\<close>

definition put_uint16 :: "nat \<Rightarrow> string" where
  "put_uint16 n = [char_of (n mod 256), char_of (n div 256 mod 256)]"

definition encode_label :: "label \<Rightarrow> string" where
  "encode_label l = put_uint16 (length (lbl_name l)) @ lbl_name l
     @ put_uint16 (length (lbl_value l)) @ lbl_value l"

definition expected_str_len :: "label list \<Rightarrow> nat" where
  "expected_str_len ls = fold (\<lambda>l n. n + (length (lbl_name l) + length (lbl_value l))) ls (length ls * 4)"

definition max_uint16 :: nat where
  "max_uint16 = 65535"

definition sort_labels :: "label list \<Rightarrow> label list" where
  "sort_labels ls = (if sorted (map lbl_name ls) then ls else sort_key lbl_name ls)"

definition too_long_msg :: "nat \<Rightarrow> string" where
  "too_long_msg n = ''series too long, combined series has length '' @ show_nat n
     @ '', max length '' @ show_nat max_uint16"

text \<open>\<open>getStr\<close> sorts its argument in place, so the sorted slice is part of the result.\<close>

definition getStr :: "label list \<Rightarrow> label list \<times> string result" where
  "getStr labels =
     (if length labels = 0 then (labels, Inr '''')
      else (let ls = sort_labels labels; n = expected_str_len ls
            in if max_uint16 < n then (ls, Inl (ErrMsg (too_long_msg n)))
               else (ls, Inr (concat (map encode_label ls)))))"


section \<open>Interned label sets\<close>

record Labels =
  l_names :: "string list"
  l_values :: "string list"
  l_metricName :: string
  l_str :: string

type_synonym interner = "string \<rightharpoonup> Labels"

definition GetLabels :: "interner \<Rightarrow> string \<Rightarrow> Labels option" where
  "GetLabels I str = I str"

text \<open>\<open>LoadOrStore\<close>: the first store of a string wins.\<close>

definition SetLabels :: "interner \<Rightarrow> string \<Rightarrow> Labels \<Rightarrow> interner \<times> Labels" where
  "SetLabels I str lset = (case I str of Some l \<Rightarrow> (I, l) | None \<Rightarrow> (I(str \<mapsto> lset), lset))"

definition new_labels :: "string \<Rightarrow> label list \<Rightarrow> Labels" where
  "new_labels str pairs =
     \<lparr>l_names = map lbl_name pairs, l_values = map lbl_value pairs,
      l_metricName =
        fold (\<lambda>l name. if lbl_name l = MetricNameLabelName then lbl_value l else name) pairs '''',
      l_str = str\<rparr>"

definition labelProtosToLabels ::
  "(interner \<Rightarrow> interner) \<Rightarrow> interner \<Rightarrow> label list \<Rightarrow> interner \<times> label list \<times> (Labels \<times> string) result" where
  "labelProtosToLabels env I labelPairs =
     (case getStr labelPairs of
        (pairs, Inl e) \<Rightarrow> (I, pairs, Inl e)
      | (pairs, Inr str) \<Rightarrow>
          (case GetLabels I str of
             Some l \<Rightarrow> (I, pairs, Inr (l, l_metricName l))
           | None \<Rightarrow>
               (case SetLabels (env I) str (new_labels str pairs) of
                  (I', l) \<Rightarrow> (I', pairs, Inr (l, l_metricName l)))))"

text \<open>
  \<open>LabelsFromSlice\<close>: the Prometheus label type has the same two fields and is copied first,
  so the caller's slice is not sorted.
\<close>

definition LabelsFromSlice ::
  "(interner \<Rightarrow> interner) \<Rightarrow> interner \<Rightarrow> label list \<Rightarrow> interner \<times> Labels result" where
  "LabelsFromSlice env I ls =
     (case labelProtosToLabels env I ls of
        (I', _, Inl e) \<Rightarrow> (I', Inl e)
      | (I', _, Inr (l, _)) \<Rightarrow> (I', Inr l))"

definition labels_String :: "Labels \<Rightarrow> string" where
  "labels_String l = l_str l"

definition labels_Compare :: "Labels \<Rightarrow> Labels \<Rightarrow> int" where
  "labels_Compare l b = (if l_str l < l_str b then - 1 else if l_str l = l_str b then 0 else 1)"

definition labels_Equal :: "Labels \<Rightarrow> Labels \<Rightarrow> bool" where
  "labels_Equal l b \<longleftrightarrow> l_str l = l_str b"

text \<open>The \<open>sort.Interface\<close> methods; an index out of range panics.\<close>

definition labels_Len :: "Labels \<Rightarrow> nat" where
  "labels_Len l = length (l_names l)"

definition labels_Less :: "Labels \<Rightarrow> nat \<Rightarrow> nat \<Rightarrow> bool outcome" where
  "labels_Less l i j =
     (if i < length (l_names l) \<and> j < length (l_names l) then Return (l_names l ! i < l_names l ! j)
      else Panic ''index out of range'')"

definition labels_Swap :: "Labels \<Rightarrow> nat \<Rightarrow> nat \<Rightarrow> Labels outcome" where
  "labels_Swap l i j =
     (if i < length (l_names l) \<and> j < length (l_names l) \<and>
         i < length (l_values l) \<and> j < length (l_values l)
      then Return (l\<lparr>l_names := (l_names l)[j := l_names l ! i, i := l_names l ! j],
                     l_values := (l_values l)[j := l_values l ! i, i := l_values l ! j]\<rparr>)
      else Panic ''index out of range'')"


section \<open>Label matchers\<close>

text \<open>
  The protobuf enum is an \<open>int32\<close> on the wire, so it may hold an unknown value.  \<open>newMatcher\<close> is
  \<open>labels.NewMatcher\<close> of the Prometheus library, which may refuse a regular expression.
\<close>

record LabelMatcher =
  lm_Type :: int
  lm_Name :: string
  lm_Value :: string

datatype match_type = MatchEqual | MatchNotEqual | MatchRegexp | MatchNotRegexp

definition match_type_of :: "int \<Rightarrow> match_type option" where
  "match_type_of t =
     (if t = 0 then Some MatchEqual else if t = 1 then Some MatchNotEqual
      else if t = 2 then Some MatchRegexp else if t = 3 then Some MatchNotRegexp else None)"

fun FromLabelMatchers ::
  "(match_type \<Rightarrow> string \<Rightarrow> string \<Rightarrow> 'mt result) \<Rightarrow> LabelMatcher list \<Rightarrow> 'mt list result" where
  "FromLabelMatchers newMatcher [] = Inr []"
| "FromLabelMatchers newMatcher (m # ms) =
     (case match_type_of (lm_Type m) of
        None \<Rightarrow> Inl (ErrMsg ''invalid matcher type'')
      | Some mtype \<Rightarrow>
          (case newMatcher mtype (lm_Name m) (lm_Value m) of
             Inl e \<Rightarrow> Inl e
           | Inr r \<Rightarrow>
               (case FromLabelMatchers newMatcher ms of Inl e \<Rightarrow> Inl e | Inr rs \<Rightarrow> Inr (r # rs))))"


section \<open>Decoding the canonical string\<close>

text \<open>
  A reader of the format (the program itself never decodes): a length-prefixed string and the
  rest of the input.
\<close>

definition read_str :: "string \<Rightarrow> (string \<times> string) option" where
  "read_str s =
     (case s of
        b0 # b1 # rest \<Rightarrow>
          (let n = of_char b0 + 256 * of_char b1
           in if n \<le> length rest then Some (take n rest, drop n rest) else None)
      | _ \<Rightarrow> None)"

lemma read_str_length: "read_str s = Some (x, r) \<Longrightarrow> length r < length s"
  by (auto simp: read_str_def Let_def split: list.splits if_splits)

function decode_str :: "string \<Rightarrow> label list option" where
  "decode_str s =
     (if s = [] then Some []
      else case read_str s of
             None \<Rightarrow> None
           | Some (name, r) \<Rightarrow>
               (case read_str r of
                  None \<Rightarrow> None
                | Some (val, r') \<Rightarrow>
                    map_option (Cons \<lparr>lbl_name = name, lbl_value = val\<rparr>) (decode_str r')))"
  by pat_completeness auto
termination
  by (relation "measure length") (auto dest!: read_str_length)

declare decode_str.simps [simp del]

lemma read_str_put:
  assumes "length x \<le> max_uint16"
  shows "read_str (put_uint16 (length x) @ x @ r) = Some (x, r)"
proof -
  have "length x mod 256 + 256 * (length x div 256 mod 256) = length x"
    using assms by (simp add: max_uint16_def)
  then show ?thesis by (simp add: read_str_def put_uint16_def Let_def)
qed

lemma expected_str_len_fold:
  "fold (\<lambda>l n. n + (length (lbl_name l) + length (lbl_value l))) ls a =
   a + sum_list (map (\<lambda>l. length (lbl_name l) + length (lbl_value l)) ls)"
  by (induction ls arbitrary: a) auto

lemma length_encode: "length (concat (map encode_label ls)) = expected_str_len ls"
  by (induction ls) (auto simp: expected_str_len_def expected_str_len_fold encode_label_def put_uint16_def)

lemma encode_bound:
  assumes "expected_str_len ls \<le> max_uint16" and "l \<in> set ls"
  shows "length (lbl_name l) \<le> max_uint16" "length (lbl_value l) \<le> max_uint16"
  using assms member_le_sum_list [of "length (lbl_name l) + length (lbl_value l)"
      "map (\<lambda>l. length (lbl_name l) + length (lbl_value l)) ls"]
  by (auto simp: expected_str_len_def expected_str_len_fold)

lemma decode_encode:
  assumes "\<forall>l \<in> set ls. length (lbl_name l) \<le> max_uint16 \<and> length (lbl_value l) \<le> max_uint16"
  shows "decode_str (concat (map encode_label ls)) = Some ls"
  using assms
proof (induction ls)
  case Nil
  then show ?case by (simp add: decode_str.simps)
next
  case (Cons l ls)
  let ?rest = "concat (map encode_label ls)"
  have "encode_label l @ ?rest = put_uint16 (length (lbl_name l)) @ lbl_name l
      @ (put_uint16 (length (lbl_value l)) @ lbl_value l @ ?rest)"
    by (simp add: encode_label_def)
  moreover have "encode_label l @ ?rest \<noteq> []" by (simp add: encode_label_def put_uint16_def)
  ultimately show ?case
    using Cons by (subst decode_str.simps) (simp add: read_str_put)
qed

lemma sort_labels_sorted: "sorted (map lbl_name (sort_labels ls))"
  by (simp add: sort_labels_def)

lemma mset_sort_labels [simp]: "mset (sort_labels ls) = mset ls"
  by (simp add: sort_labels_def)

lemma getStr_cases:
  "getStr ls = (sort_labels ls,
     if max_uint16 < expected_str_len (sort_labels ls)
     then Inl (ErrMsg (too_long_msg (expected_str_len (sort_labels ls))))
     else Inr (concat (map encode_label (sort_labels ls))))"
proof (cases "ls = []")
  case True
  then show ?thesis by (simp add: getStr_def sort_labels_def expected_str_len_def)
next
  case False
  then show ?thesis by (simp add: getStr_def Let_def)
qed

lemma expected_str_len_mset:
  assumes "mset ls = mset ls'"
  shows "expected_str_len ls = expected_str_len ls'"
proof -
  let ?w = "\<lambda>l. length (lbl_name l) + length (lbl_value l)"
  have "sum_mset (image_mset ?w (mset ls)) = sum_mset (image_mset ?w (mset ls'))"
    by (simp only: assms)
  then have "sum_list (map ?w ls) = sum_list (map ?w ls')"
    by (simp only: mset_map [symmetric] sum_mset_sum_list)
  then show ?thesis
    using mset_eq_length [OF assms] by (simp add: expected_str_len_def expected_str_len_fold)
qed

lemma getStr_decode:
  assumes "getStr ls = (ls', Inr str)"
  shows "decode_str str = Some ls' \<and> ls' = sort_labels ls \<and> length str = expected_str_len ls \<and>
    length str \<le> max_uint16"
proof -
  from assms have eq: "ls' = sort_labels ls" "str = concat (map encode_label ls')"
    "expected_str_len ls' \<le> max_uint16"
    by (auto simp: getStr_cases split: if_splits)
  moreover have "expected_str_len ls' = expected_str_len ls"
    by (rule expected_str_len_mset) (simp add: eq)
  ultimately show ?thesis
    using encode_bound [OF eq(3)] by (simp add: decode_encode length_encode)
qed

text \<open>Two lists sorted by distinct names with the same elements are the same list.\<close>

lemma sorted_names_unique:
  assumes "mset xs = mset ys" and "distinct (map lbl_name xs)"
    and "sorted (map lbl_name xs)" and "sorted (map lbl_name ys)"
  shows "xs = ys"
proof -
  have names: "map lbl_name xs = map lbl_name ys"
    using assms by (metis mset_map properties_for_sort)
  have inj: "inj_on lbl_name (set xs \<union> set ys)"
    using assms(1,2) by (metis distinct_map mset_eq_setD sup.idem)
  show ?thesis using names inj by (rule map_inj_on)
qed

section \<open>The interner\<close>

text \<open>Every interned object is the one \<open>labelProtosToLabels\<close> builds for its string.\<close>

definition interner_inv :: "interner \<Rightarrow> bool" where
  "interner_inv I \<longleftrightarrow>
     (\<forall>str l. I str = Some l \<longrightarrow> (\<exists>ls. decode_str str = Some ls \<and> l = new_labels str ls))"

lemma interner_inv_empty: "interner_inv Map.empty"
  by (simp add: interner_inv_def)

lemma interner_inv_lookup:
  "interner_inv I \<Longrightarrow> decode_str str = Some ls \<Longrightarrow> I str = Some l \<Longrightarrow> l = new_labels str ls"
  unfolding interner_inv_def by (metis option.inject)

lemma interner_inv_upd:
  "interner_inv I \<Longrightarrow> decode_str str = Some ls \<Longrightarrow> interner_inv (I(str \<mapsto> new_labels str ls))"
  unfolding interner_inv_def by (metis fun_upd_apply option.inject)

lemma SetLabels_spec:
  assumes "interner_inv I" and "decode_str str = Some ls"
  shows "\<exists>I'. SetLabels I str (new_labels str ls) = (I', new_labels str ls) \<and> interner_inv I' \<and>
    I \<subseteq>\<^sub>m I' \<and> I' str = Some (new_labels str ls)"
proof (cases "I str")
  case None
  then show ?thesis
    using interner_inv_upd [OF assms] by (simp add: SetLabels_def map_le_def dom_def)
next
  case (Some l)
  with interner_inv_lookup [OF assms Some] assms(1) show ?thesis
    by (simp add: SetLabels_def)
qed

lemma labelProtosToLabels_error:
  "getStr pairs = (ps, Inl e) \<Longrightarrow> labelProtosToLabels env I pairs = (I, sort_labels pairs, Inl e)"
  by (auto simp: labelProtosToLabels_def getStr_cases)

lemma labelProtosToLabels_ok:
  assumes "getStr pairs = (ps, Inr str)" and "interner_inv I" and "interner_inv (env I)" and "I \<subseteq>\<^sub>m env I"
  defines "l \<equiv> new_labels str (sort_labels pairs)"
  shows "\<exists>I'. labelProtosToLabels env I pairs = (I', sort_labels pairs, Inr (l, l_metricName l)) \<and>
    interner_inv I' \<and> I \<subseteq>\<^sub>m I' \<and> I' str = Some l"
proof -
  from getStr_decode [OF assms(1)] have dec: "decode_str str = Some (sort_labels pairs)"
    and ps: "ps = sort_labels pairs" by auto
  show ?thesis
  proof (cases "I str")
    case None
    obtain I' where I': "SetLabels (env I) str l = (I', l)" "interner_inv I'" "env I \<subseteq>\<^sub>m I'" "I' str = Some l"
      using SetLabels_spec [OF assms(3) dec] unfolding l_def by blast
    moreover have "I \<subseteq>\<^sub>m I'" using assms(4) I'(3) by (rule map_le_trans)
    ultimately show ?thesis
      using None assms(1) ps by (simp add: labelProtosToLabels_def GetLabels_def l_def)
  next
    case (Some l')
    with interner_inv_lookup [OF assms(2) dec] have "l' = l" by (simp add: l_def)
    with Some assms(1,2) ps show ?thesis
      by (simp add: labelProtosToLabels_def GetLabels_def)
  qed
qed

text \<open>The metric name is the value of the (last) \<open>__name__\<close> label, or empty.\<close>

lemma metric_name_fold:
  "fold (\<lambda>l name. if lbl_name l = MetricNameLabelName then lbl_value l else name) pairs a =
   (case filter (\<lambda>l. lbl_name l = MetricNameLabelName) pairs of
      [] \<Rightarrow> a | ms \<Rightarrow> lbl_value (last ms))"
  by (induction pairs arbitrary: a) (auto split: list.splits)

lemma FromLabelMatchers_ok:
  "FromLabelMatchers newMatcher ms = Inr rs \<longleftrightarrow>
   list_all2 (\<lambda>m r. \<exists>t. match_type_of (lm_Type m) = Some t \<and> newMatcher t (lm_Name m) (lm_Value m) = Inr r) ms rs"
proof (induction ms arbitrary: rs)
  case Nil
  then show ?case by auto
next
  case (Cons m ms)
  show ?case
    by (cases rs) (auto simp: Cons.IH [symmetric] split: option.splits sum.splits)
qed

section \<open>Properties\<close>

text \<open>
  C15: the canonical string is a faithful encoding.  \<open>getStr\<close> fails exactly when the encoded
  length exceeds 65535; otherwise its string has that length and decodes to the labels sorted
  by name, which are a permutation of the input.
\<close>
theorem labels_str_roundtrip:
  "case getStr ls of
     (ls', Inl e) \<Rightarrow> max_uint16 < expected_str_len ls \<and> e = ErrMsg (too_long_msg (expected_str_len ls))
   | (ls', Inr str) \<Rightarrow> expected_str_len ls \<le> max_uint16 \<and> length str = expected_str_len ls \<and>
       decode_str str = Some ls' \<and> mset ls' = mset ls \<and> sorted (map lbl_name ls')"
proof -
  have len: "expected_str_len (sort_labels ls) = expected_str_len ls"
    by (rule expected_str_len_mset) simp
  show ?thesis
  proof (cases "max_uint16 < expected_str_len ls")
    case True
    then show ?thesis by (simp add: getStr_cases len)
  next
    case False
    then have "getStr ls = (sort_labels ls, Inr (concat (map encode_label (sort_labels ls))))"
      by (simp add: getStr_cases len)
    from getStr_decode [OF this] this False show ?thesis by (simp add: sort_labels_sorted)
  qed
qed

text \<open>
  label sets with distinct names have the same canonical string exactly when they are equal as
  sets of pairs, in whatever order they arrive; so the string is a sound key for series.
\<close>
theorem labels_str_canonical:
  assumes "distinct (map lbl_name ls1)" and "distinct (map lbl_name ls2)"
    and "getStr ls1 = (s1, Inr str1)" and "getStr ls2 = (s2, Inr str2)"
  shows "str1 = str2 \<longleftrightarrow> set ls1 = set ls2"
proof
  assume "str1 = str2"
  with getStr_decode [OF assms(3)] getStr_decode [OF assms(4)]
  have "mset (sort_labels ls1) = mset (sort_labels ls2)" by auto
  then have "mset ls1 = mset ls2" by simp
  then show "set ls1 = set ls2" by (rule mset_eq_setD)
next
  assume "set ls1 = set ls2"
  moreover have "distinct ls1" "distinct ls2" using assms(1,2) by (auto simp: distinct_map)
  ultimately have m: "mset ls1 = mset ls2" by (simp add: set_eq_iff_mset_eq_distinct)
  have d: "distinct (map lbl_name (sort_labels ls1))"
    using assms(1) by (metis mset_map mset_sort_labels mset_eq_imp_distinct_iff)
  have "sort_labels ls1 = sort_labels ls2"
    using m d by (intro sorted_names_unique sort_labels_sorted) simp_all
  with assms(3,4) show "str1 = str2" by (auto simp: getStr_cases split: if_splits)
qed

theorem labels_str_canonical_witness:
  "set [\<lparr>lbl_name = ''b'', lbl_value = ''1''\<rparr>, \<lparr>lbl_name = ''a'', lbl_value = ''2''\<rparr>]
     = set [\<lparr>lbl_name = ''a'', lbl_value = ''2''\<rparr>, \<lparr>lbl_name = ''b'', lbl_value = ''1''\<rparr>] \<and>
   (\<exists>str s1 s2.
      getStr [\<lparr>lbl_name = ''b'', lbl_value = ''1''\<rparr>, \<lparr>lbl_name = ''a'', lbl_value = ''2''\<rparr>] = (s1, Inr str) \<and>
      getStr [\<lparr>lbl_name = ''a'', lbl_value = ''2''\<rparr>, \<lparr>lbl_name = ''b'', lbl_value = ''1''\<rparr>] = (s2, Inr str))"
proof -
  let ?l1 = "[\<lparr>lbl_name = ''b'', lbl_value = ''1''\<rparr>, \<lparr>lbl_name = ''a'', lbl_value = ''2''\<rparr>]"
  let ?l2 = "[\<lparr>lbl_name = ''a'', lbl_value = ''2''\<rparr>, \<lparr>lbl_name = ''b'', lbl_value = ''1''\<rparr>]"
  have len: "expected_str_len ?l1 \<le> max_uint16" "expected_str_len ?l2 \<le> max_uint16"
    by (simp_all add: expected_str_len_def max_uint16_def)
  then obtain s1 str1 s2 str2 where
    g: "getStr ?l1 = (s1, Inr str1)" "getStr ?l2 = (s2, Inr str2)"
    using expected_str_len_mset [OF mset_sort_labels] by (simp add: getStr_cases)
  have "set ?l1 = set ?l2" by auto
  then show ?thesis
    using labels_str_canonical [OF _ _ g] g by simp
qed

text \<open>
  C14: interning.  Starting from an interner whose objects match their strings, and whatever coherent
  stores other goroutines make between the \<open>Load\<close> and the \<open>LoadOrStore\<close>, \<open>labelProtosToLabels\<close>
  fails exactly when the labels are too long, without touching the interner; otherwise it returns
  the object now interned under the canonical string, whose names and values are those of the
  sorted labels and whose metric name is the value of \<open>__name__\<close>; no entry is ever replaced.
\<close>
theorem labels_interned:
  assumes "interner_inv I" and "interner_inv (env I)" and "I \<subseteq>\<^sub>m env I"
  shows "case labelProtosToLabels env I pairs of
      (I', pairs', Inl e) \<Rightarrow> I' = I \<and> max_uint16 < expected_str_len pairs
    | (I', pairs', Inr (l, metric)) \<Rightarrow>
        interner_inv I' \<and> I \<subseteq>\<^sub>m I' \<and> expected_str_len pairs \<le> max_uint16 \<and>
        pairs' = sort_labels pairs \<and> I' (labels_String l) = Some l \<and>
        getStr pairs = (pairs', Inr (labels_String l)) \<and>
        l_names l = map lbl_name pairs' \<and> l_values l = map lbl_value pairs' \<and> metric = l_metricName l \<and>
        metric = (case filter (\<lambda>p. lbl_name p = MetricNameLabelName) pairs' of
                    [] \<Rightarrow> '''' | m # ms \<Rightarrow> lbl_value (last (m # ms)))"
proof -
  have len: "expected_str_len (sort_labels pairs) = expected_str_len pairs"
    by (rule expected_str_len_mset) simp
  show ?thesis
  proof (cases "max_uint16 < expected_str_len pairs")
    case True
    then have "\<exists>e. getStr pairs = (sort_labels pairs, Inl e)" by (simp add: getStr_cases len)
    then obtain e where "getStr pairs = (sort_labels pairs, Inl e)" ..
    with True show ?thesis by (simp add: labelProtosToLabels_error)
  next
    case False
    then have "\<exists>str. getStr pairs = (sort_labels pairs, Inr str)" by (simp add: getStr_cases len)
    then obtain str where g: "getStr pairs = (sort_labels pairs, Inr str)" ..
    obtain I' where I': "labelProtosToLabels env I pairs =
        (I', sort_labels pairs, Inr (new_labels str (sort_labels pairs),
           l_metricName (new_labels str (sort_labels pairs))))"
      "interner_inv I'" "I \<subseteq>\<^sub>m I'" "I' str = Some (new_labels str (sort_labels pairs))"
      using labelProtosToLabels_ok [where env = env, OF g assms] by blast
    have l: "l_str (new_labels str (sort_labels pairs)) = str" by (simp add: new_labels_def)
    show ?thesis
      unfolding I'(1) using I'(2-4) g False
      by (simp add: labels_String_def l) (simp add: new_labels_def metric_name_fold)
  qed
qed

theorem labels_interned_witness:
  "interner_inv Map.empty \<and>
   (case labelProtosToLabels id Map.empty [\<lparr>lbl_name = ''__name__'', lbl_value = ''cpu''\<rparr>] of
      (I', pairs', Inl e) \<Rightarrow> False
    | (I', pairs', Inr (l, metric)) \<Rightarrow> I' (labels_String l) = Some l \<and> metric = ''cpu'')"
  using labels_interned [of Map.empty id "[\<lparr>lbl_name = ''__name__'', lbl_value = ''cpu''\<rparr>]"]
  by (auto simp: interner_inv_empty sort_labels_def expected_str_len_def max_uint16_def MetricNameLabelName_def
      split: prod.splits sum.splits)

end
