(* ===== verification/Sample_Iter.thy ===== *)
theory Sample_Iter
  imports Prom_Labels
begin

text \<open>
  Samples on their way into the database: the slices of samples that the ingest path hands from
  one component to the next, and \<open>SampleInfoIterator\<close> of \<open>pkg/pgmodel/sql_utils.go\<close>, which
  walks over a batch of them row by row.
\<close>

section \<open>Samples\<close>

text \<open>
  A slice is its visible elements and the identity of its backing array (\<open>None\<close> for a nil slice):
  two slices with the same base share memory.
\<close>

record 'a slice =
  sl_base :: "nat option"
  sl_elems :: "'a list"

definition nil_slice :: "'a slice" where
  "nil_slice = \<lparr>sl_base = None, sl_elems = []\<rparr>"

text \<open>\<open>s[:0]\<close> keeps the backing array.\<close>

definition truncate_slice :: "'a slice \<Rightarrow> 'a slice" where
  "truncate_slice s = s\<lparr>sl_elems := []\<rparr>"

record sample =
  s_Value :: float64
  s_Timestamp :: int

record samplesInfo =
  si_labels :: Labels
  si_seriesID :: int
  si_samples :: "sample slice"

abbreviation samples_of :: "samplesInfo \<Rightarrow> sample list" where
  "samples_of s \<equiv> sl_elems (si_samples s)"


section \<open>The iterator\<close>

record SampleInfoIterator =
  it_sampleInfos :: "samplesInfo list"
  it_sampleInfoIndex :: nat
  it_sampleIndex :: int
  it_minSeen :: int

definition ResetPosition :: "SampleInfoIterator \<Rightarrow> SampleInfoIterator" where
  "ResetPosition t = t\<lparr>it_sampleIndex := - 1, it_sampleInfoIndex := 0, it_minSeen := max_int64\<rparr>"

text \<open>A composite literal that names only \<open>sampleInfos\<close> zeroes the other fields.\<close>

definition zero_iterator :: "samplesInfo list \<Rightarrow> SampleInfoIterator" where
  "zero_iterator infos =
     \<lparr>it_sampleInfos = infos, it_sampleInfoIndex = 0, it_sampleIndex = 0, it_minSeen = 0\<rparr>"

definition NewSampleInfoIterator :: SampleInfoIterator where
  "NewSampleInfoIterator = ResetPosition (zero_iterator [])"

definition Append :: "SampleInfoIterator \<Rightarrow> samplesInfo \<Rightarrow> SampleInfoIterator" where
  "Append t s = t\<lparr>it_sampleInfos := it_sampleInfos t @ [s]\<rparr>"

definition it_Next :: "SampleInfoIterator \<Rightarrow> SampleInfoIterator \<times> bool" where
  "it_Next t =
     (let i = it_sampleIndex t + 1; k = it_sampleInfoIndex t; infos = it_sampleInfos t;
          t' = (if k < length infos \<and> int (length (samples_of (infos ! k))) \<le> i
                then t\<lparr>it_sampleIndex := 0, it_sampleInfoIndex := k + 1\<rparr>
                else t\<lparr>it_sampleIndex := i\<rparr>)
      in (t', it_sampleInfoIndex t' < length infos))"

text \<open>\<open>toTime\<close> is \<open>model.Time(ms).Time()\<close> of the Prometheus library.\<close>

definition it_Values ::
  "(int \<Rightarrow> 't) \<Rightarrow> SampleInfoIterator \<Rightarrow> (SampleInfoIterator \<times> 't \<times> float64 \<times> int) outcome" where
  "it_Values toTime t =
     (let k = it_sampleInfoIndex t; i = it_sampleIndex t; infos = it_sampleInfos t
      in if k < length infos \<and> 0 \<le> i \<and> i < int (length (samples_of (infos ! k)))
         then (let info = infos ! k; sample = samples_of info ! nat i;
                   t' = (if s_Timestamp sample < it_minSeen t
                         then t\<lparr>it_minSeen := s_Timestamp sample\<rparr> else t)
               in Return (t', toTime (s_Timestamp sample), s_Value sample, si_seriesID info))
         else Panic ''index out of range'')"

definition it_Err :: "SampleInfoIterator \<Rightarrow> go_error option" where
  "it_Err t = None"

text \<open>A consumer: \<open>Next\<close> and \<open>Values\<close> until \<open>Next\<close> is false.\<close>

lemma drain_progress:
  assumes "it_Next t = (t1, True)" and "it_Values toTime t1 = Return (t2, row)"
  shows "it_sampleInfos t2 = it_sampleInfos t \<and>
    (it_sampleInfoIndex t2 = it_sampleInfoIndex t \<and> it_sampleIndex t2 = it_sampleIndex t + 1 \<and>
       it_sampleIndex t2 < int (length (samples_of (it_sampleInfos t ! it_sampleInfoIndex t))) \<or>
     it_sampleInfoIndex t2 = Suc (it_sampleInfoIndex t) \<and> it_sampleInfoIndex t < length (it_sampleInfos t))"
  using assms by (auto simp: it_Next_def it_Values_def Let_def split: if_splits)

function drain ::
  "(int \<Rightarrow> 't) \<Rightarrow> SampleInfoIterator \<Rightarrow> (SampleInfoIterator \<times> ('t \<times> float64 \<times> int) list) outcome" where
  "drain toTime t =
     (case it_Next t of
        (t1, False) \<Rightarrow> Return (t1, [])
      | (t1, True) \<Rightarrow>
          (case it_Values toTime t1 of
             Panic s \<Rightarrow> Panic s
           | Return (t2, row) \<Rightarrow> outcome_bind (drain toTime t2) (\<lambda>(t3, rows). Return (t3, row # rows))))"
  by pat_completeness auto
termination
  by (relation "measures [\<lambda>(f, t). length (it_sampleInfos t) - it_sampleInfoIndex t,
      \<lambda>(f, t). nat (int (length (samples_of (it_sampleInfos t ! it_sampleInfoIndex t))) - it_sampleIndex t)]")
    (auto dest!: drain_progress [OF sym])

declare drain.simps [simp del]


section \<open>What a drained iterator delivers\<close>

definition sample_pairs :: "samplesInfo \<Rightarrow> (sample \<times> int) list" where
  "sample_pairs s = map (\<lambda>x. (x, si_seriesID s)) (samples_of s)"

definition all_pairs :: "samplesInfo list \<Rightarrow> (sample \<times> int) list" where
  "all_pairs infos = concat (map sample_pairs infos)"

definition row_of :: "(int \<Rightarrow> 't) \<Rightarrow> sample \<times> int \<Rightarrow> 't \<times> float64 \<times> int" where
  "row_of toTime = (\<lambda>(x, series). (toTime (s_Timestamp x), s_Value x, series))"

definition no_empty :: "samplesInfo list \<Rightarrow> bool" where
  "no_empty infos \<longleftrightarrow> list_all (\<lambda>s. samples_of s \<noteq> []) infos"

definition num_samples :: "samplesInfo list \<Rightarrow> nat" where
  "num_samples infos = sum_list (map (\<lambda>s. length (samples_of s)) infos)"

text \<open>Where the iterator may stand between two calls of \<open>Next\<close>, and what is then still to come.\<close>

definition pos_ok :: "SampleInfoIterator \<Rightarrow> bool" where
  "pos_ok t \<longleftrightarrow> - 1 \<le> it_sampleIndex t \<and>
     (it_sampleInfoIndex t < length (it_sampleInfos t) \<longrightarrow>
        it_sampleIndex t < int (length (samples_of (it_sampleInfos t ! it_sampleInfoIndex t))))"

definition remaining :: "SampleInfoIterator \<Rightarrow> (sample \<times> int) list" where
  "remaining t = drop (nat (it_sampleIndex t + 1)) (all_pairs (drop (it_sampleInfoIndex t) (it_sampleInfos t)))"

lemma length_all_pairs: "length (all_pairs infos) = num_samples infos"
  by (induction infos) (auto simp: all_pairs_def num_samples_def sample_pairs_def)

lemma all_pairs_Cons [simp]: "all_pairs (s # infos) = sample_pairs s @ all_pairs infos"
  by (simp add: all_pairs_def)

lemma all_pairs_Nil [simp]: "all_pairs [] = []"
  by (simp add: all_pairs_def)

lemma length_sample_pairs [simp]: "length (sample_pairs s) = length (samples_of s)"
  by (simp add: sample_pairs_def)

text \<open>The position that \<open>Next\<close> moves to, and what \<open>Values\<close> reads there.\<close>

lemma Next_same_series:
  assumes "k < length infos" and "- 1 \<le> i" and "i + 1 < int (length (samples_of (infos ! k)))"
    and "t = \<lparr>it_sampleInfos = infos, it_sampleInfoIndex = k, it_sampleIndex = i, it_minSeen = m\<rparr>"
  shows "it_Next t = (t\<lparr>it_sampleIndex := i + 1\<rparr>, True)"
    and "remaining t = (samples_of (infos ! k) ! nat (i + 1), si_seriesID (infos ! k)) # remaining (t\<lparr>it_sampleIndex := i + 1\<rparr>)"
    and "pos_ok (t\<lparr>it_sampleIndex := i + 1\<rparr>)"
proof -
  show "it_Next t = (t\<lparr>it_sampleIndex := i + 1\<rparr>, True)"
    using assms by (simp add: it_Next_def)
  have d: "drop k infos = infos ! k # drop (Suc k) infos" using assms(1) by (simp add: Cons_nth_drop_Suc)
  let ?j = "nat (i + 1)"
  have j: "?j < length (samples_of (infos ! k))" using assms by linarith
  have n: "nat (2 + i) = Suc ?j" using assms(2) by linarith
  have "drop ?j (sample_pairs (infos ! k)) = sample_pairs (infos ! k) ! ?j # drop (Suc ?j) (sample_pairs (infos ! k))"
    using j by (simp add: Cons_nth_drop_Suc)
  moreover have "sample_pairs (infos ! k) ! ?j = (samples_of (infos ! k) ! ?j, si_seriesID (infos ! k))"
    using j by (simp add: sample_pairs_def)
  ultimately show "remaining t = (samples_of (infos ! k) ! ?j, si_seriesID (infos ! k)) # remaining (t\<lparr>it_sampleIndex := i + 1\<rparr>)"
    using j assms(4) by (simp add: remaining_def d n)
  show "pos_ok (t\<lparr>it_sampleIndex := i + 1\<rparr>)" using assms by (simp add: pos_ok_def)
qed

lemma Next_next_series:
  assumes "k < length infos" and "i + 1 = int (length (samples_of (infos ! k)))" and "no_empty infos"
    and "t = \<lparr>it_sampleInfos = infos, it_sampleInfoIndex = k, it_sampleIndex = i, it_minSeen = m\<rparr>"
  defines "t1 \<equiv> t\<lparr>it_sampleIndex := 0, it_sampleInfoIndex := Suc k\<rparr>"
  shows "it_Next t = (t1, Suc k < length infos)"
    and "Suc k < length infos \<Longrightarrow> remaining t = (samples_of (infos ! Suc k) ! 0, si_seriesID (infos ! Suc k)) # remaining t1"
    and "\<not> Suc k < length infos \<Longrightarrow> remaining t = []"
    and "pos_ok t1"
proof -
  show "it_Next t = (t1, Suc k < length infos)"
    using assms by (simp add: it_Next_def)
  have d: "drop k infos = infos ! k # drop (Suc k) infos" using assms(1) by (simp add: Cons_nth_drop_Suc)
  have n: "nat (i + 1) = length (samples_of (infos ! k))" using assms(2) by linarith
  have r: "remaining t = all_pairs (drop (Suc k) infos)"
    using assms(4) by (simp add: remaining_def d n)
  show "\<not> Suc k < length infos \<Longrightarrow> remaining t = []" by (simp add: r)
  assume k: "Suc k < length infos"
  then obtain x xs where x: "samples_of (infos ! Suc k) = x # xs"
    using assms(3) by (auto simp: no_empty_def list_all_length neq_Nil_conv)
  moreover have "drop (Suc k) infos = infos ! Suc k # drop (Suc (Suc k)) infos"
    using k by (simp add: Cons_nth_drop_Suc)
  ultimately show "remaining t = (samples_of (infos ! Suc k) ! 0, si_seriesID (infos ! Suc k)) # remaining t1"
    using assms(4) unfolding r by (simp add: t1_def remaining_def sample_pairs_def)
next
  show "pos_ok t1"
    using assms(3,4) by (auto simp: t1_def pos_ok_def no_empty_def list_all_length)
qed

text \<open>One step of a consumer.\<close>

lemma drain_step:
  assumes "no_empty (it_sampleInfos t)" and "pos_ok t"
  shows "remaining t = [] \<Longrightarrow> \<exists>t1. it_Next t = (t1, False) \<and> it_sampleInfos t1 = it_sampleInfos t \<and> it_minSeen t1 = it_minSeen t"
    and "remaining t = (x, series) # ps \<Longrightarrow>
      \<exists>t1 t2. it_Next t = (t1, True) \<and> it_Values toTime t1 = Return (t2, row_of toTime (x, series)) \<and>
        it_sampleInfos t2 = it_sampleInfos t \<and> pos_ok t2 \<and> remaining t2 = ps \<and>
        it_minSeen t2 = min (s_Timestamp x) (it_minSeen t)"
proof -
  obtain infos k i m where t:
    "t = \<lparr>it_sampleInfos = infos, it_sampleInfoIndex = k, it_sampleIndex = i, it_minSeen = m\<rparr>"
    by (cases t) simp
  have ne: "no_empty infos" using assms(1) t by simp
  consider (over) "length infos \<le> k"
    | (same) "k < length infos" "- 1 \<le> i" "i + 1 < int (length (samples_of (infos ! k)))"
    | (switch) "k < length infos" "i + 1 = int (length (samples_of (infos ! k)))"
    using assms(2) t by (fastforce simp: pos_ok_def)
  note cases = this
  have read: "it_Values toTime (t\<lparr>it_sampleIndex := i', it_sampleInfoIndex := k'\<rparr>) =
      Return (t\<lparr>it_sampleIndex := i', it_sampleInfoIndex := k', it_minSeen := min (s_Timestamp (samples_of (infos ! k') ! nat i')) m\<rparr>,
        row_of toTime (samples_of (infos ! k') ! nat i', si_seriesID (infos ! k')))"
    if "k' < length infos" "0 \<le> i'" "i' < int (length (samples_of (infos ! k')))" for i' k'
    using that t by (auto simp: it_Values_def row_of_def Let_def min_def)
  show "\<exists>t1. it_Next t = (t1, False) \<and> it_sampleInfos t1 = it_sampleInfos t \<and> it_minSeen t1 = it_minSeen t"
    if "remaining t = []"
    using cases
  proof cases
    case over
    then show ?thesis using t by (simp add: it_Next_def)
  next
    case same
    with Next_same_series(2) [OF same t] that show ?thesis by simp
  next
    case switch
    with Next_next_series(1,2) [OF switch ne t] that t show ?thesis by auto
  qed
  show "\<exists>t1 t2. it_Next t = (t1, True) \<and> it_Values toTime t1 = Return (t2, row_of toTime (x, series)) \<and>
      it_sampleInfos t2 = it_sampleInfos t \<and> pos_ok t2 \<and> remaining t2 = ps \<and>
      it_minSeen t2 = min (s_Timestamp x) (it_minSeen t)"
    if "remaining t = (x, series) # ps"
    using cases
  proof cases
    case over
    then show ?thesis using that t by (simp add: remaining_def)
  next
    case same
    then show ?thesis
      using Next_same_series [OF same t] that read [of k "i + 1"] t by (auto simp: remaining_def pos_ok_def)
  next
    case switch
    have k: "Suc k < length infos" using Next_next_series(3) [OF switch ne t] that by auto
    moreover have "samples_of (infos ! Suc k) \<noteq> []"
      using ne k by (simp add: no_empty_def list_all_length)
    ultimately show ?thesis
      using Next_next_series [OF switch ne t] that read [of "Suc k" 0] t by (auto simp: remaining_def pos_ok_def)
  qed
qed

lemma drain_rest:
  assumes "no_empty (it_sampleInfos t)" and "pos_ok t"
  shows "\<exists>t'. drain toTime t = Return (t', map (row_of toTime) (remaining t)) \<and>
    it_sampleInfos t' = it_sampleInfos t \<and>
    it_minSeen t' = fold min (map (\<lambda>p. s_Timestamp (fst p)) (remaining t)) (it_minSeen t)"
  using assms
proof (induction "remaining t" arbitrary: t)
  case Nil
  obtain t1 where "it_Next t = (t1, False)" "it_sampleInfos t1 = it_sampleInfos t" "it_minSeen t1 = it_minSeen t"
    using drain_step(1) [OF Nil(2,3) Nil(1) [symmetric]] by blast
  with Nil(1) [symmetric] show ?case by (simp add: drain.simps)
next
  case (Cons p ps)
  obtain x series where p: "p = (x, series)" by (cases p)
  obtain t1 t2 where st: "it_Next t = (t1, True)" "it_Values toTime t1 = Return (t2, row_of toTime (x, series))"
    "it_sampleInfos t2 = it_sampleInfos t" "pos_ok t2" "remaining t2 = ps"
    "it_minSeen t2 = min (s_Timestamp x) (it_minSeen t)"
    using drain_step(2) [OF Cons.prems Cons.hyps(2) [symmetric, unfolded p], of toTime] by blast
  obtain t' where "drain toTime t2 = Return (t', map (row_of toTime) ps)"
    "it_sampleInfos t' = it_sampleInfos t"
    "it_minSeen t' = fold min (map (\<lambda>p. s_Timestamp (fst p)) ps) (min (s_Timestamp x) (it_minSeen t))"
    using Cons.hyps(1) [of t2] Cons.prems(1) st(3-6) by auto
  with st Cons.hyps(2) [symmetric] p show ?case by (subst drain.simps) simp
qed

lemma remaining_ResetPosition: "remaining (ResetPosition t) = all_pairs (it_sampleInfos t)"
  by (simp add: remaining_def ResetPosition_def)

lemma pos_ok_ResetPosition: "pos_ok (ResetPosition t)"
  by (simp add: pos_ok_def ResetPosition_def)

lemma drain_reset:
  assumes "no_empty (it_sampleInfos t)"
  shows "\<exists>t'. drain toTime (ResetPosition t) = Return (t', map (row_of toTime) (all_pairs (it_sampleInfos t))) \<and>
    it_sampleInfos t' = it_sampleInfos t \<and>
    it_minSeen t' = fold min (map (\<lambda>p. s_Timestamp (fst p)) (all_pairs (it_sampleInfos t))) max_int64"
  using drain_rest [of "ResetPosition t" toTime] assms pos_ok_ResetPosition [of t]
  by (simp add: remaining_ResetPosition) (simp add: ResetPosition_def)

text \<open>A series without samples makes \<open>Values\<close> read out of range.\<close>

lemma drain_empty_series:
  assumes "it_sampleInfos t = [s, s']" and "samples_of s = [x]" and "samples_of s' = []"
  shows "drain toTime (ResetPosition t) = Panic ''index out of range''"
  using assms by (simp add: drain.simps ResetPosition_def it_Next_def it_Values_def Let_def)

section \<open>Properties\<close>

text \<open>
  C16: draining an iterator.  If no series of the batch is empty, then from a reset position the loop of
  \<open>Next\<close> and \<open>Values\<close> does not panic and delivers
  every sample exactly once, in order, with the id of its series; \<open>minSeen\<close> is then the least
  timestamp.  The result does not depend on the position before the reset, so a retry after
  \<open>ResetPosition\<close> sends the same rows again.
\<close>
theorem iterator_drain:
  assumes "no_empty (it_sampleInfos t)"
  shows "\<exists>t'. drain toTime (ResetPosition t) =
      Return (t', concat (map (\<lambda>s. map (\<lambda>x. (toTime (s_Timestamp x), s_Value x, si_seriesID s)) (samples_of s))
        (it_sampleInfos t))) \<and>
    it_sampleInfos t' = it_sampleInfos t \<and>
    it_minSeen t' = Min (insert max_int64 (\<Union>s \<in> set (it_sampleInfos t). s_Timestamp ` set (samples_of s)))"
proof -
  have rows: "map (row_of toTime) (all_pairs infos) =
      concat (map (\<lambda>s. map (\<lambda>x. (toTime (s_Timestamp x), s_Value x, si_seriesID s)) (samples_of s)) infos)" for infos
    by (induction infos) (simp_all add: row_of_def sample_pairs_def)
  have ts: "set (map (\<lambda>p. s_Timestamp (fst p)) (all_pairs infos)) =
      (\<Union>s \<in> set infos. s_Timestamp ` set (samples_of s))" for infos
    by (induction infos) (auto simp: sample_pairs_def image_image)
  have mins: "fold min xs a = Min (insert a (set xs))" for xs and a :: int
    by (simp only: Min.set_eq_fold [symmetric] list.set(2) [symmetric])
  show ?thesis
    using drain_reset [OF assms, of toTime] unfolding rows mins ts .
qed

theorem iterator_drain_witness:
  "\<exists>t'. drain id (ResetPosition (zero_iterator
      [\<lparr>si_labels = new_labels [] [], si_seriesID = 7,
        si_samples = \<lparr>sl_base = None, sl_elems = [\<lparr>s_Value = 1, s_Timestamp = 20\<rparr>, \<lparr>s_Value = 2, s_Timestamp = 10\<rparr>]\<rparr>\<rparr>,
       \<lparr>si_labels = new_labels [] [], si_seriesID = 9,
        si_samples = \<lparr>sl_base = None, sl_elems = [\<lparr>s_Value = 3, s_Timestamp = 30\<rparr>]\<rparr>\<rparr>])) =
     Return (t', [(20, 1, 7), (10, 2, 7), (30, 3, 9)]) \<and> it_minSeen t' = 10"
  using iterator_drain [of "zero_iterator
      [\<lparr>si_labels = new_labels [] [], si_seriesID = 7,
        si_samples = \<lparr>sl_base = None, sl_elems = [\<lparr>s_Value = 1, s_Timestamp = 20\<rparr>, \<lparr>s_Value = 2, s_Timestamp = 10\<rparr>]\<rparr>\<rparr>,
       \<lparr>si_labels = new_labels [] [], si_seriesID = 9,
        si_samples = \<lparr>sl_base = None, sl_elems = [\<lparr>s_Value = 3, s_Timestamp = 30\<rparr>]\<rparr>\<rparr>]" id]
  by (simp add: zero_iterator_def no_empty_def) blast

end
