(* ===== verification/Ingestor.thy ===== *)
theory Ingestor
  imports Sample_Iter
begin

text \<open>
  The front of the write path: \<open>pkg/pgmodel/ingestor.go\<close>, which turns the time series of a write
  request into the rows of each metric, and \<open>pkg/pgmodel/insert_ctx.go\<close>, the pool of write requests.
\<close>

section \<open>Write requests and their pool\<close>

text \<open>
  \<open>XXX_unrecognized\<close> is the list of unknown bytes (nil is empty).  A \<open>samplesInfo\<close> slice shares its
  memory with the request it came from, so samples are \<open>slice\<close> values with their base.
\<close>

record TimeSeries =
  ts_Labels :: "label list"
  ts_Samples :: "sample slice"
  ts_unrecognized :: string

text \<open>
  Reslicing keeps the backing array, and the unmarshaller reslices into it again, so a request also
  has the spare series that its backing array holds beyond its length.
\<close>

record WriteRequest =
  wr_Timeseries :: "TimeSeries list"
  wr_spare :: "TimeSeries list"
  wr_unrecognized :: string

type_synonym wrPool = "WriteRequest list"

definition finish_series :: "TimeSeries \<Rightarrow> TimeSeries" where
  "finish_series ts = ts\<lparr>ts_Labels := [], ts_Samples := truncate_slice (ts_Samples ts), ts_unrecognized := []\<rparr>"

definition FinishWriteRequest :: "wrPool \<Rightarrow> WriteRequest \<Rightarrow> wrPool \<times> WriteRequest" where
  "FinishWriteRequest pool wr =
     (let wr' = \<lparr>wr_Timeseries = [], wr_spare = map finish_series (wr_Timeseries wr) @ wr_spare wr,
                 wr_unrecognized = []\<rparr>
      in (wr' # pool, wr'))"

text \<open>\<open>sync.Pool\<close> hands out any request that was put back or a new one, as \<open>pick\<close> says.\<close>

definition NewWriteRequest :: "nat option \<Rightarrow> wrPool \<Rightarrow> wrPool \<times> WriteRequest" where
  "NewWriteRequest pick pool =
     (case pick of
        None \<Rightarrow> (pool, \<lparr>wr_Timeseries = [], wr_spare = [], wr_unrecognized = []\<rparr>)
      | Some i \<Rightarrow>
          (if i < length pool then (take i pool @ drop (Suc i) pool, pool ! i)
           else (pool, \<lparr>wr_Timeseries = [], wr_spare = [], wr_unrecognized = []\<rparr>)))"

text \<open>The sample arrays that a use of the request may write to.\<close>

definition series_bases :: "TimeSeries list \<Rightarrow> nat set" where
  "series_bases tss = {b. \<exists>ts \<in> set tss. sl_base (ts_Samples ts) = Some b}"


section \<open>Parsing a request\<close>

text \<open>A Go map from metric names, built by insertion and kept in insertion order.\<close>

fun map_append :: "'k \<Rightarrow> 'v \<Rightarrow> ('k \<times> 'v list) list \<Rightarrow> ('k \<times> 'v list) list" where
  "map_append k v [] = [(k, [v])]"
| "map_append k v ((k', vs) # m) =
     (if k = k' then (k', vs @ [v]) # m else (k', vs) # map_append k v m)"

type_synonym metric_data = "(string \<times> samplesInfo list) list"

record parse_state =
  ps_interner :: interner
  ps_data :: metric_data
  ps_rows :: nat

text \<open>
  The loop of \<open>parseData\<close>: labels are sorted in place and the samples that were taken are set to nil.
  The time series are returned as the loop leaves them, with the error that ended it, if any.
\<close>

fun parse_loop ::
  "(interner \<Rightarrow> interner) \<Rightarrow> parse_state \<Rightarrow> TimeSeries list \<Rightarrow> parse_state \<times> TimeSeries list \<times> go_error option" where
  "parse_loop env st [] = (st, [], None)"
| "parse_loop env st (t # tts) =
     (if length (sl_elems (ts_Samples t)) = 0
      then (case parse_loop env st tts of (st', tts', err) \<Rightarrow> (st', t # tts', err))
      else (case labelProtosToLabels env (ps_interner st) (ts_Labels t) of
              (I, pairs, Inl e) \<Rightarrow> (st\<lparr>ps_interner := I\<rparr>, t\<lparr>ts_Labels := pairs\<rparr> # tts, Some e)
            | (I, pairs, Inr (seriesLabels, metricName)) \<Rightarrow>
                (if metricName = '''' then (st\<lparr>ps_interner := I\<rparr>, t\<lparr>ts_Labels := pairs\<rparr> # tts, Some ErrNoMetricName)
                 else (let sample = \<lparr>si_labels = seriesLabels, si_seriesID = - 1, si_samples = ts_Samples t\<rparr>;
                           st1 = \<lparr>ps_interner = I, ps_data = map_append metricName sample (ps_data st),
                                  ps_rows = ps_rows st + length (sl_elems (ts_Samples t))\<rparr>
                       in case parse_loop env st1 tts of
                            (st', tts', err) \<Rightarrow> (st', t\<lparr>ts_Labels := pairs, ts_Samples := nil_slice\<rparr> # tts', err)))))"

text \<open>
  \<open>parseData\<close>.  \<open>own\<close> says whether \<open>tts\<close> is the slice of the request itself, as in \<open>write.go\<close>;
  then the request sees what the loop did to it.
\<close>

record parse_result =
  pr_interner :: interner
  pr_pool :: wrPool
  pr_tts :: "TimeSeries list"
  pr_req :: WriteRequest
  pr_result :: "metric_data option \<times> nat \<times> go_error option"

definition parseData ::
  "(interner \<Rightarrow> interner) \<Rightarrow> interner \<Rightarrow> wrPool \<Rightarrow> bool \<Rightarrow> TimeSeries list \<Rightarrow> WriteRequest \<Rightarrow> parse_result" where
  "parseData env I pool own tts req =
     (case parse_loop env \<lparr>ps_interner = I, ps_data = [], ps_rows = 0\<rparr> tts of
        (st, tts', err) \<Rightarrow>
          (let req1 = (if own then req\<lparr>wr_Timeseries := tts'\<rparr> else req)
           in case err of
                Some e \<Rightarrow> \<lparr>pr_interner = ps_interner st, pr_pool = pool, pr_tts = tts', pr_req = req1,
                           pr_result = (None, ps_rows st, Some e)\<rparr>
              | None \<Rightarrow>
                  (case FinishWriteRequest pool req1 of
                     (pool', req') \<Rightarrow>
                       \<lparr>pr_interner = ps_interner st, pr_pool = pool',
                        pr_tts = (if own then map finish_series tts' else tts'), pr_req = req',
                        pr_result = (Some (ps_data st), ps_rows st, None)\<rparr>)))"


section \<open>The ingestor\<close>

text \<open>
  \<open>DBIngestor\<close> over its \<open>inserter\<close>: \<open>insertNewData\<close> is the state-passing \<open>InsertNewData\<close>, whose
  row count is a \<open>uint64\<close>.
\<close>

definition insert_mismatch_msg :: "nat \<Rightarrow> nat \<Rightarrow> string" where
  "insert_mismatch_msg totalRows rowsInserted =
     ''Failed to insert all the data! Expected: '' @ show_nat totalRows @ '', Got: '' @ show_nat rowsInserted"

definition Ingest ::
  "(metric_data \<Rightarrow> 'd \<Rightarrow> 'd \<times> nat \<times> go_error option) \<Rightarrow> (interner \<Rightarrow> interner) \<Rightarrow> interner \<Rightarrow> wrPool \<Rightarrow> 'd \<Rightarrow> bool \<Rightarrow>
   TimeSeries list \<Rightarrow> WriteRequest \<Rightarrow> parse_result \<times> 'd \<times> nat \<times> go_error option" where
  "Ingest insertNewData env I pool db own tts req =
     (let pr = parseData env I pool own tts req
      in case pr_result pr of
           (data, totalRows, Some e) \<Rightarrow> (pr, db, 0, Some e)
         | (data, totalRows, None) \<Rightarrow>
             (case insertNewData (case data of None \<Rightarrow> [] | Some d \<Rightarrow> d) db of
                (db', rowsInserted, err) \<Rightarrow>
                  (if err = None \<and> wrap64 (int rowsInserted) \<noteq> int totalRows
                   then (pr, db', rowsInserted, Some (ErrMsg (insert_mismatch_msg totalRows rowsInserted)))
                   else (pr, db', rowsInserted, err))))"

definition ingestor_CompleteMetricCreation :: "('d \<Rightarrow> 'd \<times> go_error option) \<Rightarrow> 'd \<Rightarrow> 'd \<times> go_error option" where
  "ingestor_CompleteMetricCreation completeMetricCreation db = completeMetricCreation db"

definition ingestor_Close :: "('d \<Rightarrow> 'd) \<Rightarrow> 'd \<Rightarrow> 'd" where
  "ingestor_Close close db = close db"


section \<open>What parsing computes\<close>

definition nonempty :: "TimeSeries \<Rightarrow> bool" where
  "nonempty t \<longleftrightarrow> sl_elems (ts_Samples t) \<noteq> []"

text \<open>The labels of a series, the error it causes, if any, and its entry in the data.\<close>

definition series_labels :: "TimeSeries \<Rightarrow> Labels result" where
  "series_labels t =
     (case snd (getStr (ts_Labels t)) of
        Inl e \<Rightarrow> Inl e | Inr str \<Rightarrow> Inr (new_labels str (sort_labels (ts_Labels t))))"

definition series_error :: "TimeSeries \<Rightarrow> go_error option" where
  "series_error t =
     (case series_labels t of
        Inl e \<Rightarrow> Some e | Inr l \<Rightarrow> if l_metricName l = '''' then Some ErrNoMetricName else None)"

definition series_info :: "TimeSeries \<Rightarrow> string \<times> samplesInfo" where
  "series_info t =
     (case series_labels t of
        Inl _ \<Rightarrow> ('''', \<lparr>si_labels = new_labels [] [], si_seriesID = - 1, si_samples = ts_Samples t\<rparr>)
      | Inr l \<Rightarrow> (l_metricName l, \<lparr>si_labels = l, si_seriesID = - 1, si_samples = ts_Samples t\<rparr>))"

definition data_lookup :: "('k \<times> 'v list) list \<Rightarrow> 'k \<Rightarrow> 'v list" where
  "data_lookup d k = (case map_of d k of None \<Rightarrow> [] | Some vs \<Rightarrow> vs)"

definition coherent_env :: "(interner \<Rightarrow> interner) \<Rightarrow> bool" where
  "coherent_env env \<longleftrightarrow> (\<forall>I. interner_inv I \<longrightarrow> interner_inv (env I) \<and> I \<subseteq>\<^sub>m env I)"

lemma map_append_lookup:
  "data_lookup (map_append k v d) k' = (if k' = k then data_lookup d k @ [v] else data_lookup d k')"
  by (induction k v d rule: map_append.induct) (auto simp: data_lookup_def split: option.splits)

lemma map_append_keys: "set (map fst (map_append k v d)) = insert k (set (map fst d))"
  by (induction k v d rule: map_append.induct) auto

lemma map_append_distinct: "distinct (map fst d) \<Longrightarrow> distinct (map fst (map_append k v d))"
proof (induction k v d rule: map_append.induct)
  case (2 k v k' vs m)
  then show ?case using map_append_keys [of k v m] by auto
qed simp

definition append_all :: "TimeSeries list \<Rightarrow> metric_data \<Rightarrow> metric_data" where
  "append_all = fold (\<lambda>t. case_prod map_append (series_info t))"

lemma append_all_simps [simp]:
  "append_all [] d = d"
  "append_all (t # ts) d = append_all ts (map_append (fst (series_info t)) (snd (series_info t)) d)"
  by (simp_all add: append_all_def case_prod_beta)

lemma append_all_lookup:
  "data_lookup (append_all ts d) m =
   data_lookup d m @ map (snd \<circ> series_info) (filter (\<lambda>t. fst (series_info t) = m) ts)"
  by (induction ts arbitrary: d) (auto simp: map_append_lookup)

lemma append_all_distinct: "distinct (map fst d) \<Longrightarrow> distinct (map fst (append_all ts d))"
  by (induction ts arbitrary: d) (auto simp: map_append_distinct)

lemma append_all_keys: "set (map fst (append_all ts d)) = set (map fst d) \<union> (fst \<circ> series_info) ` set ts"
proof (induction ts arbitrary: d)
  case (Cons t ts)
  then show ?case using map_append_keys [of "fst (series_info t)" "snd (series_info t)" d] by auto
qed simp

text \<open>One call of \<open>labelProtosToLabels\<close> in the loop.\<close>

lemma protos_series_labels:
  assumes "coherent_env env" and "interner_inv I"
  shows "\<exists>I'. interner_inv I' \<and> labelProtosToLabels env I (ts_Labels t) =
    (I', sort_labels (ts_Labels t), map_sum id (\<lambda>l. (l, l_metricName l)) (series_labels t))"
proof -
  obtain r where g: "getStr (ts_Labels t) = (sort_labels (ts_Labels t), r)"
    by (simp add: getStr_cases)
  show ?thesis
  proof (cases r)
    case (Inl e)
    with g assms(2) show ?thesis by (simp add: labelProtosToLabels_error series_labels_def)
  next
    case (Inr str)
    have e: "interner_inv (env I)" "I \<subseteq>\<^sub>m env I" using assms by (simp_all add: coherent_env_def)
    show ?thesis
      using labelProtosToLabels_ok [where env = env, OF g [unfolded Inr] assms(2) e] g Inr
      by (auto simp: series_labels_def)
  qed
qed

lemma parse_loop_spec:
  assumes "coherent_env env" and "interner_inv (ps_interner st)"
    and "parse_loop env st tts = (st', tts', err)"
  defines "good \<equiv> takeWhile (\<lambda>t. series_error t = None) (filter nonempty tts)"
  shows "interner_inv (ps_interner st') \<and> ps_data st' = append_all good (ps_data st) \<and>
    ps_rows st' = ps_rows st + sum_list (map (\<lambda>t. length (sl_elems (ts_Samples t))) good) \<and>
    err = (case dropWhile (\<lambda>t. series_error t = None) (filter nonempty tts) of
             [] \<Rightarrow> None | t # _ \<Rightarrow> series_error t)"
  using assms(2,3) unfolding good_def
proof (induction tts arbitrary: st tts')
  case Nil
  then show ?case by simp
next
  case (Cons t tts)
  show ?case
  proof (cases "nonempty t")
    case False
    then show ?thesis
      using Cons.prems Cons.IH [of st] by (auto simp: nonempty_def split: prod.splits)
  next
    case True
    obtain I' where I': "interner_inv I'" "labelProtosToLabels env (ps_interner st) (ts_Labels t) =
        (I', sort_labels (ts_Labels t), map_sum id (\<lambda>l. (l, l_metricName l)) (series_labels t))"
      using protos_series_labels [OF assms(1) Cons.prems(1)] by blast
    show ?thesis
    proof (cases "series_error t")
      case (Some e)
      then show ?thesis
        using True Cons.prems(2) I' by (auto simp: nonempty_def series_error_def split: sum.splits if_splits)
    next
      case None
      then obtain l where l: "series_labels t = Inr l" "l_metricName l \<noteq> ''''"
        by (auto simp: series_error_def split: sum.splits if_splits)
      define st1 where "st1 = \<lparr>ps_interner = I', ps_data = map_append (fst (series_info t)) (snd (series_info t)) (ps_data st),
         ps_rows = ps_rows st + length (sl_elems (ts_Samples t))\<rparr>"
      from True Cons.prems(2) I'(2) l obtain tts1 where "parse_loop env st1 tts = (st', tts1, err)"
        by (auto simp: nonempty_def st1_def series_info_def Let_def split: prod.splits)
      from Cons.IH [OF _ this] I'(1) True None show ?thesis by (simp add: st1_def)
    qed
  qed
qed

text \<open>The series a successful loop leaves behind no longer hold the samples it took.\<close>

lemma parse_loop_bases:
  "parse_loop env st tts = (st', tts', None) \<Longrightarrow> series_bases tts' = series_bases (filter (\<lambda>t. \<not> nonempty t) tts)"
proof (induction tts arbitrary: st tts')
  case Nil
  then show ?case by simp
next
  case (Cons t tts)
  have ins: "series_bases (x # xs) = set_option (sl_base (ts_Samples x)) \<union> series_bases xs" for x xs
    by (auto simp: series_bases_def)
  show ?case
    using Cons.prems Cons.IH
    by (auto simp: nonempty_def ins nil_slice_def Let_def split: prod.splits sum.splits if_splits)
qed

lemma parseData_ok:
  assumes "coherent_env env" and "interner_inv I" and "list_all (\<lambda>t. series_error t = None) (filter nonempty tts)"
  shows "\<exists>I' tts'. parse_loop env \<lparr>ps_interner = I, ps_data = [], ps_rows = 0\<rparr> tts =
    (\<lparr>ps_interner = I', ps_data = append_all (filter nonempty tts) [],
      ps_rows = sum_list (map (\<lambda>t. length (sl_elems (ts_Samples t))) tts)\<rparr>, tts', None) \<and> interner_inv I'"
proof -
  obtain st' tts' err where p: "parse_loop env \<lparr>ps_interner = I, ps_data = [], ps_rows = 0\<rparr> tts = (st', tts', err)"
    by (metis prod_cases3)
  have tw: "takeWhile (\<lambda>t. series_error t = None) (filter nonempty tts) = filter nonempty tts"
    "dropWhile (\<lambda>t. series_error t = None) (filter nonempty tts) = []"
    using assms(3) by (simp_all add: list_all_iff)
  have "sum_list (map (\<lambda>t. length (sl_elems (ts_Samples t))) (filter nonempty tts)) =
      sum_list (map (\<lambda>t. length (sl_elems (ts_Samples t))) tts)"
    by (induction tts) (auto simp: nonempty_def)
  with parse_loop_spec [OF assms(1) _ p] assms(2) p tw show ?thesis
    by (cases st') auto
qed

section \<open>Properties\<close>

text \<open>
  C26: parsing a write request.  With coherent concurrent use of the interner, the first series with samples
  that has no metric name or too long labels ends the call with its error, and the request is not given
  back; if there is none, the data holds, for every metric, exactly the series of that metric that
  have samples, in order and with unset ids, under distinct non-empty keys, and the row count
  is the number of samples of the request.
\<close>
theorem parse_data_groups:
  assumes "coherent_env env" and "interner_inv I"
  shows "case find (\<lambda>t. series_error t \<noteq> None) (filter nonempty tts) of
      Some t \<Rightarrow> (\<exists>n. pr_result (parseData env I pool own tts req) = (None, n, series_error t)) \<and>
        pr_pool (parseData env I pool own tts req) = pool
    | None \<Rightarrow> \<exists>data. pr_result (parseData env I pool own tts req) =
        (Some data, sum_list (map (\<lambda>t. length (sl_elems (ts_Samples t))) tts), None) \<and>
        distinct (map fst data) \<and> '''' \<notin> set (map fst data) \<and>
        set (map fst data) = fst ` series_info ` {t \<in> set tts. nonempty t} \<and>
        (\<forall>m. data_lookup data m =
           map (snd \<circ> series_info) (filter (\<lambda>t. fst (series_info t) = m) (filter nonempty tts))) \<and>
        interner_inv (pr_interner (parseData env I pool own tts req))"
proof (cases "find (\<lambda>t. series_error t \<noteq> None) (filter nonempty tts)")
  case None
  then have ok: "list_all (\<lambda>t. series_error t = None) (filter nonempty tts)"
    by (auto simp: find_None_iff list_all_iff)
  let ?data = "append_all (filter nonempty tts) []"
  obtain I' tts' where "parse_loop env \<lparr>ps_interner = I, ps_data = [], ps_rows = 0\<rparr> tts =
    (\<lparr>ps_interner = I', ps_data = ?data,
      ps_rows = sum_list (map (\<lambda>t. length (sl_elems (ts_Samples t))) tts)\<rparr>, tts', None)" "interner_inv I'"
    using parseData_ok [OF assms ok] by blast
  then have pr: "pr_result (parseData env I pool own tts req) =
      (Some ?data, sum_list (map (\<lambda>t. length (sl_elems (ts_Samples t))) tts), None)"
    "interner_inv (pr_interner (parseData env I pool own tts req))"
    by (simp_all add: parseData_def FinishWriteRequest_def Let_def)
  have keys: "set (map fst ?data) = fst ` series_info ` {t \<in> set tts. nonempty t}"
    using append_all_keys [of "filter nonempty tts" "[]"] by (simp add: image_comp)
  have "fst (series_info t) \<noteq> ''''" if "t \<in> set (filter nonempty tts)" for t
    using ok that by (auto simp: list_all_iff series_error_def series_info_def split: sum.splits if_splits)
  then have "'''' \<notin> fst ` series_info ` {t \<in> set tts. nonempty t}"
    by (simp add: image_iff) metis
  with keys have ne: "'''' \<notin> set (map fst ?data)" by simp
  show ?thesis
    unfolding None option.case using pr ne keys append_all_distinct [of "[]"]
    by (intro exI [of _ ?data] conjI) (simp_all add: append_all_lookup data_lookup_def [of "[]"])
next
  case (Some t)
  obtain st' tts' err where p: "parse_loop env \<lparr>ps_interner = I, ps_data = [], ps_rows = 0\<rparr> tts = (st', tts', err)"
    by (metis prod_cases3)
  have hd: "find P xs = Some x \<Longrightarrow> (case dropWhile (\<lambda>t. \<not> P t) xs of [] \<Rightarrow> None | t # _ \<Rightarrow> f t) = f x"
    for P :: "TimeSeries \<Rightarrow> bool" and xs x and f :: "TimeSeries \<Rightarrow> go_error option"
    by (induction xs) (auto split: if_splits)
  have "err = series_error t"
    using parse_loop_spec [OF assms(1) _ p] assms(2) hd [OF Some, of series_error] by simp
  moreover have "series_error t \<noteq> None" using Some by (auto simp: find_Some_iff)
  ultimately show ?thesis
    using p Some by (auto simp: parseData_def Let_def)
qed

definition ex_series :: TimeSeries where
  "ex_series = \<lparr>ts_Labels = [\<lparr>lbl_name = ''__name__'', lbl_value = ''cpu''\<rparr>],
     ts_Samples = \<lparr>sl_base = Some 1, sl_elems = [\<lparr>s_Value = 0, s_Timestamp = 10\<rparr>]\<rparr>, ts_unrecognized = []\<rparr>"

lemma ex_series_info:
  "nonempty ex_series" "series_error ex_series = None" "fst (series_info ex_series) = ''cpu''"
  by (simp_all add: ex_series_def nonempty_def series_error_def series_info_def series_labels_def
      getStr_cases sort_labels_def expected_str_len_def max_uint16_def new_labels_def MetricNameLabelName_def)

lemma coherent_env_id: "coherent_env id"
  by (simp add: coherent_env_def)

theorem parse_data_groups_witness:
  "\<exists>data. pr_result (parseData id Map.empty [] True [ex_series] (snd (NewWriteRequest None []))) = (Some data, 1, None) \<and>
     data_lookup data ''cpu'' = [snd (series_info ex_series)]"
proof -
  have r: "sum_list (map (\<lambda>t. length (sl_elems (ts_Samples t))) [ex_series]) = 1" by (simp add: ex_series_def)
  show ?thesis
    using parse_data_groups [OF coherent_env_id interner_inv_empty,
        where tts = "[ex_series]" and pool = "[]" and own = True and req = "snd (NewWriteRequest None [])"]
      ex_series_info unfolding r by auto
qed

text \<open>
  C27: recycling a request is safe.  When the arrays of the series with samples are held by no other
  series of the request, no series of the parsed data shares its samples with the request that goes back to
  the pool, although the pooled request keeps the arrays of its series for reuse.
\<close>
theorem recycled_request_no_alias:
  assumes "pr_result (parseData env I pool True (wr_Timeseries req) req) = (Some data, n, None)"
    and "coherent_env env" and "interner_inv I"
    and "series_bases (filter nonempty (wr_Timeseries req)) \<inter>
         series_bases (filter (\<lambda>t. \<not> nonempty t) (wr_Timeseries req) @ wr_spare req) = {}"
  shows "\<exists>req'. pr_pool (parseData env I pool True (wr_Timeseries req) req) = req' # pool \<and>
    wr_Timeseries req' = [] \<and>
    (\<forall>m. \<forall>s \<in> set (data_lookup data m). \<forall>b. sl_base (si_samples s) = Some b \<longrightarrow> b \<notin> series_bases (wr_spare req'))"
proof -
  obtain st' tts' err where p:
    "parse_loop env \<lparr>ps_interner = I, ps_data = [], ps_rows = 0\<rparr> (wr_Timeseries req) = (st', tts', err)"
    by (metis prod_cases3)
  with assms(1) have e: "err = None" "data = ps_data st'"
    by (auto simp: parseData_def FinishWriteRequest_def Let_def split: option.splits)
  define good where "good = takeWhile (\<lambda>t. series_error t = None) (filter nonempty (wr_Timeseries req))"
  have d: "data = append_all good []"
    using parse_loop_spec [OF assms(2) _ p] assms(3) e by (simp add: good_def)
  have base: "sl_base (si_samples (snd (series_info t))) = sl_base (ts_Samples t)" for t
    by (simp add: series_info_def split: sum.splits)
  have fin: "series_bases (map finish_series xs) = series_bases xs" for xs
    by (simp add: series_bases_def finish_series_def truncate_slice_def)
  have app: "series_bases (xs @ ys) = series_bases xs \<union> series_bases ys" for xs ys
    by (auto simp: series_bases_def)
  have used: "b \<in> series_bases (filter nonempty (wr_Timeseries req))"
    if hs: "s \<in> set (data_lookup data m)" and hb: "sl_base (si_samples s) = Some b" for s m b
  proof -
    have "data_lookup data m = map (snd \<circ> series_info) (filter (\<lambda>t. fst (series_info t) = m) good)"
      unfolding d append_all_lookup by (simp add: data_lookup_def)
    then obtain t where "t \<in> set good" "s = snd (series_info t)"
      using hs by auto
    moreover have "set good \<subseteq> set (filter nonempty (wr_Timeseries req))"
      unfolding good_def by (meson set_takeWhileD subsetI)
    ultimately show ?thesis using hb base by (auto simp: series_bases_def)
  qed
  have left: "series_bases (map finish_series tts' @ wr_spare req) =
      series_bases (filter (\<lambda>t. \<not> nonempty t) (wr_Timeseries req) @ wr_spare req)"
    using parse_loop_bases [OF p [unfolded e]] by (simp add: fin app)
  show ?thesis
    using p e assms(4) used left by (auto simp: parseData_def FinishWriteRequest_def Let_def)
qed


theorem recycled_request_no_alias_witness:
  "\<exists>req' data. pr_pool (parseData id Map.empty [] True [ex_series] \<lparr>wr_Timeseries = [ex_series], wr_spare = [], wr_unrecognized = []\<rparr>) = [req'] \<and>
     pr_result (parseData id Map.empty [] True [ex_series] \<lparr>wr_Timeseries = [ex_series], wr_spare = [], wr_unrecognized = []\<rparr>) = (Some data, 1, None) \<and>
     (\<forall>s \<in> set (data_lookup data ''cpu''). \<forall>b. sl_base (si_samples s) = Some b \<longrightarrow> b \<notin> series_bases (wr_spare req'))"
proof -
  let ?req = "\<lparr>wr_Timeseries = [ex_series], wr_spare = [], wr_unrecognized = []\<rparr>"
  have ok: "list_all (\<lambda>t. series_error t = None) (filter nonempty [ex_series])"
    by (simp add: ex_series_info)
  have n: "sum_list (map (\<lambda>t. length (sl_elems (ts_Samples t))) [ex_series]) = 1" by (simp add: ex_series_def)
  obtain data where d: "pr_result (parseData id Map.empty [] True (wr_Timeseries ?req) ?req) = (Some data, 1, None)"
    using parseData_ok [OF coherent_env_id interner_inv_empty ok] n
    by (auto simp: parseData_def FinishWriteRequest_def Let_def)
  have disj: "series_bases (filter nonempty (wr_Timeseries ?req)) \<inter>
      series_bases (filter (\<lambda>t. \<not> nonempty t) (wr_Timeseries ?req) @ wr_spare ?req) = {}"
    by (simp add: ex_series_info series_bases_def)
  show ?thesis
    using recycled_request_no_alias [OF d coherent_env_id interner_inv_empty disj] d by auto
qed



end
