(* ===== verification/Clock_Cache.thy ===== *)
theory Clock_Cache
  imports Prom_Prelude
begin

text \<open>
  The CLOCK cache of \<open>pkg/clockcache/cache.go\<close>.  A pointer \<open>*element\<close> always points
  into the current \<open>storage\<close> array (an append happens only below the capacity, so the array is
  never reallocated except in \<open>ExpandTo\<close>, which rebuilds the pointers), hence it is
  modelled by its slot number; \<open>storage_cap\<close> is \<open>cap(storage)\<close>.

  \<open>Get\<close> runs under the read lock only, so it may set \<open>used\<close> markers while another goroutine
  is inside \<open>evict\<close>.  Every operation that can evict therefore takes a schedule of type
  \<open>marks\<close>: \<open>m t i\<close> says that slot \<open>i\<close> is marked by a concurrent \<open>Get\<close> just
  before the \<open>t\<close>-th atomic swap of that eviction.  \<open>quiet\<close> is the schedule without
  interference.
\<close>


section \<open>State\<close>

record ('k, 'v) element =
  elem_key :: 'k
  elem_value :: 'v
  elem_used :: "32 word"

record ('k, 'v) cache =
  elements :: "'k \<rightharpoonup> nat"
  storage :: "('k, 'v) element list"
  storage_cap :: nat
  next_loc :: nat

type_synonym marks = "nat \<Rightarrow> nat \<Rightarrow> bool"

definition quiet :: marks where
  "quiet = (\<lambda>_ _. False)"

definition WithMax :: "nat \<Rightarrow> ('k, 'v) cache" where
  "WithMax mx = \<lparr>elements = Map.empty, storage = [], storage_cap = mx, next_loc = 0\<rparr>"


section \<open>Operations\<close>

text \<open>What a concurrent \<open>Get\<close> does to the markers of the slots it hits.\<close>

definition mark_slots :: "(nat \<Rightarrow> bool) \<Rightarrow> ('k, 'v) element list \<Rightarrow> ('k, 'v) element list" where
  "mark_slots m st =
     map (\<lambda>(i, e). if m i \<and> elem_used e = 0 then e\<lparr>elem_used := 1\<rparr> else e) (enumerate 0 st)"

text \<open>
  One of the two walks of \<open>evict\<close>, over the slots of \<open>postStart\<close> or of \<open>preStart\<close>; \<open>n\<close> is the
  loop variable \<open>next\<close>, which counts from the start of that slice.
\<close>

fun evict_scan ::
  "marks \<Rightarrow> nat \<Rightarrow> ('k, 'v) element list \<Rightarrow> nat list \<Rightarrow> nat \<Rightarrow>
   ('k, 'v) element list \<times> nat \<times> (nat \<times> nat) option" where
  "evict_scan m t st [] n = (st, t, None)"
| "evict_scan m t st (s # ss) n =
     (let st1 = mark_slots (m t) st;
          old = elem_used (st1 ! s);
          st2 = st1[s := (st1 ! s)\<lparr>elem_used := 0\<rparr>]
      in if old = 0 then (st2, Suc t, Some (s, n)) else evict_scan m (Suc t) st2 ss (Suc n))"

fun evict_rounds ::
  "nat \<Rightarrow> marks \<Rightarrow> nat \<Rightarrow> ('k, 'v) element list \<Rightarrow> nat \<Rightarrow> nat \<Rightarrow>
   ('k, 'v) element list \<times> nat \<times> nat option" where
  "evict_rounds 0 m t st startLoc nx = (st, nx, None)"
| "evict_rounds (Suc i) m t st startLoc nx =
     (case evict_scan m t st [startLoc..<length st] 0 of
        (st1, t1, Some (s, n)) \<Rightarrow> (st1, Suc n, Some s)
      | (st1, t1, None) \<Rightarrow>
          (case evict_scan m t1 st1 [0..<startLoc] 0 of
             (st2, t2, Some (s, n)) \<Rightarrow> (st2, Suc n, Some s)
           | (st2, t2, None) \<Rightarrow> evict_rounds i m t2 st2 startLoc nx))"

text \<open>Slicing \<open>storage[startLoc:]\<close> panics when \<open>startLoc\<close> exceeds the length.\<close>

definition evict :: "marks \<Rightarrow> ('k, 'v) cache \<Rightarrow> (('k, 'v) cache \<times> nat option) outcome" where
  "evict m c =
     (if length (storage c) < next_loc c then Panic ''slice bounds out of range''
      else (case evict_rounds 2 m 0 (storage c) (next_loc c) (next_loc c) of
              (st, nx, slot) \<Rightarrow> Return (c\<lparr>storage := st, next_loc := nx\<rparr>, slot)))"

definition new_element :: "'k \<Rightarrow> 'v \<Rightarrow> ('k, 'v) element" where
  "new_element k v = \<lparr>elem_key = k, elem_value = v, elem_used = 0\<rparr>"

text \<open>The unexported \<open>insert\<close>.\<close>

definition cache_insert ::
  "marks \<Rightarrow> ('k, 'v) cache \<Rightarrow> 'k \<Rightarrow> 'v \<Rightarrow> (('k, 'v) cache \<times> 'k \<times> 'v \<times> bool) outcome" where
  "cache_insert m c k v =
     (case elements c k of
        Some s \<Rightarrow>
          (let e = storage c ! s;
               c' = (if elem_used e \<noteq> 0
                     then c\<lparr>storage := (storage c)[s := e\<lparr>elem_used := 1\<rparr>]\<rparr> else c)
           in Return (c', elem_key e, elem_value e, True))
      | None \<Rightarrow>
          (if storage_cap c \<le> length (storage c) then
             outcome_bind (evict m c) (\<lambda>(c', slot).
               case slot of
                 None \<Rightarrow> Return (c', k, v, False)
               | Some s \<Rightarrow>
                   Return (c'\<lparr>elements := (elements c')(elem_key (storage c' ! s) := None, k \<mapsto> s),
                              storage := (storage c')[s := new_element k v]\<rparr>, k, v, True))
           else
             Return (c\<lparr>elements := (elements c)(k \<mapsto> length (storage c)),
                       storage := storage c @ [new_element k v]\<rparr>, k, v, True)))"

definition Insert ::
  "marks \<Rightarrow> ('k, 'v) cache \<Rightarrow> 'k \<Rightarrow> 'v \<Rightarrow> (('k, 'v) cache \<times> 'v \<times> bool) outcome" where
  "Insert m c k v =
     outcome_bind (cache_insert m c k v) (\<lambda>(c', _, v', ok). Return (c', v', ok))"

text \<open>
  The loop of \<open>InsertBatch\<close>; \<open>m idx\<close> is the interference during the insertion of the
  element at \<open>idx\<close>.  The slices \<open>keys\<close> and \<open>values\<close> are overwritten in place, so the new
  slices are part of the result.
\<close>

function insert_batch_loop ::
  "(nat \<Rightarrow> marks) \<Rightarrow> nat \<Rightarrow> ('k, 'v) cache \<Rightarrow> 'k list \<Rightarrow> 'v list \<Rightarrow>
   (('k, 'v) cache \<times> 'k list \<times> 'v list \<times> nat) outcome" where
  "insert_batch_loop m idx c keys vals =
     (if idx < length keys then
        outcome_bind (cache_insert (m idx) c (keys ! idx) (vals ! idx)) (\<lambda>(c', k', v', inserted).
          if inserted then insert_batch_loop m (Suc idx) c' (keys[idx := k']) (vals[idx := v'])
          else Return (c', keys[idx := k'], vals[idx := v'], idx))
      else Return (c, keys, vals, length keys))"
  by pat_completeness auto
termination
  by (relation "measure (\<lambda>(m, idx, c, keys, vals). length keys - idx)") auto

declare insert_batch_loop.simps [simp del]

definition len_mismatch_msg :: "nat \<Rightarrow> nat \<Rightarrow> string" where
  "len_mismatch_msg nk nv = ''keys and values are not the same len. '' @ show_nat nk @ '' keys, ''
     @ show_nat nv @ '' values''"

definition InsertBatch ::
  "(nat \<Rightarrow> marks) \<Rightarrow> ('k, 'v) cache \<Rightarrow> 'k list \<Rightarrow> 'v list \<Rightarrow>
   (('k, 'v) cache \<times> 'k list \<times> 'v list \<times> nat) outcome" where
  "InsertBatch m c keys vals =
     (if length keys \<noteq> length vals then Panic (len_mismatch_msg (length keys) (length vals))
      else insert_batch_loop m 0 c keys vals)"

text \<open>The unexported \<open>get\<close>: a miss is \<open>None\<close>, a hit marks the element.\<close>

definition cache_get :: "('k, 'v) cache \<Rightarrow> 'k \<Rightarrow> ('k, 'v) cache \<times> 'v option" where
  "cache_get c k =
     (case elements c k of
        None \<Rightarrow> (c, None)
      | Some s \<Rightarrow>
          (let e = storage c ! s;
               c' = (if elem_used e = 0
                     then c\<lparr>storage := (storage c)[s := e\<lparr>elem_used := 1\<rparr>]\<rparr> else c)
           in (c', Some (elem_value e))))"

definition Get :: "('k, 'v) cache \<Rightarrow> 'k \<Rightarrow> ('k, 'v) cache \<times> 'v option" where
  "Get c k = cache_get c k"

text \<open>The parallel assignment \<open>keys[n], keys[idx] = keys[idx], keys[n]\<close>.\<close>

definition swap_keys :: "'k list \<Rightarrow> nat \<Rightarrow> nat \<Rightarrow> 'k list" where
  "swap_keys keys n idx = (let kn = keys ! n; ki = keys ! idx in (keys[n := ki])[idx := kn])"

function get_values_loop ::
  "('k, 'v) cache \<Rightarrow> 'k list \<Rightarrow> 'v list \<Rightarrow> nat \<Rightarrow> nat \<Rightarrow>
   ('k, 'v) cache \<times> 'k list \<times> 'v list \<times> nat" where
  "get_values_loop c keys vals idx n =
     (if idx < n then
        (case cache_get c (keys ! idx) of
           (c', None) \<Rightarrow>
             (if n = 0 then (c', keys, vals, 0)
              else get_values_loop c' (swap_keys keys (n - 1) idx) vals idx (n - 1))
         | (c', Some v) \<Rightarrow> get_values_loop c' keys (vals[idx := v]) (Suc idx) n)
      else (c, keys, vals, n))"
  by pat_completeness auto
termination
  by (relation "measure (\<lambda>(c, keys, vals, idx, n). n - idx)") auto

declare get_values_loop.simps [simp del]

definition GetValues ::
  "('k, 'v) cache \<Rightarrow> 'k list \<Rightarrow> 'v list \<Rightarrow>
   (('k, 'v) cache \<times> 'k list \<times> 'v list \<times> nat) outcome" where
  "GetValues c keys valuesOut =
     (if length keys \<noteq> length valuesOut
      then Panic (len_mismatch_msg (length keys) (length valuesOut))
      else Return (get_values_loop c keys valuesOut 0 (length keys)))"

definition unmark :: "('k, 'v) cache \<Rightarrow> 'k \<Rightarrow> ('k, 'v) cache \<times> bool" where
  "unmark c k =
     (case elements c k of
        None \<Rightarrow> (c, False)
      | Some s \<Rightarrow>
          (let e = storage c ! s
           in (if elem_used e \<noteq> 0
               then c\<lparr>storage := (storage c)[s := e\<lparr>elem_used := 0\<rparr>]\<rparr> else c, True)))"

definition index_elements :: "('k, 'v) element list \<Rightarrow> ('k \<rightharpoonup> nat)" where
  "index_elements st = fold (\<lambda>(i, e) m. m(elem_key e \<mapsto> i)) (enumerate 0 st) Map.empty"

definition ExpandTo :: "('k, 'v) cache \<Rightarrow> int \<Rightarrow> ('k, 'v) cache" where
  "ExpandTo c newMax =
     (if newMax \<le> int (storage_cap c) then c
      else c\<lparr>elements := index_elements (storage c), storage_cap := nat newMax\<rparr>)"

definition Len :: "('k, 'v) cache \<Rightarrow> nat" where
  "Len c = length (storage c)"

definition Cap :: "('k, 'v) cache \<Rightarrow> nat" where
  "Cap c = storage_cap c"


section \<open>The invariant and the abstraction\<close>

text \<open>The entries of a storage array, without the markers.\<close>

definition entries :: "('k, 'v) element list \<Rightarrow> ('k \<times> 'v) list" where
  "entries st = map (\<lambda>e. (elem_key e, elem_value e)) st"

definition marks_ok :: "('k, 'v) element list \<Rightarrow> bool" where
  "marks_ok st \<longleftrightarrow> (\<forall>e \<in> set st. elem_used e = 0 \<or> elem_used e = 1)"

text \<open>
  The map points exactly at the slots that hold its keys, the storage stays within its capacity,
  the clock hand stays within the storage, and a marker is 0 or 1.
\<close>

definition cache_inv :: "('k, 'v) cache \<Rightarrow> bool" where
  "cache_inv c \<longleftrightarrow>
     length (storage c) \<le> storage_cap c \<and> next_loc c \<le> length (storage c) \<and>
     (\<forall>k s. elements c k = Some s \<longleftrightarrow> s < length (storage c) \<and> elem_key (storage c ! s) = k) \<and>
     marks_ok (storage c)"

text \<open>The cache as the partial map it promises to be.\<close>

definition contents :: "('k, 'v) cache \<Rightarrow> 'k \<rightharpoonup> 'v" where
  "contents c k = map_option (\<lambda>s. elem_value (storage c ! s)) (elements c k)"

lemma length_entries [simp]: "length (entries st) = length st"
  by (simp add: entries_def)

lemma entries_nth: "s < length st \<Longrightarrow> entries st ! s = (elem_key (st ! s), elem_value (st ! s))"
  by (simp add: entries_def)

lemma entries_eqD:
  assumes "entries st' = entries st"
  shows "length st' = length st"
    and "s < length st \<Longrightarrow> elem_key (st' ! s) = elem_key (st ! s)"
    and "s < length st \<Longrightarrow> elem_value (st' ! s) = elem_value (st ! s)"
proof -
  show len: "length st' = length st" using assms length_entries by metis
  show "s < length st \<Longrightarrow> elem_key (st' ! s) = elem_key (st ! s)"
    using assms len by (metis entries_nth prod.inject)
  show "s < length st \<Longrightarrow> elem_value (st' ! s) = elem_value (st ! s)"
    using assms len by (metis entries_nth prod.inject)
qed

lemma length_mark_slots [simp]: "length (mark_slots m st) = length st"
  by (simp add: mark_slots_def)

lemma entries_mark_slots [simp]: "entries (mark_slots m st) = entries st"
  by (rule nth_equalityI) (auto simp: mark_slots_def entries_def nth_enumerate_eq)

lemma entries_update_used [simp]: "entries (st[s := (st ! s)\<lparr>elem_used := u\<rparr>]) = entries st"
proof (cases "s < length st")
  case True
  then show ?thesis by (intro nth_equalityI) (auto simp: entries_def nth_list_update)
qed (simp add: list_update_beyond)

lemma marks_ok_mark_slots: "marks_ok st \<Longrightarrow> marks_ok (mark_slots m st)"
  unfolding marks_ok_def mark_slots_def by (fastforce simp: in_set_enumerate_eq)

lemma marks_ok_update: "marks_ok st \<Longrightarrow> elem_used e = 0 \<or> elem_used e = 1 \<Longrightarrow> marks_ok (st[s := e])"
  using set_update_subset_insert by (fastforce simp: marks_ok_def)

lemmas storage_simps = marks_ok_mark_slots marks_ok_update


section \<open>Eviction\<close>

lemma evict_scan_frame:
  assumes "evict_scan m t st ss n = (st', t', r)"
  shows "entries st' = entries st \<and> (marks_ok st \<longrightarrow> marks_ok st') \<and> t' \<le> t + length ss"
  using assms
proof (induction ss arbitrary: t st n)
  case Nil
  then show ?case by simp
next
  case (Cons s ss)
  let ?st1 = "mark_slots (m t) st"
  let ?st2 = "?st1[s := (?st1 ! s)\<lparr>elem_used := 0\<rparr>]"
  have ok: "marks_ok st \<longrightarrow> marks_ok ?st2" by (simp add: storage_simps)
  show ?case
  proof (cases "elem_used (?st1 ! s) = 0")
    case True
    with Cons.prems ok show ?thesis by (auto simp: Let_def)
  next
    case False
    with Cons.prems have "evict_scan m (Suc t) ?st2 ss (Suc n) = (st', t', r)"
      by (simp add: Let_def)
    from Cons.IH [OF this] ok show ?thesis by auto
  qed
qed

lemma evict_scan_found:
  "evict_scan m t st ss n = (st', t', Some (s, i)) \<Longrightarrow> n \<le> i \<and> i < n + length ss \<and> s = ss ! (i - n)"
proof (induction ss arbitrary: t st n)
  case Nil
  then show ?case by simp
next
  case (Cons a ss)
  let ?st1 = "mark_slots (m t) st"
  let ?st2 = "?st1[a := (?st1 ! a)\<lparr>elem_used := 0\<rparr>]"
  show ?case
  proof (cases "elem_used (?st1 ! a) = 0")
    case True
    with Cons.prems show ?thesis by (auto simp: Let_def)
  next
    case False
    with Cons.prems have "evict_scan m (Suc t) ?st2 ss (Suc n) = (st', t', Some (s, i))"
      by (simp add: Let_def)
    from Cons.IH [OF this] show ?thesis by (auto simp: nth_Cons')
  qed
qed

lemma evict_rounds_frame:
  assumes "evict_rounds i m t st startLoc nx = (st', nx', r)"
    and "startLoc \<le> length st" and "nx \<le> length st"
  shows "entries st' = entries st \<and> (marks_ok st \<longrightarrow> marks_ok st') \<and> nx' \<le> length st \<and>
    (\<forall>s. r = Some s \<longrightarrow> s < length st)"
  using assms
proof (induction i arbitrary: t st)
  case 0
  then show ?case by simp
next
  case (Suc i)
  obtain st1 t1 r1 where s1: "evict_scan m t st [startLoc..<length st] 0 = (st1, t1, r1)"
    by (metis prod_cases3)
  obtain st2 t2 r2 where s2: "evict_scan m t1 st1 [0..<startLoc] 0 = (st2, t2, r2)"
    by (metis prod_cases3)
  note f1 = evict_scan_frame [OF s1] and f2 = evict_scan_frame [OF s2]
  have len: "length st1 = length st" "length st2 = length st"
    using f1 f2 entries_eqD(1) by metis+
  show ?case
  proof (cases r1)
    case (Some p)
    with s1 Suc.prems f1 show ?thesis
      by (cases p) (auto dest!: evict_scan_found)
  next
    case n1: None
    show ?thesis
    proof (cases r2)
      case (Some p)
      with s1 s2 n1 Suc.prems f1 f2 show ?thesis
        by (cases p) (auto dest!: evict_scan_found)
    next
      case None
      with s1 s2 n1 Suc.prems have "evict_rounds i m t2 st2 startLoc nx = (st', nx', r)"
        by simp
      from Suc.IH [OF this] Suc.prems f1 f2 len show ?thesis by auto
    qed
  qed
qed

lemma evict_frame:
  assumes "evict m c = Return (c', r)" and "next_loc c \<le> length (storage c)"
  shows "entries (storage c') = entries (storage c)" "elements c' = elements c"
    "storage_cap c' = storage_cap c" "marks_ok (storage c) \<Longrightarrow> marks_ok (storage c')"
    "next_loc c' \<le> length (storage c)" "r = Some s \<Longrightarrow> s < length (storage c)"
  using assms evict_rounds_frame [of 2 m 0 "storage c" "next_loc c" "next_loc c"]
  by (auto simp: evict_def split: prod.splits)

lemma evict_inv [inv_intros]:
  assumes "cache_inv c" and "evict m c = Return (c', r)"
  shows "cache_inv c'"
  using assms evict_frame [OF assms(2)] entries_eqD [of "storage c'" "storage c"]
  unfolding cache_inv_def by auto

lemma mark_slots_quiet [simp]: "mark_slots (quiet t) st = st"
  by (simp add: mark_slots_def quiet_def case_prod_unfold map_snd_enumerate)

lemma evict_scan_quiet_None:
  assumes "evict_scan quiet t st ss n = (st', t', None)" and "set ss \<subseteq> {..<length st}"
  shows "\<forall>s < length st. s \<in> set ss \<or> elem_used (st ! s) = 0 \<longrightarrow> elem_used (st' ! s) = 0"
  using assms
proof (induction ss arbitrary: t st n)
  case Nil
  then show ?case by simp
next
  case (Cons s ss)
  let ?st2 = "st[s := (st ! s)\<lparr>elem_used := 0\<rparr>]"
  from Cons.prems have "evict_scan quiet (Suc t) ?st2 ss (Suc n) = (st', t', None)"
    by (auto simp: Let_def split: if_splits)
  from Cons.IH [OF this] Cons.prems(2) show ?case
    by (auto simp: nth_list_update)
qed

lemma evict_scan_quiet_hit:
  "elem_used (st ! s) = 0 \<Longrightarrow> \<exists>st' t' i. evict_scan quiet t st (s # ss) n = (st', t', Some (s, i))"
  by (simp add: Let_def)

lemma evict_round_clean_found:
  assumes "\<forall>s < length st. elem_used (st ! s) = 0" and "startLoc \<le> length st" and "st \<noteq> []"
  shows "\<exists>st' nx' s. evict_rounds (Suc i) quiet t st startLoc nx = (st', nx', Some s)"
proof (cases "startLoc < length st")
  case True
  then have "[startLoc..<length st] = startLoc # [Suc startLoc..<length st]"
    by (simp add: upt_conv_Cons)
  with evict_scan_quiet_hit [of st startLoc t "[Suc startLoc..<length st]" 0] assms(1) True
  show ?thesis by auto
next
  case False
  with assms have start: "startLoc = length st" and "[0..<length st] = 0 # [1..<length st]"
    by (simp_all add: upt_conv_Cons)
  with evict_scan_quiet_hit [of st 0 t "[1..<length st]" 0] assms
  obtain st' t' n where "evict_scan quiet t st [0..<length st] 0 = (st', t', Some (0, n))" by auto
  with start show ?thesis by auto
qed

lemma evict_rounds_quiet_found:
  assumes "startLoc \<le> length st" and "st \<noteq> []"
  shows "\<exists>st' nx' s. evict_rounds 2 quiet t st startLoc nx = (st', nx', Some s)"
proof -
  obtain st1 t1 r1 where s1: "evict_scan quiet t st [startLoc..<length st] 0 = (st1, t1, r1)"
    by (metis prod_cases3)
  obtain st2 t2 r2 where s2: "evict_scan quiet t1 st1 [0..<startLoc] 0 = (st2, t2, r2)"
    by (metis prod_cases3)
  have len: "length st1 = length st" "length st2 = length st"
    using evict_scan_frame [OF s1] evict_scan_frame [OF s2] entries_eqD(1) by metis+
  show ?thesis
  proof (cases "r1 = None \<and> r2 = None")
    case True
    have "\<forall>s < length st. startLoc \<le> s \<longrightarrow> elem_used (st1 ! s) = 0"
      using evict_scan_quiet_None [of t st "[startLoc..<length st]" 0 st1 t1] s1 True
      by (auto simp: subset_iff)
    then have clean: "\<forall>s < length st2. elem_used (st2 ! s) = 0"
      using evict_scan_quiet_None [of t1 st1 "[0..<startLoc]" 0 st2 t2] s2 True len assms(1)
      by (auto simp: subset_iff not_le)
    have "evict_rounds 2 quiet t st startLoc nx = evict_rounds (Suc 0) quiet t2 st2 startLoc nx"
      using s1 s2 True by (subst numeral_2_eq_2, subst evict_rounds.simps(2)) simp
    then show ?thesis
      using evict_round_clean_found [OF clean, of startLoc 0 t2 nx] assms len
      by (metis length_0_conv)
  next
    case False
    have "evict_rounds 2 quiet t st startLoc nx = evict_rounds (Suc (Suc 0)) quiet t st startLoc nx"
      by (simp only: numeral_2_eq_2)
    with s1 s2 False show ?thesis
      by (subst (asm) evict_rounds.simps(2)) (cases r1; cases r2; auto)
  qed
qed

lemma evict_quiet_found:
  "next_loc c \<le> length (storage c) \<Longrightarrow> storage c \<noteq> [] \<Longrightarrow> \<exists>c' s. evict quiet c = Return (c', Some s)"
  using evict_rounds_quiet_found [of "next_loc c" "storage c" 0 "next_loc c"]
  by (auto simp: evict_def)

lemma cache_invD:
  assumes "cache_inv c"
  shows "elements c k = Some s \<longleftrightarrow> s < length (storage c) \<and> elem_key (storage c ! s) = k"
    and "next_loc c \<le> length (storage c)" and "length (storage c) \<le> storage_cap c"
    and "marks_ok (storage c)"
  using assms by (simp_all add: cache_inv_def)

lemma entries_append: "entries (st @ [e]) = entries st @ [(elem_key e, elem_value e)]"
  by (simp add: entries_def)

lemma contents_Some_iff:
  "cache_inv c \<Longrightarrow> contents c k = Some v \<longleftrightarrow> (k, v) \<in> set (entries (storage c))"
  by (fastforce simp: contents_def cache_invD entries_def in_set_conv_nth)

lemma contents_eqI:
  assumes "cache_inv c" and "\<And>k v. (k, v) \<in> set (entries (storage c)) \<longleftrightarrow> M k = Some v"
  shows "contents c = M"
proof
  fix k
  from assms show "contents c k = M k" by (metis contents_Some_iff not_Some_eq)
qed

lemma contents_cong:
  assumes "cache_inv c" and "cache_inv c'" and "entries (storage c') = entries (storage c)"
  shows "contents c' = contents c"
  using assms by (intro contents_eqI) (auto simp: contents_Some_iff)

lemma contents_elements: "contents c k = None \<longleftrightarrow> elements c k = None"
  by (simp add: contents_def)

lemma contents_None_keys:
  "cache_inv c \<Longrightarrow> contents c k = None \<longleftrightarrow> (\<forall>s < length (storage c). elem_key (storage c ! s) \<noteq> k)"
  by (metis cache_invD(1) contents_elements not_Some_eq)

lemma cache_insert_present:
  assumes "cache_inv c" and "contents c k = Some w"
  shows "cache_insert m c k v = Return (c, k, w, True)"
proof -
  from assms obtain s where s: "elements c k = Some s" "w = elem_value (storage c ! s)"
    by (auto simp: contents_def)
  with assms(1) have "s < length (storage c)" "elem_key (storage c ! s) = k"
    by (auto simp: cache_invD)
  moreover have "elem_used (storage c ! s) \<noteq> 0 \<Longrightarrow> (storage c ! s)\<lparr>elem_used := 1\<rparr> = storage c ! s"
    using cache_invD(4) [OF assms(1)] \<open>s < length (storage c)\<close>
    by (metis (full_types) element.surjective element.update_convs(3) marks_ok_def nth_mem)
  ultimately show ?thesis using s by (auto simp: cache_insert_def Let_def)
qed

lemma cache_insert_room:
  assumes "cache_inv c" and "contents c k = None" and "length (storage c) < storage_cap c"
    and "cache_insert m c k v = Return (c', k', v', ok)"
  shows "cache_inv c' \<and> k' = k \<and> v' = v \<and> ok \<and> contents c' = (contents c)(k \<mapsto> v)"
proof -
  from assms have eq: "c' = c\<lparr>elements := (elements c)(k \<mapsto> length (storage c)),
      storage := storage c @ [new_element k v]\<rparr>" "k' = k" "v' = v" ok
    by (auto simp: cache_insert_def contents_elements)
  have nokey: "s < length (storage c) \<Longrightarrow> elem_key (storage c ! s) \<noteq> k" for s
    using assms(1,2) by (simp add: contents_None_keys)
  have inv: "cache_inv c'"
    unfolding cache_inv_def eq(1) using assms(1,3) nokey
    by (auto simp: cache_inv_def marks_ok_def new_element_def nth_append less_Suc_eq)
  moreover have "contents c' = (contents c)(k \<mapsto> v)"
  proof (rule contents_eqI [OF inv])
    fix x w
    have "(k, w) \<notin> set (entries (storage c))"
      using assms(1,2) by (metis contents_Some_iff option.distinct(1))
    then show "(x, w) \<in> set (entries (storage c')) \<longleftrightarrow> ((contents c)(k \<mapsto> v)) x = Some w"
      using assms(1) by (auto simp: eq(1) entries_append new_element_def contents_Some_iff)
  qed
  ultimately show ?thesis using eq by simp
qed

lemma entries_update: "entries (st[s := e]) = (entries st)[s := (elem_key e, elem_value e)]"
  by (simp add: entries_def map_update)

text \<open>The step of \<open>insert\<close> that reuses the slot of an evicted element.\<close>

lemma reuse_slot:
  assumes inv: "cache_inv c" and s: "s < length (storage c)" and absent: "contents c k = None"
    and c': "c' = c\<lparr>elements := (elements c)(elem_key (storage c ! s) := None, k \<mapsto> s),
                    storage := (storage c)[s := new_element k v]\<rparr>"
  shows "cache_inv c'"
    and "contents c' = (contents c)(elem_key (storage c ! s) := None, k \<mapsto> v)"
proof -
  let ?old = "elem_key (storage c ! s)"
  have nokey: "x < length (storage c) \<Longrightarrow> elem_key (storage c ! x) \<noteq> k" for x
    using inv absent by (simp add: contents_None_keys)
  have uniq: "x < length (storage c) \<Longrightarrow> elem_key (storage c ! x) = ?old \<Longrightarrow> x = s" for x
    using inv s by (metis cache_invD(1) option.inject)
  have "marks_ok ((storage c)[s := new_element k v])"
    using cache_invD(4) [OF inv] by (rule marks_ok_update) (simp add: new_element_def)
  moreover have "elements c' x = Some i \<longleftrightarrow> i < length (storage c') \<and> elem_key (storage c' ! i) = x"
    for x i
    using nokey uniq s cache_invD(1) [OF inv]
    by (auto simp: c' new_element_def nth_list_update)
  ultimately show inv': "cache_inv c'"
    using cache_invD [OF inv] unfolding cache_inv_def by (simp add: c')
  show "contents c' = (contents c)(?old := None, k \<mapsto> v)"
  proof (rule contents_eqI [OF inv'])
    fix x w
    have "(x, w) \<in> set (entries (storage c')) \<longleftrightarrow>
        (x = k \<and> w = v) \<or> (\<exists>i < length (storage c). i \<noteq> s \<and> entries (storage c) ! i = (x, w))"
      using s by (auto simp: c' entries_update new_element_def in_set_conv_nth nth_list_update)
    also have "\<dots> \<longleftrightarrow> ((contents c)(?old := None, k \<mapsto> v)) x = Some w"
      using nokey uniq inv by (auto simp: contents_Some_iff in_set_conv_nth entries_nth)
    finally show "(x, w) \<in> set (entries (storage c')) \<longleftrightarrow>
        ((contents c)(?old := None, k \<mapsto> v)) x = Some w" .
  qed
qed

lemma cache_insert_full:
  assumes "cache_inv c" and "contents c k = None" and "storage_cap c \<le> length (storage c)"
    and "cache_insert m c k v = Return (c', k', v', ok)"
  shows "cache_inv c' \<and> k' = k \<and> v' = v \<and>
    (if ok then \<exists>victim \<in> dom (contents c). contents c' = (contents c)(victim := None, k \<mapsto> v)
     else contents c' = contents c)"
proof -
  from assms(4,2,3) obtain c1 r where ev: "evict m c = Return (c1, r)"
    by (cases "evict m c") (auto simp: cache_insert_def contents_elements)
  note fr = evict_frame [OF ev cache_invD(2) [OF assms(1)]]
  have inv1: "cache_inv c1" using assms(1) ev by (rule evict_inv)
  have same: "contents c1 = contents c" using assms(1) inv1 fr(1) by (rule contents_cong)
  show ?thesis
  proof (cases r)
    case None
    with assms ev inv1 same show ?thesis by (auto simp: cache_insert_def contents_elements)
  next
    case (Some s)
    then have s: "s < length (storage c1)" using fr(6) entries_eqD(1) [OF fr(1)] by simp
    define c2 where "c2 = c1\<lparr>elements := (elements c1)(elem_key (storage c1 ! s) := None, k \<mapsto> s),
      storage := (storage c1)[s := new_element k v]\<rparr>"
    from assms ev Some have eq: "c' = c2" "k' = k" "v' = v" ok
      by (auto simp: cache_insert_def contents_elements c2_def)
    have "elem_key (storage c1 ! s) \<in> dom (contents c)"
      using inv1 s unfolding same [symmetric] by (auto simp: contents_def cache_invD)
    with reuse_slot [OF inv1 s _ c2_def] assms(2) same eq show ?thesis by auto
  qed
qed

lemma cache_insert_spec:
  assumes "cache_inv c" and "cache_insert m c k v = Return (c', k', v', ok)"
  shows "cache_inv c'" and "k' = k"
    and "contents c k = Some w \<Longrightarrow> c' = c \<and> v' = w \<and> ok"
    and "contents c k = None \<Longrightarrow> v' = v \<and>
      (if ok then \<exists>victims \<subseteq> dom (contents c).
                    contents c' = (contents c |` (- victims))(k \<mapsto> v) \<and> card victims \<le> 1 \<and>
                    (length (storage c) < storage_cap c \<longrightarrow> victims = {})
       else contents c' = contents c)"
proof -
  have full: "contents c k = None \<Longrightarrow> storage_cap c \<le> length (storage c) \<Longrightarrow> ok \<Longrightarrow>
      \<exists>victims \<subseteq> dom (contents c).
        contents c' = (contents c |` (- victims))(k \<mapsto> v) \<and> card victims \<le> 1"
  proof -
    assume "contents c k = None" "storage_cap c \<le> length (storage c)" ok
    with cache_insert_full [OF assms(1) _ _ assms(2)] obtain victim where
      "victim \<in> dom (contents c)" "contents c' = (contents c)(victim := None, k \<mapsto> v)" by auto
    then show ?thesis
      by (intro exI [of _ "{victim}"]) (simp add: restrict_complement_singleton_eq)
  qed
  show "cache_inv c'" "k' = k"
    using assms cache_insert_present cache_insert_room cache_insert_full
    by (metis (no_types, lifting) not_less not_None_eq outcome.inject(2) prod.inject)+
  show "contents c k = Some w \<Longrightarrow> c' = c \<and> v' = w \<and> ok"
    using assms cache_insert_present by fastforce
  show "contents c k = None \<Longrightarrow> v' = v \<and>
      (if ok then \<exists>victims \<subseteq> dom (contents c).
                    contents c' = (contents c |` (- victims))(k \<mapsto> v) \<and> card victims \<le> 1 \<and>
                    (length (storage c) < storage_cap c \<longrightarrow> victims = {})
       else contents c' = contents c)"
  proof (cases "length (storage c) < storage_cap c")
    case True
    assume "contents c k = None"
    from cache_insert_room [OF assms(1) this True assms(2)] show ?thesis
      by (auto intro!: exI [of _ "{}"])
  next
    case False
    assume none: "contents c k = None"
    with False cache_insert_full [OF assms(1) none _ assms(2)] full show ?thesis by auto
  qed
qed

lemma cache_insert_returns:
  assumes "cache_inv c"
  obtains c' v' ok where "cache_insert m c k v = Return (c', k, v', ok)"
proof -
  have "\<exists>r. evict m c = Return r"
    using cache_invD(2) [OF assms] by (auto simp: evict_def not_less split: prod.split)
  then have "\<exists>r. cache_insert m c k v = Return r"
    by (auto simp: cache_insert_def Let_def split: option.splits prod.splits)
  then show thesis using cache_insert_spec(2) [OF assms] that by fastforce
qed

lemma cache_insert_quiet_ok:
  assumes "cache_inv c" and "0 < storage_cap c" and "cache_insert quiet c k v = Return (c', k', v', ok)"
  shows ok
proof (cases "contents c k = None \<and> storage_cap c \<le> length (storage c)")
  case True
  with assms(2) have "storage c \<noteq> []" by auto
  with evict_quiet_found [OF cache_invD(2) [OF assms(1)]] True assms(3) show ?thesis
    by (auto simp: cache_insert_def contents_elements)
next
  case False
  then show ?thesis
    using assms cache_insert_present cache_insert_room
    by (metis (no_types, lifting) not_less not_None_eq outcome.inject(2) prod.inject)
qed

lemma evict_cap: "evict m c = Return (c', r) \<Longrightarrow> storage_cap c' = storage_cap c"
  by (auto simp: evict_def split: prod.splits if_splits)

lemma cache_insert_cap:
  "cache_insert m c k v = Return (c', k', v', ok) \<Longrightarrow> storage_cap c' = storage_cap c"
  by (auto simp: cache_insert_def Let_def outcome_bind_Return_iff split: option.splits if_splits)
    (auto dest: evict_cap)

lemma Insert_iff:
  "Insert m c k v = Return (c', v', ok) \<longleftrightarrow> (\<exists>k'. cache_insert m c k v = Return (c', k', v', ok))"
  by (auto simp: Insert_def outcome_bind_Return_iff)

lemma cache_get_spec:
  assumes "cache_inv c" and "cache_get c k = (c', r)"
  shows "r = contents c k" "cache_inv c'" "contents c' = contents c"
    "storage_cap c' = storage_cap c" "length (storage c') = length (storage c)"
proof -
  show r: "r = contents c k"
    using assms(2) by (auto simp: cache_get_def contents_def Let_def split: option.splits)
  have c': "c' = c \<or> (\<exists>s. s < length (storage c) \<and>
      c' = c\<lparr>storage := (storage c)[s := (storage c ! s)\<lparr>elem_used := 1\<rparr>]\<rparr>)"
    using assms by (auto simp: cache_get_def Let_def cache_invD split: option.splits if_splits)
  then have ent: "entries (storage c') = entries (storage c)" by auto
  from c' show "storage_cap c' = storage_cap c" "length (storage c') = length (storage c)" by auto
  have el: "elements c' = elements c" "next_loc c' = next_loc c" using c' by auto
  have "marks_ok (storage c')"
    using c' cache_invD(4) [OF assms(1)] by (auto intro!: marks_ok_update)
  then show inv: "cache_inv c'"
    using cache_invD [OF assms(1)] el c' entries_eqD [OF ent] unfolding cache_inv_def by auto
  show "contents c' = contents c" using assms(1) inv ent by (rule contents_cong)
qed

section \<open>The cache interface\<close>

text \<open>
  What the clients of the cache rely on: an insertion never panics, leaves a present key alone and
  returns its canonical value, and adds nothing but the inserted pair (it may drop others); a
  lookup returns what the abstract map holds and changes no entry.  \<open>'m\<close> is the interference an
  insertion may see.
\<close>

locale kv_cache =
  fixes inv :: "'c \<Rightarrow> bool"
    and look :: "'c \<Rightarrow> 'k \<Rightarrow> 'v option"
    and ins :: "'m \<Rightarrow> 'c \<Rightarrow> 'k \<Rightarrow> 'v \<Rightarrow> ('c \<times> 'v \<times> bool) outcome"
    and get :: "'c \<Rightarrow> 'k \<Rightarrow> 'c \<times> 'v option"
  assumes ins_returns: "inv c \<Longrightarrow> \<exists>c' v' ok. ins m c k v = Return (c', v', ok)"
    and ins_inv: "inv c \<Longrightarrow> ins m c k v = Return (c', v', ok) \<Longrightarrow> inv c'"
    and ins_hit: "inv c \<Longrightarrow> look c k = Some w \<Longrightarrow> ins m c k v = Return (c, w, True)"
    and ins_miss: "inv c \<Longrightarrow> look c k = None \<Longrightarrow> ins m c k v = Return (c', v', ok) \<Longrightarrow> v' = v"
    and ins_sub: "inv c \<Longrightarrow> ins m c k v = Return (c', v', ok) \<Longrightarrow> look c' x = Some w \<Longrightarrow>
      look c x = Some w \<or> x = k \<and> w = v"
    and ins_ok: "inv c \<Longrightarrow> ins m c k v = Return (c', v', True) \<Longrightarrow> look c' k = Some v'"
    and get_look: "inv c \<Longrightarrow> snd (get c k) = look c k"
    and get_inv: "inv c \<Longrightarrow> inv (fst (get c k))"
    and get_frame: "inv c \<Longrightarrow> look (fst (get c k)) = look c"
begin

lemma ins_coherent:
  assumes "inv c" and "look c \<subseteq>\<^sub>m f" and "f k = Some v" and "ins m c k v = Return (c', v', ok)"
  shows "inv c' \<and> look c' \<subseteq>\<^sub>m f \<and> v' = v"
proof -
  have "look c' \<subseteq>\<^sub>m f"
    using assms ins_sub by (fastforce simp: map_le_def dom_def)
  moreover have "v' = v"
  proof (cases "look c k")
    case None
    with assms(1,4) show ?thesis by (simp add: ins_miss)
  next
    case (Some w)
    then have "w = v" using assms(2,3) by (force simp: map_le_def)
    with ins_hit [OF assms(1) Some] assms(4) show ?thesis by simp
  qed
  ultimately show ?thesis using ins_inv [OF assms(1,4)] by simp
qed

lemma get_coherent:
  assumes "inv c" and "look c \<subseteq>\<^sub>m f" and "get c k = (c', r)"
  shows "inv c' \<and> look c' \<subseteq>\<^sub>m f \<and> (\<forall>v. r = Some v \<longrightarrow> f k = Some v)"
  using assms get_look [OF assms(1), of k] get_inv [OF assms(1), of k] get_frame [OF assms(1), of k]
  by (force simp: map_le_def)

end

interpretation clock: kv_cache cache_inv contents Insert Get
proof
  fix c :: "('k, 'v) cache" and m k v
  assume inv: "cache_inv c"
  from cache_insert_returns [OF inv, of m k v]
  show "\<exists>c' v' ok. Insert m c k v = Return (c', v', ok)" by (metis Insert_iff)
  show "snd (Get c k) = contents c k"
    using cache_get_spec(1) [OF inv] by (metis Get_def prod.collapse)
  show "cache_inv (fst (Get c k))"
    using cache_get_spec(2) [OF inv] by (metis Get_def prod.collapse)
  show "contents (fst (Get c k)) = contents c"
    using cache_get_spec(3) [OF inv] by (metis Get_def prod.collapse)
  show "Insert m c k v = Return (c, w, True)" if "contents c k = Some w" for w
    using cache_insert_present [OF inv that] by (auto simp: Insert_iff)
  fix c' v' ok
  assume ins: "Insert m c k v = Return (c', v', ok)"
  then obtain k' where r: "cache_insert m c k v = Return (c', k', v', ok)" by (auto simp: Insert_iff)
  note spec = cache_insert_spec [OF inv r]
  show "cache_inv c'" by (rule spec(1))
  show "v' = v" if "contents c k = None" using spec(4) that by blast
  show "contents c x = Some w \<or> x = k \<and> w = v" if "contents c' x = Some w" for x w
    using spec(3,4) that
    by (cases "contents c k"; cases ok) (auto simp: restrict_map_def split: if_splits)
next
  fix c :: "('k, 'v) cache" and m k v c' v'
  assume inv: "cache_inv c" and "Insert m c k v = Return (c', v', True)"
  then obtain k' where "cache_insert m c k v = Return (c', k', v', True)" by (auto simp: Insert_iff)
  note spec = cache_insert_spec [OF inv this]
  show "contents c' k = Some v'" using spec(3,4) by (cases "contents c k") auto
qed

section \<open>Batches\<close>

lemma mset_swap_keys: "i < length xs \<Longrightarrow> j < length xs \<Longrightarrow> mset (swap_keys xs i j) = mset xs"
  by (simp add: swap_keys_def Let_def mset_swap)

lemma length_swap_keys [simp]: "length (swap_keys xs i j) = length xs"
  by (simp add: swap_keys_def Let_def)

lemma swap_keys_nth:
  "i < length xs \<Longrightarrow> j < length xs \<Longrightarrow> swap_keys xs i j ! x = (if x = j then xs ! i else if x = i then xs ! j else xs ! x)"
  by (simp add: swap_keys_def Let_def nth_list_update)

lemma get_values_loop_spec:
  assumes "get_values_loop c keys vals idx n = (c', keys', vals', n')"
    and "cache_inv c" and "idx \<le> n" and "n \<le> length keys" and "length vals = length keys"
    and "\<forall>i < idx. contents c (keys ! i) = Some (vals ! i)"
    and "\<forall>i < length keys. n \<le> i \<longrightarrow> contents c (keys ! i) = None"
  shows "cache_inv c' \<and> contents c' = contents c \<and> mset keys' = mset keys \<and>
    length vals' = length keys \<and> n' \<le> length keys \<and>
    (\<forall>i < n'. contents c (keys' ! i) = Some (vals' ! i)) \<and>
    (\<forall>i < length keys. n' \<le> i \<longrightarrow> contents c (keys' ! i) = None)"
  using assms
proof (induction c keys vals idx n rule: get_values_loop.induct)
  case (1 c keys vals idx n)
  show ?case
  proof (cases "idx < n")
    case False
    with "1.prems"(1) have "(c, keys, vals, n) = (c', keys', vals', n')"
      by (subst (asm) get_values_loop.simps) simp
    with False "1.prems" show ?thesis by auto
  next
    case True
    obtain c1 r where g: "cache_get c (keys ! idx) = (c1, r)" by force
    note gs = cache_get_spec [OF "1.prems"(2) g]
    show ?thesis
    proof (cases r)
      case None
      let ?keys = "swap_keys keys (n - 1) idx"
      have "get_values_loop c1 ?keys vals idx (n - 1) = (c', keys', vals', n')"
        using "1.prems"(1) True g None by (subst (asm) get_values_loop.simps) simp
      moreover have "\<forall>i < idx. contents c1 (?keys ! i) = Some (vals ! i)"
        using "1.prems" True gs(3) by (auto simp: swap_keys_nth)
      moreover have "\<forall>i < length ?keys. n - 1 \<le> i \<longrightarrow> contents c1 (?keys ! i) = None"
        using "1.prems" True gs(1,3) None by (auto simp: swap_keys_nth)
      moreover have "mset ?keys = mset keys"
        using "1.prems"(4) True by (intro mset_swap_keys) auto
      ultimately show ?thesis
        using "1.IH"(1) [OF True g [symmetric] None] "1.prems" True gs by simp
    next
      case (Some v)
      let ?vals = "vals[idx := v]"
      have "get_values_loop c1 keys ?vals (Suc idx) n = (c', keys', vals', n')"
        using "1.prems"(1) True g Some by (subst (asm) get_values_loop.simps) simp
      moreover have "\<forall>i < Suc idx. contents c1 (keys ! i) = Some (?vals ! i)"
        using "1.prems" True gs(1,3) Some by (auto simp: less_Suc_eq nth_list_update)
      ultimately show ?thesis
        using "1.IH"(2) [OF True g [symmetric] Some] "1.prems" True gs by simp
    qed
  qed
qed

text \<open>
  The state between two insertions of a batch: the first \<open>idx\<close> values have been replaced by
  canonical ones, the rest are the caller's.
\<close>

lemma insert_batch_loop_spec:
  assumes "cache_inv c" and "idx \<le> length keys" and "length vals = length keys"
  shows "\<exists>c' vals' n. insert_batch_loop m idx c keys vals = Return (c', keys, vals', n) \<and>
    cache_inv c' \<and> storage_cap c' = storage_cap c \<and> idx \<le> n \<and> n \<le> length keys \<and>
    length vals' = length keys \<and>
    (\<forall>f. contents c \<subseteq>\<^sub>m f \<longrightarrow> (\<forall>i < length keys. idx \<le> i \<longrightarrow> f (keys ! i) = Some (vals ! i)) \<longrightarrow>
       contents c' \<subseteq>\<^sub>m f \<and> vals' = vals) \<and>
    (0 < storage_cap c \<longrightarrow> (\<forall>i. m i = quiet) \<longrightarrow> n = length keys)"
  using assms
proof (induction m idx c keys vals rule: insert_batch_loop.induct)
  case (1 m idx c keys vals)
  show ?case
  proof (cases "idx < length keys")
    case False
    with "1.prems" show ?thesis by (subst insert_batch_loop.simps) simp
  next
    case True
    obtain c1 v1 ok where i:
      "cache_insert (m idx) c (keys ! idx) (vals ! idx) = Return (c1, keys ! idx, v1, ok)"
      using cache_insert_returns [OF "1.prems"(1)] by metis
    have inv1: "cache_inv c1" using cache_insert_spec(1) [OF "1.prems"(1) i] .
    have cap1: "storage_cap c1 = storage_cap c" using cache_insert_cap [OF i] .
    have coh: "contents c1 \<subseteq>\<^sub>m f \<and> v1 = vals ! idx"
      if "contents c \<subseteq>\<^sub>m f" "f (keys ! idx) = Some (vals ! idx)" for f
      using clock.ins_coherent [OF "1.prems"(1) that] i unfolding Insert_iff by blast
    let ?vals = "vals[idx := v1]"
    show ?thesis
    proof (cases ok)
      case False
      have "\<not> (0 < storage_cap c \<and> m idx = quiet)"
        using cache_insert_quiet_ok [OF "1.prems"(1)] i False by fastforce
      then show ?thesis
        using True i False inv1 cap1 coh "1.prems"
        by (subst insert_batch_loop.simps) (auto simp: list_update_same_conv)
    next
      case ok: True
      from "1.IH" [OF True, where x = c1 and xa = "keys ! idx" and xb = v1 and xc = ok]
        ok inv1 "1.prems" True
      obtain c' vals' n where rec:
        "insert_batch_loop m (Suc idx) c1 keys ?vals = Return (c', keys, vals', n)"
        "cache_inv c'" "storage_cap c' = storage_cap c1" "Suc idx \<le> n" "n \<le> length keys"
        "length vals' = length keys"
        "\<forall>f. contents c1 \<subseteq>\<^sub>m f \<longrightarrow>
           (\<forall>i < length keys. Suc idx \<le> i \<longrightarrow> f (keys ! i) = Some (?vals ! i)) \<longrightarrow>
           contents c' \<subseteq>\<^sub>m f \<and> vals' = ?vals"
        "0 < storage_cap c1 \<longrightarrow> (\<forall>i. m i = quiet) \<longrightarrow> n = length keys"
        by auto
      have "insert_batch_loop m idx c keys vals = Return (c', keys, vals', n)"
        using True i ok rec(1) by (subst insert_batch_loop.simps) simp
      moreover have "contents c' \<subseteq>\<^sub>m f \<and> vals' = vals"
        if "contents c \<subseteq>\<^sub>m f" "\<forall>i < length keys. idx \<le> i \<longrightarrow> f (keys ! i) = Some (vals ! i)" for f
      proof -
        from coh [OF that(1)] that(2) True have c1: "contents c1 \<subseteq>\<^sub>m f" and v1: "v1 = vals ! idx" by auto
        from v1 have same: "?vals = vals" by simp
        from rec(7) c1 that(2) show ?thesis unfolding same by auto
      qed
      ultimately show ?thesis using rec cap1 by simp
    qed
  qed
qed

section \<open>Growing the cache, and every reachable cache\<close>

lemma index_elements_snoc:
  "index_elements (st @ [e]) = (index_elements st)(elem_key e \<mapsto> length st)"
  by (simp add: index_elements_def enumerate_append_eq)

lemma index_elements_iff:
  assumes "distinct (map elem_key st)"
  shows "index_elements st k = Some s \<longleftrightarrow> s < length st \<and> elem_key (st ! s) = k"
  using assms
proof (induction st rule: rev_induct)
  case Nil
  then show ?case by (simp add: index_elements_def)
next
  case (snoc e st)
  have "s < length st \<Longrightarrow> elem_key (st ! s) \<noteq> elem_key e"
    using snoc.prems by (auto simp: image_iff) (metis nth_mem)
  with snoc show ?case
    by (auto simp: index_elements_snoc nth_append less_Suc_eq)
qed

lemma cache_inv_distinct: "cache_inv c \<Longrightarrow> distinct (map elem_key (storage c))"
  by (auto simp: distinct_conv_nth) (metis cache_invD(1) option.inject)

lemma ExpandTo_spec:
  assumes "cache_inv c"
  shows "cache_inv (ExpandTo c newMax)" "contents (ExpandTo c newMax) = contents c"
    "int (storage_cap (ExpandTo c newMax)) = max newMax (int (storage_cap c))"
proof -
  show inv: "cache_inv (ExpandTo c newMax)"
    using assms index_elements_iff [OF cache_inv_distinct [OF assms]]
    by (auto simp: ExpandTo_def cache_inv_def)
  show "contents (ExpandTo c newMax) = contents c"
    using assms inv by (rule contents_cong) (simp add: ExpandTo_def)
  show "int (storage_cap (ExpandTo c newMax)) = max newMax (int (storage_cap c))"
    by (simp add: ExpandTo_def)
qed

lemma unmark_inv: "cache_inv c \<Longrightarrow> unmark c k = (c', b) \<Longrightarrow> cache_inv c'"
  by (auto simp: unmark_def Let_def cache_inv_def nth_list_update
      intro!: marks_ok_update split: option.splits if_splits)

lemma WithMax_inv: "cache_inv (WithMax mx)"
  by (simp add: cache_inv_def WithMax_def marks_ok_def)

text \<open>The caches a program can build through the package's operations.\<close>

inductive cache_reach :: "('k, 'v) cache \<Rightarrow> bool" where
  new: "cache_reach (WithMax mx)"
| insert: "cache_reach c \<Longrightarrow> Insert m c k v = Return (c', v', ok) \<Longrightarrow> cache_reach c'"
| insert_batch: "cache_reach c \<Longrightarrow> InsertBatch ms c ks vs = Return (c', ks', vs', n) \<Longrightarrow> cache_reach c'"
| get: "cache_reach c \<Longrightarrow> Get c k = (c', r) \<Longrightarrow> cache_reach c'"
| get_values: "cache_reach c \<Longrightarrow> GetValues c ks vs = Return (c', ks', vs', n) \<Longrightarrow> cache_reach c'"
| unmark: "cache_reach c \<Longrightarrow> unmark c k = (c', b) \<Longrightarrow> cache_reach c'"
| expand: "cache_reach c \<Longrightarrow> cache_reach (ExpandTo c newMax)"

lemma InsertBatch_spec:
  assumes "cache_inv c" and "length keys = length vals"
  shows "\<exists>c' vals' n. InsertBatch m c keys vals = Return (c', keys, vals', n) \<and>
    cache_inv c' \<and> storage_cap c' = storage_cap c \<and> n \<le> length keys \<and> length vals' = length keys \<and>
    (\<forall>f. contents c \<subseteq>\<^sub>m f \<longrightarrow> (\<forall>i < length keys. f (keys ! i) = Some (vals ! i)) \<longrightarrow>
       contents c' \<subseteq>\<^sub>m f \<and> vals' = vals) \<and>
    (0 < storage_cap c \<longrightarrow> (\<forall>i. m i = quiet) \<longrightarrow> n = length keys)"
proof -
  have loop: "InsertBatch m c keys vals = insert_batch_loop m 0 c keys vals"
    by (simp add: InsertBatch_def assms(2))
  show ?thesis
    unfolding loop using insert_batch_loop_spec [OF assms(1) le0 assms(2) [symmetric], of m]
    by (simp only: le0 simp_thms if_True)
qed

lemma GetValues_spec:
  assumes "cache_inv c" and "GetValues c keys vals = Return (c', keys', vals', n)"
  shows "cache_inv c'" "contents c' = contents c" "mset keys' = mset keys" "length vals' = length keys"
    "n \<le> length keys" "\<forall>i < n. contents c (keys' ! i) = Some (vals' ! i)"
    "\<forall>i < length keys. n \<le> i \<longrightarrow> contents c (keys' ! i) = None"
proof -
  have len: "length vals = length keys"
    and run: "get_values_loop c keys vals 0 (length keys) = (c', keys', vals', n)"
    using assms(2) by (simp_all add: GetValues_def split: if_splits)
  note spec = get_values_loop_spec [OF run assms(1) le0 le_refl len, simplified]
  from spec show "cache_inv c'" "contents c' = contents c" "mset keys' = mset keys"
    "length vals' = length keys" "n \<le> length keys"
    "\<forall>i < n. contents c (keys' ! i) = Some (vals' ! i)"
    "\<forall>i < length keys. n \<le> i \<longrightarrow> contents c (keys' ! i) = None" by blast+
qed

lemma cache_reach_inv: "cache_reach c \<Longrightarrow> cache_inv c"
proof (induction rule: cache_reach.induct)
  case (insert_batch c ms ks vs c' ks' vs' n)
  then show ?case
    using InsertBatch_spec [of c ks vs ms] by (cases "length ks = length vs") (auto simp: InsertBatch_def)
next
  case (get c k c' r)
  then show ?case by (auto simp: Get_def dest: cache_get_spec(2))
qed (auto intro: WithMax_inv unmark_inv ExpandTo_spec clock.ins_inv GetValues_spec)

lemma evict_rounds_hand:
  assumes "evict_rounds i m t st startLoc nx = (st', nx', Some s)" and "startLoc \<le> length st"
  shows "nx' = (if startLoc \<le> s then Suc (s - startLoc) else Suc s)"
  using assms
proof (induction i arbitrary: t st)
  case 0
  then show ?case by simp
next
  case (Suc i)
  obtain st1 t1 r1 where s1: "evict_scan m t st [startLoc..<length st] 0 = (st1, t1, r1)"
    by (metis prod_cases3)
  obtain st2 t2 r2 where s2: "evict_scan m t1 st1 [0..<startLoc] 0 = (st2, t2, r2)"
    by (metis prod_cases3)
  have len: "length st2 = length st"
    using evict_scan_frame [OF s1] evict_scan_frame [OF s2] entries_eqD(1) by metis
  show ?case
  proof (cases "r1 = None \<and> r2 = None")
    case True
    with s1 s2 Suc.prems have "evict_rounds i m t2 st2 startLoc nx = (st', nx', Some s)" by simp
    with Suc.IH Suc.prems(2) len show ?thesis by simp
  next
    case False
    with s1 s2 Suc.prems show ?thesis
      by (cases r1; cases r2) (auto dest!: evict_scan_found)
  qed
qed

section \<open>Properties\<close>

text \<open>
  C9: in every state that the operations of the cache package can reach, under every interference
  of concurrent gets, the map points exactly at the slots that hold its keys, the storage stays
  within its capacity and the clock hand stays within the storage.
\<close>
theorem clock_reachable_inv: "cache_reach c \<Longrightarrow> cache_inv c"
  by (rule cache_reach_inv)

theorem clock_reachable_inv_witness:
  "cache_reach (ExpandTo (fst (Get (WithMax 2 :: (nat, nat) cache) 7)) 5) \<and>
   cache_inv (ExpandTo (fst (Get (WithMax 2 :: (nat, nat) cache) 7)) 5)"
proof -
  have r: "cache_reach (ExpandTo (fst (Get (WithMax 2 :: (nat, nat) cache) 7)) 5)"
    by (rule cache_reach.expand, rule cache_reach.get [OF cache_reach.new], rule prod.collapse [symmetric])
  then show ?thesis using clock_reachable_inv by blast
qed

text \<open>
  C10: an insertion refines the insertion into a partial map.  A key that is present keeps its
  canonical value, which is returned, and the cache is left exactly as it was (marker included, so
  the double insert is not counted as a use).  An absent key is added, at the price of at most
  one victim and of none while there is room; when the insertion is refused nothing changes.
\<close>
theorem clock_insert_refines:
  assumes "cache_inv c" and "Insert m c k v = Return (c', v', ok)"
  shows "case contents c k of
      Some w \<Rightarrow> c' = c \<and> v' = w \<and> ok
    | None \<Rightarrow> v' = v \<and>
        (if ok then \<exists>victims \<subseteq> dom (contents c). card victims \<le> 1 \<and>
             contents c' = (contents c |` (- victims))(k \<mapsto> v) \<and>
             (Len c < Cap c \<longrightarrow> victims = {})
         else contents c' = contents c)"
proof -
  from assms(2) obtain k' where r: "cache_insert m c k v = Return (c', k', v', ok)"
    by (auto simp: Insert_iff)
  note spec = cache_insert_spec [OF assms(1) r]
  show ?thesis
  proof (cases "contents c k")
    case None
    from spec(4) [OF None] show ?thesis
      unfolding Len_def Cap_def None option.case by (auto split: if_splits)
  next
    case (Some w)
    with spec(3) show ?thesis by simp
  qed
qed

theorem clock_insert_refines_witness:
  "\<exists>c'. Insert quiet (WithMax 1) (5 :: nat) (7 :: nat) = Return (c', 7, True) \<and> contents c' 5 = Some 7"
proof -
  obtain c' v' ok where r: "Insert quiet (WithMax 1) (5 :: nat) (7 :: nat) = Return (c', v', ok)"
    using clock.ins_returns [OF WithMax_inv, of quiet 1 5 7] by blast
  have empty: "contents (WithMax 1) (5 :: nat) = (None :: nat option)"
    by (simp add: contents_def WithMax_def)
  have ok using r by (simp add: Insert_def cache_insert_def WithMax_def)
  with clock_insert_refines [OF WithMax_inv r] empty r show ?thesis by auto
qed

text \<open>
  C22: a batch insertion with as many values as keys never panics and keeps the invariant; if the
  cache and the batch agree with one function \<open>f\<close> then so does the result, and the values handed
  back are unchanged; and without concurrent gets a cache of positive capacity inserts every
  element of the batch (it never starves).
\<close>
theorem clock_batch_complete:
  assumes "cache_inv c" and "length keys = length vals"
  shows "\<exists>c' vals' n. InsertBatch m c keys vals = Return (c', keys, vals', n) \<and> cache_inv c' \<and>
    n \<le> length keys \<and>
    (\<forall>f. contents c \<subseteq>\<^sub>m f \<longrightarrow> (\<forall>i < length keys. f (keys ! i) = Some (vals ! i)) \<longrightarrow>
       contents c' \<subseteq>\<^sub>m f \<and> vals' = vals) \<and>
    (0 < Cap c \<longrightarrow> (\<forall>i. m i = quiet) \<longrightarrow> n = length keys)"
  using InsertBatch_spec [OF assms, of m] unfolding Cap_def
  by (elim exE conjE) (intro exI conjI, assumption+)

theorem clock_batch_complete_witness:
  "\<exists>c' vals'. InsertBatch (\<lambda>_. quiet) (WithMax 1) [1, 2 :: nat] [10, 20 :: nat] =
     Return (c', [1, 2], vals', 2)"
proof -
  have cap: "0 < Cap (WithMax 1 :: (nat, nat) cache)" by (simp add: Cap_def WithMax_def)
  obtain c' vals' n where
    "InsertBatch (\<lambda>_. quiet) (WithMax 1) [1, 2 :: nat] [10, 20 :: nat] = Return (c', [1, 2], vals', n)"
    "n = length [1, 2 :: nat]"
    using clock_batch_complete [OF WithMax_inv [of 1], of "[1, 2 :: nat]" "[10, 20 :: nat]" "\<lambda>_. quiet"] cap
    by (metis length_Cons list.size(3))
  then show ?thesis by auto
qed

text \<open>
  \<open>GetValues\<close> permutes the keys so that the first \<open>n\<close> are exactly cached ones, each with its
  cached value at the same position, and all the others are absent; it changes no entry.
\<close>
theorem clock_get_values_partition:
  assumes "cache_inv c" and "GetValues c keys vals = Return (c', keys', vals', n)"
  shows "mset keys' = mset keys \<and> length vals' = length keys \<and> n \<le> length keys \<and>
    (\<forall>i < n. contents c (keys' ! i) = Some (vals' ! i)) \<and>
    (\<forall>i < length keys. n \<le> i \<longrightarrow> contents c (keys' ! i) = None) \<and>
    contents c' = contents c"
  using GetValues_spec [OF assms] by blast

theorem clock_get_values_partition_witness:
  "\<exists>c' keys' vals' n. GetValues (WithMax 1 :: (nat, nat) cache) [3, 4] [0, 0] = Return (c', keys', vals', n)
     \<and> mset keys' = {#3, 4#} \<and> n = 0"
proof -
  let ?c = "WithMax 1 :: (nat, nat) cache"
  obtain c' keys' vals' n where r: "GetValues ?c [3, 4] [0, 0] = Return (c', keys', vals', n)"
    by (cases "get_values_loop ?c [3, 4] [0, 0] 0 (length [3, 4 :: nat])") (auto simp: GetValues_def)
  have "contents ?c x = None" for x by (simp add: contents_def WithMax_def)
  note empty = this
  note part = clock_get_values_partition [OF WithMax_inv r]
  have "mset keys' = {#3, 4#}" using part by simp
  moreover have "n = 0"
  proof (rule ccontr)
    assume "n \<noteq> 0"
    then have "contents ?c (keys' ! 0) = Some (vals' ! 0)" using part by blast
    with empty show False by simp
  qed
  ultimately show ?thesis using r by blast
qed

text \<open>
  C40: where the clock hand stops.  After the eviction of slot \<open>s\<close> the hand is at \<open>s + 1\<close> when the
  victim was found before the old hand, but at \<open>s + 1 - next\<close> when it was found behind it: the
  loop variable of the first walk counts from the start of the slice, not of the storage, so
  the hand moves back to the front instead of resuming after the place where the evictor stopped.
\<close>
theorem clock_evict_hand:
  assumes "next_loc c \<le> length (storage c)" and "evict m c = Return (c', Some s)"
  shows "next_loc c' = (if next_loc c \<le> s then s + 1 - next_loc c else s + 1)"
  using assms evict_rounds_hand [of 2 m 0 "storage c" "next_loc c" "next_loc c" _ _ s]
  by (auto simp: evict_def Suc_diff_le split: prod.splits if_splits)

theorem clock_evict_hand_witness:
  "\<exists>c'. evict quiet \<lparr>elements = Map.empty, storage = map (\<lambda>i. new_element i i) [0, 1, 2 :: nat],
            storage_cap = 3, next_loc = 2\<rparr> = Return (c', Some 2) \<and> next_loc c' = 1"
proof -
  let ?c = "\<lparr>elements = Map.empty, storage = map (\<lambda>i. new_element i i) [0, 1, 2 :: nat],
            storage_cap = 3, next_loc = 2\<rparr>"
  have hand: "next_loc ?c \<le> length (storage ?c)" by simp
  have "[2..<3 :: nat] = [2]" by (simp add: upt_rec)
  then have "\<exists>c'. evict quiet ?c = Return (c', Some 2)"
    by (simp add: evict_def numeral_2_eq_2 numeral_3_eq_3 new_element_def Let_def)
  then obtain c' where r: "evict quiet ?c = Return (c', Some 2)" by blast
  with clock_evict_hand [OF hand r] show ?thesis by auto
qed

end
