(* ===== verification/Metric_Cache.thy ===== *)
theory Metric_Cache
  imports Clock_Cache
begin

text \<open>
  The metric name cache of \<open>pkg/pgmodel/cache.go\<close>, the interface \<open>MetricCache\<close> of
  \<open>sql_utils.go\<close> as a locale, and its three clients: \<open>getMetricTableName\<close> of
  \<open>sql_utils.go\<close>, of the inserter (\<open>sql_ingest.go\<close>) and of the querier (\<open>sql_reader.go\<close>).

  PostgreSQL is not part of the repository: a query is a parameter that returns an error or a
  \<open>rows\<close> value, the rows that \<open>Next\<close> will deliver (each with the outcome of its \<open>Scan\<close>)
  and the error that \<open>Err\<close> reports after the last one.
\<close>

section \<open>Query results\<close>

record 'r rows =
  row_scans :: "'r result list"
  rows_err :: "go_error option"


section \<open>The metric name cache\<close>

type_synonym metric_name_cache = "(string, string) cache"

definition mnc_Get :: "metric_name_cache \<Rightarrow> string \<Rightarrow> metric_name_cache \<times> string result" where
  "mnc_Get c metric =
     (case Get c metric of
        (c', None) \<Rightarrow> (c', Inl ErrEntryNotFound)
      | (c', Some tableName) \<Rightarrow> (c', Inr tableName))"

text \<open>\<open>Set\<close> copies both strings, inserts them and ignores the result: it always returns nil.\<close>

definition mnc_Set ::
  "marks \<Rightarrow> metric_name_cache \<Rightarrow> string \<Rightarrow> string \<Rightarrow> (metric_name_cache \<times> go_error option) outcome" where
  "mnc_Set m c metric tableName =
     outcome_bind (Insert m c metric tableName) (\<lambda>(c', _, _). Return (c', None))"

definition mnc_NumElements :: "metric_name_cache \<Rightarrow> nat" where
  "mnc_NumElements c = Len c"

definition mnc_Capacity :: "metric_name_cache \<Rightarrow> nat" where
  "mnc_Capacity c = Cap c"

definition DefaultMetricCacheSize :: nat where
  "DefaultMetricCacheSize = 10000"


section \<open>The clients\<close>

text \<open>
  The lookup of a table name through a metric cache, shared by the inserter and the querier:
  \<open>mget\<close> and \<open>mput\<close> are the operations of the \<open>MetricCache\<close> interface, \<open>query\<close> asks
  the database on a miss.
\<close>

type_synonym 'c mget = "'c \<Rightarrow> string \<Rightarrow> 'c \<times> string result"
type_synonym ('m, 'c) mput_op = "'m \<Rightarrow> 'c \<Rightarrow> string \<Rightarrow> string \<Rightarrow> ('c \<times> go_error option) outcome"

text \<open>\<open>(p *pgxInserter) createMetricTable\<close>\<close>

definition createMetricTable :: "(string \<Rightarrow> string rows result) \<Rightarrow> string \<Rightarrow> string result" where
  "createMetricTable query metric =
     (case query metric of
        Inl e \<Rightarrow> Inl e
      | Inr res \<Rightarrow>
          (case row_scans res of
             [] \<Rightarrow> (case rows_err res of Some e \<Rightarrow> Inl e | None \<Rightarrow> Inl ErrMissingTableName)
           | Inl e # _ \<Rightarrow> Inl e
           | Inr tableName # _ \<Rightarrow> Inr tableName))"

text \<open>\<open>(p *pgxInserter) getMetricTableName\<close>: the table name and the error of \<open>Set\<close>.\<close>

definition inserter_getMetricTableName ::
  "'c mget \<Rightarrow> ('m, 'c) mput_op \<Rightarrow> (string \<Rightarrow> string rows result) \<Rightarrow> 'm \<Rightarrow> 'c \<Rightarrow> string \<Rightarrow>
   ('c \<times> string \<times> go_error option) outcome" where
  "inserter_getMetricTableName mget mput query m c metric =
     (case mget c metric of
        (c1, Inr tableName) \<Rightarrow> Return (c1, tableName, None)
      | (c1, Inl e) \<Rightarrow>
          (if e \<noteq> ErrEntryNotFound then Return (c1, '''', Some e)
           else (case createMetricTable query metric of
                   Inl e2 \<Rightarrow> Return (c1, '''', Some e2)
                 | Inr tableName \<Rightarrow>
                     outcome_bind (mput m c1 metric tableName) (\<lambda>(c2, err).
                       Return (c2, tableName, err)))))"

text \<open>\<open>(q *pgxQuerier) queryMetricTableName\<close>: no row is a missing table, whatever \<open>Err\<close> says.\<close>

definition queryMetricTableName :: "(string \<Rightarrow> string rows result) \<Rightarrow> string \<Rightarrow> string result" where
  "queryMetricTableName query metric =
     (case query metric of
        Inl e \<Rightarrow> Inl e
      | Inr res \<Rightarrow>
          (case row_scans res of
             [] \<Rightarrow> Inl ErrMissingTableName
           | Inl e # _ \<Rightarrow> Inl e
           | Inr tableName # _ \<Rightarrow> Inr tableName))"

text \<open>\<open>(q *pgxQuerier) getMetricTableName\<close>\<close>

definition querier_getMetricTableName ::
  "'c mget \<Rightarrow> ('m, 'c) mput_op \<Rightarrow> (string \<Rightarrow> string rows result) \<Rightarrow> 'm \<Rightarrow> 'c \<Rightarrow> string \<Rightarrow>
   ('c \<times> string \<times> go_error option) outcome" where
  "querier_getMetricTableName mget mput query m c metric =
     (case mget c metric of
        (c1, Inr tableName) \<Rightarrow> Return (c1, tableName, None)
      | (c1, Inl e) \<Rightarrow>
          (if e \<noteq> ErrEntryNotFound then Return (c1, '''', Some e)
           else (case queryMetricTableName query metric of
                   Inl e2 \<Rightarrow> Return (c1, '''', Some e2)
                 | Inr tableName \<Rightarrow>
                     outcome_bind (mput m c1 metric tableName) (\<lambda>(c2, err).
                       Return (c2, tableName, err)))))"

text \<open>
  The function \<open>getMetricTableName\<close> of \<open>sql_utils.go\<close>: table name, \<open>possiblyNew\<close> and error.
\<close>

definition getMetricTableName ::
  "(string \<Rightarrow> (string \<times> bool) rows result) \<Rightarrow> string \<Rightarrow> string \<times> bool \<times> go_error option" where
  "getMetricTableName query metric =
     (case query metric of
        Inl e \<Rightarrow> ('''', True, Some e)
      | Inr res \<Rightarrow>
          (case row_scans res of
             [] \<Rightarrow> ('''', True, Some ErrMissingTableName)
           | Inl e # _ \<Rightarrow> ('''', True, Some e)
           | Inr (tableName, possiblyNew) # _ \<Rightarrow> (tableName, possiblyNew, None)))"


section \<open>The interface\<close>

text \<open>
  The \<open>MetricCache\<close> interface: a lookup answers from the abstract map \<open>mlook\<close> or reports
  \<open>ErrEntryNotFound\<close>, and a \<open>Set\<close> never panics or fails and keeps the map within any function
  that both the map and the new pair agree with.
\<close>

locale metric_cache =
  fixes minv :: "'c \<Rightarrow> bool"
    and mlook :: "'c \<Rightarrow> string \<Rightarrow> string option"
    and mget :: "'c \<Rightarrow> string \<Rightarrow> 'c \<times> string result"
    and mput :: "'m \<Rightarrow> 'c \<Rightarrow> string \<Rightarrow> string \<Rightarrow> ('c \<times> go_error option) outcome"
  assumes mget_hit: "minv c \<Longrightarrow> mget c k = (c', Inr v) \<Longrightarrow> mlook c k = Some v"
    and mget_miss: "minv c \<Longrightarrow> mget c k = (c', Inl e) \<Longrightarrow> e = ErrEntryNotFound \<and> mlook c k = None"
    and mget_frame: "minv c \<Longrightarrow> mget c k = (c', r) \<Longrightarrow> minv c' \<and> mlook c' = mlook c"
    and mput_coherent: "minv c \<Longrightarrow> mlook c \<subseteq>\<^sub>m f \<Longrightarrow> f k = Some v \<Longrightarrow>
      \<exists>c'. mput m c k v = Return (c', None) \<and> minv c' \<and> mlook c' \<subseteq>\<^sub>m f"
begin

text \<open>
  A cached lookup returns what the database holds: if the cache agrees with the table names \<open>f\<close> of
  the database and the database answers with them, then the name returned is that of \<open>f\<close>, the
  lookup neither panics nor fails, and the cache still agrees with \<open>f\<close>.
\<close>

lemma querier_lookup:
  assumes "minv c" and "mlook c \<subseteq>\<^sub>m f" and "f metric = Some t"
    and "queryMetricTableName query metric = Inr t"
  shows "\<exists>c'. querier_getMetricTableName mget mput query m c metric = Return (c', t, None) \<and>
    minv c' \<and> mlook c' \<subseteq>\<^sub>m f"
proof -
  obtain c1 r where g: "mget c metric = (c1, r)" by force
  note fr = mget_frame [OF assms(1) g]
  show ?thesis
  proof (cases r)
    case (Inl e)
    with g mget_miss [OF assms(1)] have "e = ErrEntryNotFound" by blast
    moreover obtain c2 where "mput m c1 metric t = Return (c2, None)" "minv c2" "mlook c2 \<subseteq>\<^sub>m f"
      using mput_coherent [of c1 f metric t m] fr assms by auto
    ultimately show ?thesis
      using g Inl assms(4) by (simp add: querier_getMetricTableName_def)
  next
    case (Inr v)
    with g mget_hit [OF assms(1)] have "mlook c metric = Some v" by blast
    then have "v = t" using assms(2,3) by (force simp: map_le_def)
    with g Inr fr assms(2) show ?thesis by (simp add: querier_getMetricTableName_def)
  qed
qed

lemma inserter_lookup:
  assumes "minv c" and "mlook c \<subseteq>\<^sub>m f" and "f metric = Some t"
    and "createMetricTable query metric = Inr t"
  shows "\<exists>c'. inserter_getMetricTableName mget mput query m c metric = Return (c', t, None) \<and>
    minv c' \<and> mlook c' \<subseteq>\<^sub>m f"
proof -
  obtain c1 r where g: "mget c metric = (c1, r)" by force
  note fr = mget_frame [OF assms(1) g]
  show ?thesis
  proof (cases r)
    case (Inl e)
    with g mget_miss [OF assms(1)] have "e = ErrEntryNotFound" by blast
    moreover obtain c2 where "mput m c1 metric t = Return (c2, None)" "minv c2" "mlook c2 \<subseteq>\<^sub>m f"
      using mput_coherent [of c1 f metric t m] fr assms by auto
    ultimately show ?thesis
      using g Inl assms(4) by (simp add: inserter_getMetricTableName_def)
  next
    case (Inr v)
    with g mget_hit [OF assms(1)] have "mlook c metric = Some v" by blast
    then have "v = t" using assms(2,3) by (force simp: map_le_def)
    with g Inr fr assms(2) show ?thesis by (simp add: inserter_getMetricTableName_def)
  qed
qed

text \<open>A metric the cache does not hold and the database does not know is a missing table.\<close>

lemma querier_lookup_error:
  assumes "minv c" and "mlook c metric = None" and "queryMetricTableName query metric = Inl e"
  shows "\<exists>c'. querier_getMetricTableName mget mput query m c metric = Return (c', '''', Some e) \<and>
    minv c' \<and> mlook c' = mlook c"
proof -
  obtain c1 r where g: "mget c metric = (c1, r)" by force
  from mget_hit [OF assms(1)] g assms(2) obtain e1 where "r = Inl e1" by (cases r) auto
  with g mget_miss [OF assms(1)] mget_frame [OF assms(1) g] assms(3) show ?thesis
    by (fastforce simp: querier_getMetricTableName_def)
qed

end

interpretation mnc: metric_cache cache_inv contents mnc_Get mnc_Set
proof
  fix c :: metric_name_cache and c' k
  assume inv: "cache_inv c"
  note gl = clock.get_look [OF inv, of k]
  show "contents c k = Some v" if "mnc_Get c k = (c', Inr v)" for v
    using that gl by (auto simp: mnc_Get_def split: prod.splits option.splits)
  show "e = ErrEntryNotFound \<and> contents c k = None" if "mnc_Get c k = (c', Inl e)" for e
    using that gl by (auto simp: mnc_Get_def split: prod.splits option.splits)
  show "cache_inv c' \<and> contents c' = contents c" if "mnc_Get c k = (c', r)" for r
    using that clock.get_inv [OF inv, of k] clock.get_frame [OF inv, of k]
    by (auto simp: mnc_Get_def split: prod.splits option.splits)
  show "\<exists>c'. mnc_Set m c k v = Return (c', None) \<and> cache_inv c' \<and> contents c' \<subseteq>\<^sub>m f"
    if coh: "contents c \<subseteq>\<^sub>m f" "f k = Some v" for m f v
  proof -
    obtain c2 v2 ok where "Insert m c k v = Return (c2, v2, ok)"
      using clock.ins_returns [OF inv, of m k v] by blast
    with clock.ins_coherent [OF inv coh this] show ?thesis by (simp add: mnc_Set_def)
  qed
qed

text \<open>
  C25: the querier's table lookup is a correct memo of the database.  Where the cache agrees with
  the table names \<open>f\<close> and the database answers \<open>f metric\<close>, the lookup returns that name without
  error or panic, and the cache agrees with \<open>f\<close> afterwards, under any interference.
\<close>
theorem querier_table_lookup:
  assumes "cache_inv c" and "contents c \<subseteq>\<^sub>m f" and "f metric = Some t"
    and "queryMetricTableName query metric = Inr t"
  shows "\<exists>c'. querier_getMetricTableName mnc_Get mnc_Set query m c metric = Return (c', t, None) \<and>
    cache_inv c' \<and> contents c' \<subseteq>\<^sub>m f"
  using assms by (rule mnc.querier_lookup)

theorem querier_table_lookup_witness:
  "\<exists>c'. querier_getMetricTableName mnc_Get mnc_Set
      (\<lambda>metric. Inr \<lparr>row_scans = [Inr (''t_'' @ metric)], rows_err = None\<rparr>) quiet (WithMax 2) ''cpu'' =
      Return (c', ''t_cpu'', None)"
proof -
  let ?q = "\<lambda>metric. Inr \<lparr>row_scans = [Inr (''t_'' @ metric)], rows_err = None\<rparr> :: string rows result"
  have "contents (WithMax 2) \<subseteq>\<^sub>m (\<lambda>k. Some (''t_'' @ k))"
    by (simp add: contents_def WithMax_def map_le_def dom_def)
  moreover have "queryMetricTableName ?q ''cpu'' = Inr ''t_cpu''"
    by (simp add: queryMetricTableName_def)
  ultimately show ?thesis
    using querier_table_lookup [OF WithMax_inv, of 2 "\<lambda>k. Some (''t_'' @ k)" "''cpu''" "''t_cpu''" ?q quiet]
    by auto
qed

end
