(* ===== verification/Sql_Ingest.thy ===== *)
theory Sql_Ingest
  imports Ingestor Metric_Cache
begin

text \<open>
  The inserter of \<open>pkg/pgmodel/sql_ingest.go\<close>: the goroutine that serves a metric
  (\<open>runInserterRoutine\<close>), which collects requests, resolves series ids and hands full buffers to
  the copiers, and the copiers (\<open>runInserter\<close>), which write them to the database and answer the
  requests.  Log lines and Prometheus counters are not modelled.
\<close>

section \<open>The database connection\<close>

text \<open>
  What the inserter asks of \<open>pgxConn\<close>, as operations on the state \<open>'d\<close> of the database.  A series is
  queried by metric name, label names and label values; a batch of such queries, each between a
  \<open>BEGIN\<close> and a \<open>COMMIT\<close>, is answered by the three replies of each.  Instants are nanoseconds.
\<close>

type_synonym series_query = "string \<times> string list \<times> string list"
type_synonym row = "int \<times> float64 \<times> int"

record batch_reply =
  br_begin :: "go_error option"
  br_row :: "(string \<times> int) result"
  br_commit :: "go_error option"

record 'd pgxConn =
  pc_SendBatch :: "'d \<Rightarrow> series_query list \<Rightarrow> 'd \<times> (nat \<Rightarrow> batch_reply) result"
  pc_InsertRows :: "'d \<Rightarrow> string \<Rightarrow> row list \<Rightarrow> 'd \<times> int result"
  pc_DelayCompression :: "'d \<Rightarrow> string \<Rightarrow> int \<Rightarrow> 'd \<times> go_error option"
  pc_DecompressAfter :: "'d \<Rightarrow> string \<Rightarrow> int \<Rightarrow> 'd \<times> go_error option"
  pc_CreateTable :: "'d \<Rightarrow> string \<Rightarrow> 'd \<times> (string \<times> bool) rows result"
  pc_FinalizeMetric :: "'d \<Rightarrow> 'd \<times> go_error option"
  pc_Now :: "'d \<Rightarrow> int"
  pc_toTime :: "int \<Rightarrow> int"


section \<open>Wait groups and error channels\<close>

text \<open>
  Each call of \<open>InsertData\<close> makes a \<open>WaitGroup\<close> and an error channel of capacity one; both are
  named by the number of the call.  A task refers to them by pointers that are nil in a zero value.
\<close>

record insertDataTask =
  tk_finished :: "nat option"
  tk_errChan :: "nat option"

record acks =
  ak_wg :: "nat \<Rightarrow> int"
  ak_err :: "nat \<Rightarrow> go_error option"
  ak_closed :: "nat \<Rightarrow> bool"

definition wg_Done :: "nat option \<Rightarrow> acks \<Rightarrow> acks outcome" where
  "wg_Done g a =
     (case g of
        None \<Rightarrow> Panic ''nil pointer dereference''
      | Some i \<Rightarrow>
          (if ak_wg a i \<le> 0 then Panic ''sync: negative WaitGroup counter''
           else Return (a\<lparr>ak_wg := (ak_wg a)(i := ak_wg a i - 1)\<rparr>)))"

text \<open>\<open>select { case c <- err: default: }\<close>: a nil or full channel takes the default.\<close>

definition try_send :: "nat option \<Rightarrow> go_error \<Rightarrow> acks \<Rightarrow> acks outcome" where
  "try_send c err a =
     (case c of
        None \<Rightarrow> Return a
      | Some i \<Rightarrow>
          (if ak_closed a i then Panic ''send on closed channel''
           else (case ak_err a i of
                   Some _ \<Rightarrow> Return a
                 | None \<Rightarrow> Return (a\<lparr>ak_err := (ak_err a)(i := Some err)\<rparr>))))"

definition close_errChan :: "nat \<Rightarrow> acks \<Rightarrow> acks outcome" where
  "close_errChan i a =
     (if ak_closed a i then Panic ''close of closed channel''
      else Return (a\<lparr>ak_closed := (ak_closed a)(i := True)\<rparr>))"


section \<open>Requests and pending buffers\<close>

record insertDataRequest =
  rq_metric :: string
  rq_data :: "samplesInfo list"
  rq_finished :: "nat option"
  rq_errChan :: "nat option"

record pendingBuffer =
  pb_needsResponse :: "insertDataTask list"
  pb_batch :: SampleInfoIterator

record copyRequest =
  cr_data :: pendingBuffer
  cr_table :: string

definition flushSize :: nat where
  "flushSize = 2000"

definition new_pendingBuffer :: pendingBuffer where
  "new_pendingBuffer = \<lparr>pb_needsResponse = [], pb_batch = NewSampleInfoIterator\<rparr>"

text \<open>\<open>pendingBuffers.Get()\<close>\<close>

definition pool_Get :: "pendingBuffer list \<Rightarrow> pendingBuffer \<times> pendingBuffer list" where
  "pool_Get pool = (case pool of [] \<Rightarrow> (new_pendingBuffer, []) | p # ps \<Rightarrow> (p, ps))"

text \<open>\<open>reportResults\<close> signals every waiting request and empties the buffer.\<close>

fun report_tasks :: "go_error option \<Rightarrow> insertDataTask list \<Rightarrow> acks \<Rightarrow> acks outcome" where
  "report_tasks err [] a = Return a"
| "report_tasks err (t # ts) a =
     outcome_bind (case err of Some e \<Rightarrow> try_send (tk_errChan t) e a | None \<Rightarrow> Return a) (\<lambda>a1.
     outcome_bind (wg_Done (tk_finished t) a1) (\<lambda>a2. report_tasks err ts a2))"

definition reportResults :: "pendingBuffer \<Rightarrow> go_error option \<Rightarrow> acks \<Rightarrow> (pendingBuffer \<times> acks) outcome" where
  "reportResults pending err a =
     outcome_bind (report_tasks err (pb_needsResponse pending) a) (\<lambda>a'.
       Return (\<lparr>pb_needsResponse = [], pb_batch = ResetPosition (zero_iterator [])\<rparr>, a'))"

definition addReq :: "pendingBuffer \<Rightarrow> insertDataRequest \<Rightarrow> pendingBuffer \<times> bool" where
  "addReq p req =
     (let b = pb_batch p; infos = it_sampleInfos b @ rq_data req
      in (\<lparr>pb_needsResponse = pb_needsResponse p @ [\<lparr>tk_finished = rq_finished req, tk_errChan = rq_errChan req\<rparr>],
           pb_batch = b\<lparr>it_sampleInfos := infos\<rparr>\<rparr>,
          flushSize < length infos))"


section \<open>Series ids\<close>

type_synonym series_cache = "string \<rightharpoonup> int"

definition known_id :: "series_cache \<Rightarrow> samplesInfo \<Rightarrow> int option" where
  "known_id cache s = (if - 1 < si_seriesID s then Some (si_seriesID s) else cache (labels_String (si_labels s)))"

definition fillKnowSeriesIds :: "series_cache \<Rightarrow> samplesInfo list \<Rightarrow> samplesInfo list \<times> nat" where
  "fillKnowSeriesIds cache infos =
     (map (\<lambda>s. case known_id cache s of Some i \<Rightarrow> s\<lparr>si_seriesID := i\<rparr> | None \<Rightarrow> s) infos,
      length (filter (\<lambda>s. known_id cache s = None) infos))"

text \<open>
  Pointers into the slice are indices.  \<open>sort.Slice\<close> is the stable sort; the elements it could
  reorder have the same canonical string.
\<close>

definition missing_series :: "samplesInfo list \<Rightarrow> nat list" where
  "missing_series infos =
     sort_key (\<lambda>i. labels_String (si_labels (infos ! i)))
       (filter (\<lambda>i. si_seriesID (infos ! i) < 0) [0..<length infos])"

definition query_of :: "Labels \<Rightarrow> series_query" where
  "query_of l = (l_metricName l, l_names l, l_values l)"

text \<open>One slice of pointers per distinct label set, and the queries queued for them.\<close>

fun group_series ::
  "samplesInfo list \<Rightarrow> Labels option \<Rightarrow> series_query list \<Rightarrow> nat list list \<Rightarrow> nat list \<Rightarrow> series_query list \<times> nat list list" where
  "group_series infos lastSeen queries groups [] = (queries, groups)"
| "group_series infos lastSeen queries groups (i # is) =
     (let l = si_labels (infos ! i)
      in if lastSeen \<noteq> None \<and> labels_Equal (the lastSeen) l
         then group_series infos lastSeen queries (butlast groups @ [last groups @ [i]]) is
         else group_series infos (Some l) (queries @ [query_of l]) (groups @ [[i]]) is)"

definition set_ids :: "int \<Rightarrow> nat list \<Rightarrow> samplesInfo list \<Rightarrow> samplesInfo list" where
  "set_ids series js infos = fold (\<lambda>j xs. xs[j := (xs ! j)\<lparr>si_seriesID := series\<rparr>]) js infos"

text \<open>The loop over the replies: the id is cached before the \<open>COMMIT\<close> is known to succeed.\<close>

fun apply_replies ::
  "(nat \<Rightarrow> batch_reply) \<Rightarrow> nat \<Rightarrow> nat list list \<Rightarrow> string \<Rightarrow> samplesInfo list \<Rightarrow> series_cache \<Rightarrow>
   samplesInfo list \<times> series_cache \<times> string result" where
  "apply_replies reply i [] tableName infos cache = (infos, cache, Inr tableName)"
| "apply_replies reply i (g # gs) tableName infos cache =
     (case br_begin (reply i) of
        Some e \<Rightarrow> (infos, cache, Inl e)
      | None \<Rightarrow>
          (case br_row (reply i) of
             Inl e \<Rightarrow> (infos, cache, Inl e)
           | Inr (tableName', series) \<Rightarrow>
               (let cache' = cache(labels_String (si_labels (infos ! hd g)) \<mapsto> series);
                    infos' = set_ids series g infos
                in case br_commit (reply i) of
                     Some e \<Rightarrow> (infos', cache', Inl e)
                   | None \<Rightarrow> apply_replies reply (Suc i) gs tableName' infos' cache')))"

definition setSeriesIds ::
  "'d pgxConn \<Rightarrow> series_cache \<Rightarrow> samplesInfo list \<Rightarrow> 'd \<Rightarrow> 'd \<times> samplesInfo list \<times> series_cache \<times> string result" where
  "setSeriesIds conn cache sampleInfos d =
     (case fillKnowSeriesIds cache sampleInfos of
        (infos, numMissingSeries) \<Rightarrow>
          (if numMissingSeries = 0 then (d, infos, cache, Inr '''')
           else (case group_series infos None [] [] (missing_series infos) of
                   (queries, batchSeries) \<Rightarrow>
                     (case pc_SendBatch conn d queries of
                        (d', Inl e) \<Rightarrow> (d', infos, cache, Inl e)
                      | (d', Inr reply) \<Rightarrow>
                          (if length queries \<noteq> length batchSeries
                           then (d', infos, cache, Inl (ErrMsg ''unexpected difference in numQueries and batchSeries''))
                           else (case apply_replies reply 0 batchSeries '''' infos cache of
                                   (infos', cache', r) \<Rightarrow> (d', infos', cache', r)))))))"


section \<open>The insert handler of a metric\<close>

record insertHandler =
  ih_pending :: pendingBuffer
  ih_seriesCache :: series_cache
  ih_metricTableName :: string

definition hasPendingReqs :: "insertHandler \<Rightarrow> bool" where
  "hasPendingReqs h \<longleftrightarrow> 0 < length (it_sampleInfos (pb_batch (ih_pending h)))"

text \<open>What a handler shares with the rest of the process.\<close>

record 'd shared =
  sh_db :: 'd
  sh_acks :: acks
  sh_toCopiers :: "copyRequest list"
  sh_copiersClosed :: bool
  sh_pool :: "pendingBuffer list"

definition flushPending :: "'d pgxConn \<Rightarrow> insertHandler \<Rightarrow> 'd shared \<Rightarrow> (insertHandler \<times> 'd shared) outcome" where
  "flushPending conn h sh =
     (case setSeriesIds conn (ih_seriesCache h) (it_sampleInfos (pb_batch (ih_pending h))) (sh_db sh) of
        (d, infos, cache, r) \<Rightarrow>
          (let pending = (ih_pending h)\<lparr>pb_batch := (pb_batch (ih_pending h))\<lparr>it_sampleInfos := infos\<rparr>\<rparr>
           in case r of
                Inl e \<Rightarrow>
                  outcome_bind (reportResults pending (Some e) (sh_acks sh)) (\<lambda>(pending', a).
                    Return (h\<lparr>ih_pending := pending', ih_seriesCache := cache\<rparr>, sh\<lparr>sh_db := d, sh_acks := a\<rparr>))
              | Inr _ \<Rightarrow>
                  (case pool_Get (sh_pool sh) of
                     (fresh, pool) \<Rightarrow>
                       if sh_copiersClosed sh then Panic ''send on closed channel''
                       else Return (h\<lparr>ih_pending := fresh, ih_seriesCache := cache\<rparr>,
                         sh\<lparr>sh_db := d, sh_pool := pool,
                            sh_toCopiers := sh_toCopiers sh @ [\<lparr>cr_data = pending, cr_table = ih_metricTableName h\<rparr>]\<rparr>))))"

definition handler_flush :: "'d pgxConn \<Rightarrow> insertHandler \<Rightarrow> 'd shared \<Rightarrow> (insertHandler \<times> 'd shared) outcome" where
  "handler_flush conn h sh = (if \<not> hasPendingReqs h then Return (h, sh) else flushPending conn h sh)"

definition handleReq ::
  "'d pgxConn \<Rightarrow> insertHandler \<Rightarrow> insertDataRequest \<Rightarrow> 'd shared \<Rightarrow> (insertHandler \<times> 'd shared \<times> bool) outcome" where
  "handleReq conn h req sh =
     (case addReq (ih_pending h) (req\<lparr>rq_data := fst (fillKnowSeriesIds (ih_seriesCache h) (rq_data req))\<rparr>) of
        (pending, needsFlush) \<Rightarrow>
          (let h1 = h\<lparr>ih_pending := pending\<rparr>
           in if needsFlush
              then outcome_bind (flushPending conn h1 sh) (\<lambda>(h2, sh'). Return (h2, sh', True))
              else Return (h1, sh, False)))"

section \<open>The copiers\<close>

text \<open>
  \<open>doInsert\<close> returns the batch with its position advanced.  The warning and the counters about
  duplicate rows do not change the result.
\<close>

definition doInsert :: "'d pgxConn \<Rightarrow> copyRequest \<Rightarrow> 'd \<Rightarrow> (copyRequest \<times> 'd \<times> go_error option) outcome" where
  "doInsert conn req d =
     (let batch = pb_batch (cr_data req); numRows = num_samples (it_sampleInfos batch)
      in outcome_bind (drain (pc_toTime conn) batch) (\<lambda>(batch', rows).
           if length rows \<noteq> numRows then Panic ''invalid insert request''
           else (let req' = req\<lparr>cr_data := (cr_data req)\<lparr>pb_batch := batch'\<rparr>\<rparr>
                 in case pc_InsertRows conn d (cr_table req) rows of
                      (d', Inl e) \<Rightarrow> Return (req', d', Some e)
                    | (d', Inr rowsAffected) \<Rightarrow> Return (req', d', None))))"

text \<open>\<open>strings.Contains\<close>\<close>

fun str_contains :: "string \<Rightarrow> string \<Rightarrow> bool" where
  "str_contains [] sub \<longleftrightarrow> sub = []"
| "str_contains (c # s) sub \<longleftrightarrow> take (length sub) (c # s) = sub \<or> str_contains s sub"

text \<open>\<open>time.Since\<close> saturates at the bounds of a \<open>Duration\<close>.\<close>

definition time_Since :: "int \<Rightarrow> int \<Rightarrow> int" where
  "time_Since now t = max min_int64 (min max_int64 (now - t))"

definition time_Minute :: int where "time_Minute = 60 * 10 ^ 9"
definition time_Hour :: int where "time_Hour = 60 * time_Minute"

definition delay_by :: "int \<Rightarrow> int \<Rightarrow> int" where
  "delay_by now minTime =
     (let ingestSpeedup = 2;
          delayBy = wrap64 (go_quot (time_Since now minTime) ingestSpeedup + 60 * time_Minute);
          maxDelayBy = time_Hour * 24
      in if maxDelayBy < delayBy then maxDelayBy else delayBy)"

definition decompressChunks :: "'d pgxConn \<Rightarrow> pendingBuffer \<Rightarrow> string \<Rightarrow> 'd \<Rightarrow> 'd \<times> go_error option" where
  "decompressChunks conn pending table d =
     (let minTime = pc_toTime conn (it_minSeen (pb_batch pending))
      in case pc_DelayCompression conn d table (pc_Now conn d + delay_by (pc_Now conn d) minTime) of
           (d1, Some rescheduleErr) \<Rightarrow> (d1, Some rescheduleErr)
         | (d1, None) \<Rightarrow>
             (case pc_DecompressAfter conn d1 table minTime of
                (d2, Some decompressErr) \<Rightarrow> (d2, Some decompressErr)
              | (d2, None) \<Rightarrow> (d2, None)))"

definition tryRecovery :: "'d pgxConn \<Rightarrow> copyRequest \<Rightarrow> go_error \<Rightarrow> 'd \<Rightarrow> copyRequest \<times> 'd \<times> go_error option" where
  "tryRecovery conn req err d =
     (case err of
        PgError code message \<Rightarrow>
          (if str_contains message ''insert/update/delete not permitted''
           then (case decompressChunks conn (cr_data req) (cr_table req) d of
                   (d', Some decompressErr) \<Rightarrow> (req, d', Some err)
                 | (d', None) \<Rightarrow>
                     (req\<lparr>cr_data := (cr_data req)\<lparr>pb_batch := ResetPosition (pb_batch (cr_data req))\<rparr>\<rparr>, d', None))
           else (req, d, Some err))
      | _ \<Rightarrow> (req, d, Some err))"

definition insertErrorFallback ::
  "'d pgxConn \<Rightarrow> copyRequest \<Rightarrow> go_error \<Rightarrow> 'd \<Rightarrow> (copyRequest \<times> 'd \<times> go_error option) outcome" where
  "insertErrorFallback conn req err d =
     (case tryRecovery conn req err d of
        (req', d', Some e) \<Rightarrow> Return (req', d', Some e)
      | (req', d', None) \<Rightarrow> doInsert conn req' d')"

text \<open>One round of \<open>runInserter\<close>, with the request it received.\<close>

definition copier_round :: "'d pgxConn \<Rightarrow> copyRequest \<Rightarrow> 'd shared \<Rightarrow> 'd shared outcome" where
  "copier_round conn req sh =
     outcome_bind (doInsert conn req (sh_db sh)) (\<lambda>(req1, d1, err).
     outcome_bind (case err of
                     None \<Rightarrow> Return (req1, d1, None)
                   | Some e \<Rightarrow> insertErrorFallback conn req1 e d1) (\<lambda>(req2, d2, err2).
     outcome_bind (reportResults (cr_data req2) err2 (sh_acks sh)) (\<lambda>(pending, a).
       Return (sh\<lparr>sh_db := d2, sh_acks := a, sh_pool := pending # sh_pool sh\<rparr>))))"


section \<open>The inserter routine of a metric\<close>

text \<open>
  Where the goroutine \<open>runInserterRoutine\<close> stands: before the table lookup, with the error channel
  it was started with; in \<open>runInserterRoutineFailure\<close>; at the top of its loop; in the
  \<open>hotReceive\<close> loop; or returned.
\<close>

datatype routine_pc =
    Starting nat
  | Failed go_error
  | LoopTop insertHandler
  | HotReceive insertHandler
  | Exited

record inserter_routine =
  rt_input :: "insertDataRequest list"
  rt_closed :: bool
  rt_pc :: routine_pc

text \<open>A receive from a closed and empty channel yields the zero value.\<close>

definition zero_request :: insertDataRequest where
  "zero_request = \<lparr>rq_metric = '''', rq_data = [], rq_finished = None, rq_errChan = None\<rparr>"

definition failed_err :: "go_error \<Rightarrow> go_error" where
  "failed_err err = ErrWrap ''The insert routine has previously failed with '' err"

text \<open>The part of the process that the start of a routine uses besides \<open>'d shared\<close>.\<close>

record metric_env =
  me_names :: metric_name_cache
  me_signal :: bool

text \<open>The table lookup at the start of \<open>runInserterRoutine\<close>.\<close>

definition start_routine ::
  "'d pgxConn \<Rightarrow> marks \<Rightarrow> string \<Rightarrow> nat \<Rightarrow> metric_env \<Rightarrow> 'd shared \<Rightarrow> (routine_pc \<times> metric_env \<times> 'd shared) outcome" where
  "start_routine conn m metricName errChan me sh =
     (let serve = (\<lambda>tableName me' sh'.
            case pool_Get (sh_pool sh') of
              (fresh, pool) \<Rightarrow>
                (LoopTop \<lparr>ih_pending = fresh, ih_seriesCache = Map.empty, ih_metricTableName = tableName\<rparr>,
                 me', sh'\<lparr>sh_pool := pool\<rparr>));
          fail = (\<lambda>e me' sh'.
            outcome_bind (try_send (Some errChan) e (sh_acks sh')) (\<lambda>a.
              Return (Failed e, me', sh'\<lparr>sh_acks := a\<rparr>)))
      in case mnc_Get (me_names me) metricName of
           (names, Inr tableName) \<Rightarrow> Return (serve tableName (me\<lparr>me_names := names\<rparr>) sh)
         | (names, Inl err) \<Rightarrow>
             (if err = ErrEntryNotFound
              then (case pc_CreateTable conn (sh_db sh) metricName of
                      (d, res) \<Rightarrow>
                        (case getMetricTableName (\<lambda>_. res) metricName of
                           (_, _, Some e) \<Rightarrow> fail e (me\<lparr>me_names := names\<rparr>) (sh\<lparr>sh_db := d\<rparr>)
                         | (tableName, possiblyNew, None) \<Rightarrow>
                             outcome_bind (mnc_Set m names metricName tableName) (\<lambda>(names', _).
                               Return (serve tableName
                                 (me\<lparr>me_names := names', me_signal := me_signal me \<or> possiblyNew\<rparr>) (sh\<lparr>sh_db := d\<rparr>)))))
              else fail err (me\<lparr>me_names := names\<rparr>) sh))"

text \<open>The body of the \<open>hotReceive\<close> loop with the request it received.\<close>

definition hot_receive ::
  "'d pgxConn \<Rightarrow> insertHandler \<Rightarrow> insertDataRequest \<Rightarrow> 'd shared \<Rightarrow> (routine_pc \<times> 'd shared) outcome" where
  "hot_receive conn h req sh =
     outcome_bind (handleReq conn h req sh) (\<lambda>(h1, sh1, _).
       if flushSize \<le> length (it_sampleInfos (pb_batch (ih_pending h1)))
       then outcome_bind (handler_flush conn h1 sh1) (\<lambda>(h2, sh2). Return (LoopTop h2, sh2))
       else Return (HotReceive h1, sh1))"

text \<open>
  One step of the goroutine of \<open>metricName\<close>: \<open>None\<close> when it blocks or has returned, otherwise the
  next state or a panic.
\<close>

definition routine_step ::
  "'d pgxConn \<Rightarrow> marks \<Rightarrow> string \<Rightarrow> inserter_routine \<Rightarrow> metric_env \<Rightarrow> 'd shared \<Rightarrow>
   (inserter_routine \<times> metric_env \<times> 'd shared) outcome option" where
  "routine_step conn m metricName r me sh =
     (case rt_pc r of
        Starting errChan \<Rightarrow>
          Some (outcome_bind (start_routine conn m metricName errChan me sh) (\<lambda>(pc, me', sh').
            Return (r\<lparr>rt_pc := pc\<rparr>, me', sh')))
      | Failed e \<Rightarrow>
          (case rt_input r of
             [] \<Rightarrow> (if rt_closed r then Some (Return (r\<lparr>rt_pc := Exited\<rparr>, me, sh)) else None)
           | idr # rest \<Rightarrow>
               Some (outcome_bind (try_send (rq_errChan idr) (failed_err e) (sh_acks sh)) (\<lambda>a1.
                     outcome_bind (wg_Done (rq_finished idr) a1) (\<lambda>a2.
                       Return (r\<lparr>rt_input := rest\<rparr>, me, sh\<lparr>sh_acks := a2\<rparr>)))))
      | LoopTop h \<Rightarrow>
          (if \<not> hasPendingReqs h
           then (case rt_input r of
                   [] \<Rightarrow> (if rt_closed r then Some (Return (r\<lparr>rt_pc := Exited\<rparr>, me, sh)) else None)
                 | req # rest \<Rightarrow>
                     Some (outcome_bind (handleReq conn h req sh) (\<lambda>(h', sh', _).
                       Return (r\<lparr>rt_input := rest, rt_pc := LoopTop h'\<rparr>, me, sh'))))
           else Some (Return (r\<lparr>rt_pc := HotReceive h\<rparr>, me, sh)))
      | HotReceive h \<Rightarrow>
          Some (case rt_input r of
                  req # rest \<Rightarrow>
                    outcome_bind (hot_receive conn h req sh) (\<lambda>(pc, sh').
                      Return (r\<lparr>rt_input := rest, rt_pc := pc\<rparr>, me, sh'))
                | [] \<Rightarrow>
                    (if rt_closed r
                     then outcome_bind (hot_receive conn h zero_request sh) (\<lambda>(pc, sh').
                            Return (r\<lparr>rt_pc := pc\<rparr>, me, sh'))
                     else outcome_bind (handler_flush conn h sh) (\<lambda>(h', sh').
                            Return (r\<lparr>rt_pc := LoopTop h'\<rparr>, me, sh'))))
      | Exited \<Rightarrow> None)"

section \<open>Series ids: correctness\<close>

text \<open>
  The labels that interning produces are determined by their string.  \<open>idOf\<close> is the series id that the
  database has for a label set.
\<close>

definition labels_ok :: "Labels \<Rightarrow> bool" where
  "labels_ok l \<longleftrightarrow> (\<exists>ls. decode_str (l_str l) = Some ls \<and> l = new_labels (l_str l) ls)"

definition strip :: "samplesInfo \<Rightarrow> Labels \<times> sample slice" where
  "strip s = (si_labels s, si_samples s)"

definition resolved :: "(series_query \<Rightarrow> int) \<Rightarrow> samplesInfo \<Rightarrow> bool" where
  "resolved idOf s \<longleftrightarrow> si_seriesID s = idOf (query_of (si_labels s)) \<and> 0 \<le> si_seriesID s"

definition id_ok :: "(series_query \<Rightarrow> int) \<Rightarrow> samplesInfo \<Rightarrow> bool" where
  "id_ok idOf s \<longleftrightarrow> labels_ok (si_labels s) \<and> (si_seriesID s = - 1 \<or> resolved idOf s)"

definition cache_ok :: "(series_query \<Rightarrow> int) \<Rightarrow> series_cache \<Rightarrow> bool" where
  "cache_ok idOf c \<longleftrightarrow>
     (\<forall>str series. c str = Some series \<longrightarrow>
        0 \<le> series \<and> (\<forall>l. labels_ok l \<and> l_str l = str \<longrightarrow> series = idOf (query_of l)))"

lemma labels_ok_unique: "labels_ok l \<Longrightarrow> labels_ok l' \<Longrightarrow> l_str l = l_str l' \<Longrightarrow> l = l'"
  unfolding labels_ok_def by (metis option.inject)

lemma cache_ok_empty: "cache_ok idOf Map.empty"
  by (simp add: cache_ok_def)

lemma cache_ok_upd:
  assumes "cache_ok idOf c" and "labels_ok l" and "0 \<le> idOf (query_of l)"
  shows "cache_ok idOf (c(l_str l \<mapsto> idOf (query_of l)))"
proof -
  have "l' = l" if "labels_ok l'" "l_str l' = l_str l" for l'
    using labels_ok_unique [OF that(1) assms(2) that(2)] .
  then show ?thesis using assms(1,3) unfolding cache_ok_def by (metis fun_upd_apply option.inject)
qed

lemma fill_one:
  assumes "cache_ok idOf cache" and "id_ok idOf s"
  shows "case known_id cache s of
      Some i \<Rightarrow> resolved idOf (s\<lparr>si_seriesID := i\<rparr>) | None \<Rightarrow> si_seriesID s = - 1"
  using assms by (auto simp: known_id_def id_ok_def resolved_def cache_ok_def labels_String_def split: option.splits)

lemma fillKnow_spec:
  assumes "cache_ok idOf cache" and "list_all (id_ok idOf) infos"
  shows "map strip (fst (fillKnowSeriesIds cache infos)) = map strip infos"
    and "list_all (id_ok idOf) (fst (fillKnowSeriesIds cache infos))"
    and "snd (fillKnowSeriesIds cache infos) = 0 \<Longrightarrow> list_all (resolved idOf) (fst (fillKnowSeriesIds cache infos))"
proof -
  have one: "case known_id cache s of
      Some i \<Rightarrow> resolved idOf (s\<lparr>si_seriesID := i\<rparr>) | None \<Rightarrow> si_seriesID s = - 1" if "s \<in> set infos" for s
    using fill_one [OF assms(1)] assms(2) that by (auto simp: list_all_iff)
  show "map strip (fst (fillKnowSeriesIds cache infos)) = map strip infos"
    by (simp add: fillKnowSeriesIds_def strip_def split: option.splits)
  show "list_all (id_ok idOf) (fst (fillKnowSeriesIds cache infos))"
    using one assms(2) by (fastforce simp: fillKnowSeriesIds_def list_all_iff id_ok_def split: option.splits)
  show "list_all (resolved idOf) (fst (fillKnowSeriesIds cache infos))" if "snd (fillKnowSeriesIds cache infos) = 0"
    using one that by (fastforce simp: fillKnowSeriesIds_def list_all_iff filter_empty_conv split: option.splits)
qed

text \<open>Grouping by labels.\<close>

abbreviation str_at :: "samplesInfo list \<Rightarrow> nat \<Rightarrow> string" where
  "str_at infos i \<equiv> labels_String (si_labels (infos ! i))"

definition group_ok :: "samplesInfo list \<Rightarrow> nat list \<Rightarrow> bool" where
  "group_ok infos g \<longleftrightarrow> g \<noteq> [] \<and> (\<forall>i \<in> set g. str_at infos i = str_at infos (hd g))"

definition groups_last :: "samplesInfo list \<Rightarrow> nat list list \<Rightarrow> Labels option" where
  "groups_last infos groups = (if groups = [] then None else Some (si_labels (infos ! hd (last groups))))"

lemma group_ok_single: "group_ok infos [i]"
  by (simp add: group_ok_def)

lemma group_ok_snoc:
  assumes "group_ok infos g" and "str_at infos i = str_at infos (hd g)"
  shows "group_ok infos (g @ [i])"
proof -
  have "hd (g @ [i]) = hd g" using assms(1) by (simp add: group_ok_def)
  then show ?thesis using assms unfolding group_ok_def by (metis Un_iff append_is_Nil_conv list.set(1,2) empty_iff insert_iff set_append)
qed

lemma group_series_spec:
  assumes "group_series infos lastSeen queries groups is = (queries', groups')"
    and "lastSeen = groups_last infos groups"
    and "queries = map (\<lambda>g. query_of (si_labels (infos ! hd g))) groups"
    and "list_all (group_ok infos) groups"
  shows "concat groups' = concat groups @ is \<and> list_all (group_ok infos) groups' \<and>
    queries' = map (\<lambda>g. query_of (si_labels (infos ! hd g))) groups'"
  using assms
proof (induction infos lastSeen queries groups "is" rule: group_series.induct)
  case (1 infos lastSeen queries groups)
  then show ?case by auto
next
  case (2 infos lastSeen queries groups i "is")
  show ?case
  proof (cases "lastSeen \<noteq> None \<and> labels_Equal (the lastSeen) (si_labels (infos ! i))")
    case True
    then obtain gs g where g: "groups = gs @ [g]"
      using 2(4) by (cases groups rule: rev_cases) (auto simp: groups_last_def)
    have ne: "g \<noteq> []" using 2(6) g by (simp add: group_ok_def)
    have eq: "str_at infos i = str_at infos (hd g)"
      using True 2(4) g by (auto simp: groups_last_def labels_Equal_def labels_String_def)
    have "group_series infos lastSeen queries (gs @ [g @ [i]]) is = (queries', groups')"
      using 2(3) True g by (simp add: Let_def)
    moreover have "lastSeen = groups_last infos (gs @ [g @ [i]])"
      "queries = map (\<lambda>g. query_of (si_labels (infos ! hd g))) (gs @ [g @ [i]])"
      "list_all (group_ok infos) (gs @ [g @ [i]])"
      using 2(4-6) g ne group_ok_snoc [OF _ eq] by (simp_all add: groups_last_def)
    ultimately show ?thesis
      using 2(1) [OF refl True, unfolded g butlast_snoc last_snoc] g by simp
  next
    case False
    then have "group_series infos (Some (si_labels (infos ! i))) (queries @ [query_of (si_labels (infos ! i))]) (groups @ [[i]]) is
        = (queries', groups')"
      using 2(3) by (auto simp: Let_def)
    moreover have "Some (si_labels (infos ! i)) = groups_last infos (groups @ [[i]])"
      "queries @ [query_of (si_labels (infos ! i))] = map (\<lambda>g. query_of (si_labels (infos ! hd g))) (groups @ [[i]])"
      "list_all (group_ok infos) (groups @ [[i]])"
      using 2(5,6) by (simp_all add: groups_last_def group_ok_single)
    ultimately show ?thesis
      using 2(2) [OF refl False] by simp
  qed
qed

lemma group_series_sorted:
  assumes "group_series infos lastSeen queries groups is = (queries', groups')"
    and "lastSeen = groups_last infos groups" and "list_all (\<lambda>g. g \<noteq> []) groups"
    and "sorted_wrt (<) (map (\<lambda>g. str_at infos (hd g)) groups)"
    and "sorted (map (str_at infos) is)"
    and "groups \<noteq> [] \<Longrightarrow> \<forall>i \<in> set is. str_at infos (hd (last groups)) \<le> str_at infos i"
  shows "sorted_wrt (<) (map (\<lambda>g. str_at infos (hd g)) groups')"
  using assms
proof (induction infos lastSeen queries groups "is" rule: group_series.induct)
  case (1 infos lastSeen queries groups)
  then show ?case by auto
next
  case (2 infos lastSeen queries groups i "is")
  show ?case
  proof (cases "lastSeen \<noteq> None \<and> labels_Equal (the lastSeen) (si_labels (infos ! i))")
    case True
    then obtain gs g where g: "groups = gs @ [g]"
      using 2(4) by (cases groups rule: rev_cases) (auto simp: groups_last_def)
    have ne: "g \<noteq> []" using 2(5) g by simp
    have "group_series infos lastSeen queries (gs @ [g @ [i]]) is = (queries', groups')"
      using 2(3) True g by (simp add: Let_def)
    moreover have "lastSeen = groups_last infos (gs @ [g @ [i]])" "list_all (\<lambda>g. g \<noteq> []) (gs @ [g @ [i]])"
      "sorted_wrt (<) (map (\<lambda>g. str_at infos (hd g)) (gs @ [g @ [i]]))" "sorted (map (str_at infos) is)"
      "\<forall>j \<in> set is. str_at infos (hd (g @ [i])) \<le> str_at infos j"
      using 2(4-8) g ne by (simp_all add: groups_last_def)
    ultimately show ?thesis
      using 2(1) [OF refl True, unfolded g butlast_snoc last_snoc] by blast
  next
    case False
    have gs: "group_series infos (Some (si_labels (infos ! i))) (queries @ [query_of (si_labels (infos ! i))]) (groups @ [[i]]) is
        = (queries', groups')"
      using 2(3) False by (auto simp: Let_def)
    have "str_at infos (hd g) < str_at infos i" if "g \<in> set groups" for g
    proof -
      have "groups \<noteq> []" using that by auto
      then have lt: "str_at infos (hd (last groups)) < str_at infos i"
        using False 2(4,8) by (auto simp: groups_last_def labels_Equal_def labels_String_def order.strict_iff_order)
      show ?thesis
      proof (cases "g = last groups")
        case False
        obtain hs h where "groups = hs @ [h]"
          using \<open>groups \<noteq> []\<close> by (cases groups rule: rev_cases) auto
        with that False 2(6) have "str_at infos (hd g) < str_at infos (hd (last groups))"
          by (auto simp: sorted_wrt_append)
        with lt show ?thesis by (rule order.strict_trans [rotated])
      qed (use lt in simp)
    qed
    then have "sorted_wrt (<) (map (\<lambda>g. str_at infos (hd g)) (groups @ [[i]]))"
      using 2(6) by (simp add: sorted_wrt_append)
    moreover have "Some (si_labels (infos ! i)) = groups_last infos (groups @ [[i]])"
      "list_all (\<lambda>g. g \<noteq> []) (groups @ [[i]])" "sorted (map (str_at infos) is)"
      "\<forall>j \<in> set is. str_at infos (hd (last (groups @ [[i]]))) \<le> str_at infos j"
      using 2(5,7) by (simp_all add: groups_last_def)
    ultimately show ?thesis
      using 2(2) [OF refl False gs] by blast
  qed
qed

lemma set_ids_nth:
  "\<forall>j \<in> set js. j < length infos \<Longrightarrow>
   length (set_ids series js infos) = length infos \<and>
   (\<forall>i < length infos. set_ids series js infos ! i =
      (if i \<in> set js then (infos ! i)\<lparr>si_seriesID := series\<rparr> else infos ! i))"
proof (induction js arbitrary: infos)
  case Nil
  then show ?case by (simp add: set_ids_def)
next
  case (Cons j js)
  let ?infos = "infos[j := (infos ! j)\<lparr>si_seriesID := series\<rparr>]"
  have "set_ids series (j # js) infos = set_ids series js ?infos" by (simp add: set_ids_def)
  moreover have "\<forall>k \<in> set js. k < length ?infos" using Cons.prems by simp
  ultimately show ?case using Cons.IH [of ?infos] Cons.prems by (auto simp: nth_list_update)
qed

definition reply_ok :: "(series_query \<Rightarrow> int) \<Rightarrow> series_query \<Rightarrow> batch_reply \<Rightarrow> bool" where
  "reply_ok idOf q r \<longleftrightarrow> (\<forall>t series. br_row r = Inr (t, series) \<longrightarrow> series = idOf q \<and> 0 \<le> series)"

lemma set_ids_resolved:
  assumes "group_ok infos g" and "\<forall>j \<in> set g. j < length infos" and "list_all (id_ok idOf) infos"
    and "series = idOf (query_of (si_labels (infos ! hd g)))" and "0 \<le> series"
  shows "map strip (set_ids series g infos) = map strip infos"
    and "list_all (id_ok idOf) (set_ids series g infos)"
    and "\<forall>j \<in> set g. resolved idOf (set_ids series g infos ! j)"
    and "\<forall>j < length infos. resolved idOf (infos ! j) \<longrightarrow> resolved idOf (set_ids series g infos ! j)"
proof -
  note n = set_ids_nth [OF assms(2), of series]
  have lab: "si_labels (infos ! j) = si_labels (infos ! hd g)" if "j \<in> set g" for j
  proof -
    have "hd g \<in> set g" using assms(1) by (simp add: group_ok_def)
    then have "labels_ok (si_labels (infos ! j))" "labels_ok (si_labels (infos ! hd g))"
      using that assms(2,3) by (auto simp: list_all_length id_ok_def)
    moreover have "l_str (si_labels (infos ! j)) = l_str (si_labels (infos ! hd g))"
      using assms(1) that unfolding group_ok_def labels_String_def by blast
    ultimately show ?thesis by (rule labels_ok_unique)
  qed
  show res: "\<forall>j \<in> set g. resolved idOf (set_ids series g infos ! j)"
    using n assms(2,4,5) by (auto simp: resolved_def lab)
  show "\<forall>j < length infos. resolved idOf (infos ! j) \<longrightarrow> resolved idOf (set_ids series g infos ! j)"
    using n res by auto
  show "map strip (set_ids series g infos) = map strip infos"
    by (rule nth_equalityI) (use n in \<open>auto simp: strip_def\<close>)
  have "id_ok idOf (set_ids series g infos ! j)" if "j < length infos" for j
  proof (cases "j \<in> set g")
    case True
    then have "resolved idOf (set_ids series g infos ! j)" using res by blast
    moreover have "labels_ok (si_labels (set_ids series g infos ! j))"
      using n that True assms(3) by (simp add: list_all_length id_ok_def)
    ultimately show ?thesis by (simp add: id_ok_def)
  next
    case False
    then show ?thesis using n that assms(3) by (simp add: list_all_length)
  qed
  then show "list_all (id_ok idOf) (set_ids series g infos)" using n by (simp add: list_all_length)
qed

lemma strip_labels: "map strip xs = map strip ys \<Longrightarrow> i < length xs \<Longrightarrow> si_labels (xs ! i) = si_labels (ys ! i)"
  by (metis (no_types, lifting) length_map nth_map prod.inject strip_def)

lemma group_ok_strip:
  assumes "map strip xs = map strip ys" and "\<forall>j \<in> set g. j < length xs" and "group_ok ys g"
  shows "group_ok xs g"
proof -
  have "hd g \<in> set g" using assms(3) by (simp add: group_ok_def)
  then show ?thesis
    using assms(3) strip_labels [OF assms(1)] assms(2) unfolding group_ok_def by metis
qed

lemma apply_replies_spec:
  assumes "apply_replies reply i gs tableName infos cache = (infos', cache', r)"
    and "list_all (group_ok infos) gs" and "\<forall>j \<in> set (concat gs). j < length infos"
    and "\<forall>k < length gs. reply_ok idOf (query_of (si_labels (infos ! hd (gs ! k)))) (reply (i + k))"
    and "list_all (id_ok idOf) infos" and "cache_ok idOf cache"
  shows "map strip infos' = map strip infos \<and> list_all (id_ok idOf) infos' \<and> cache_ok idOf cache' \<and>
    (\<forall>j < length infos. resolved idOf (infos ! j) \<longrightarrow> resolved idOf (infos' ! j)) \<and>
    ((\<exists>t. r = Inr t) \<longrightarrow> (\<forall>j \<in> set (concat gs). resolved idOf (infos' ! j)))"
  using assms
proof (induction gs arbitrary: i tableName infos cache)
  case Nil
  then show ?case by simp
next
  case (Cons g gs)
  note 2 = Cons.IH Cons.prems
  show ?case
  proof (cases "br_begin (reply i)")
    case (Some e)
    with 2(2) have "infos' = infos" "cache' = cache" "r = Inl e" by simp_all
    with 2(6,7) show ?thesis by simp
  next
    case None
    note begin_ok = None
    show ?thesis
    proof (cases "br_row (reply i)")
      case (Inl e)
      with 2(2) None have "infos' = infos" "cache' = cache" "r = Inl e" by simp_all
      with 2(6,7) show ?thesis by simp
    next
      case (Inr row)
      obtain t series where row: "row = (t, series)" by (cases row)
      let ?l = "si_labels (infos ! hd g)"
      have g: "group_ok infos g" "\<forall>j \<in> set g. j < length infos" using 2(3,4) by auto
      have hd: "hd g < length infos" using g by (simp add: group_ok_def)
      have rep: "reply_ok idOf (query_of ?l) (reply i)" using 2(5) by force
      have series: "series = idOf (query_of ?l)" "0 \<le> series"
        using rep Inr row by (simp_all add: reply_ok_def)
      define infos1 where "infos1 = set_ids series g infos"
      define cache1 where "cache1 = cache(labels_String ?l \<mapsto> series)"
      note ids = set_ids_resolved [OF g 2(6) series, folded infos1_def]
      have len: "length infos1 = length infos" using ids(1) by (metis length_map)
      have cache1: "cache_ok idOf cache1"
        using cache_ok_upd [OF 2(7)] 2(6) hd series by (simp add: cache1_def labels_String_def list_all_length id_ok_def)
      show ?thesis
      proof (cases "br_commit (reply i)")
        case (Some e)
        with begin_ok Inr row 2(2) have "infos' = infos1" "cache' = cache1" "r = Inl e"
          by (simp_all add: infos1_def cache1_def Let_def)
        then show ?thesis using ids cache1 by simp
      next
        case None
        with begin_ok Inr row 2(2) have ar: "apply_replies reply (Suc i) gs t infos1 cache1 = (infos', cache', r)"
          by (simp add: infos1_def cache1_def Let_def)
        have gs: "list_all (group_ok infos1) gs"
          unfolding list_all_iff
        proof
          fix g' assume g': "g' \<in> set gs"
          then have "\<forall>j \<in> set g'. j < length infos1" "group_ok infos g'"
            using 2(3,4) by (auto simp: len list_all_iff)
          then show "group_ok infos1 g'" by (rule group_ok_strip [OF ids(1)])
        qed
        have idx: "\<forall>j \<in> set (concat gs). j < length infos1" using 2(4) len by simp
        have rep': "\<forall>k < length gs. reply_ok idOf (query_of (si_labels (infos1 ! hd (gs ! k)))) (reply (Suc i + k))"
        proof (intro allI impI)
          fix k assume k: "k < length gs"
          then have "group_ok infos1 (gs ! k)" using gs by (simp add: list_all_length)
          then have "hd (gs ! k) \<in> set (gs ! k)" by (simp add: group_ok_def)
          then have "hd (gs ! k) < length infos1" using idx k by auto
          then have "si_labels (infos1 ! hd (gs ! k)) = si_labels (infos ! hd (gs ! k))"
            by (rule strip_labels [OF ids(1)])
          then show "reply_ok idOf (query_of (si_labels (infos1 ! hd (gs ! k)))) (reply (Suc i + k))"
            using 2(5) [rule_format, of "Suc k"] k by simp
        qed
        show ?thesis
          using 2(1) [OF ar gs idx rep' ids(2) cache1] ids g(2) by (auto simp: len)
      qed
    qed
  qed
qed

section \<open>What the database promises\<close>

text \<open>
  \<open>stored d\<close> is the set of (table, time, series) keys present in the database.  The hypotheses on the
  SQL functions: \<open>get_or_create_series_id_for_kv_array\<close> answers with the id of the label set,
  \<open>get_or_create_metric_table_name\<close> with the table of the metric, a successful
  \<open>INSERT ... ON CONFLICT DO NOTHING\<close> leaves every key present, and no operation removes one.
\<close>

definition db_ok ::
  "'d pgxConn \<Rightarrow> ('d \<Rightarrow> (string \<times> int \<times> int) set) \<Rightarrow> (series_query \<Rightarrow> int) \<Rightarrow> (string \<Rightarrow> string) \<Rightarrow> bool" where
  "db_ok conn stored idOf tableOf \<longleftrightarrow>
     (\<forall>d qs d' reply. pc_SendBatch conn d qs = (d', Inr reply) \<longrightarrow> (\<forall>k < length qs. reply_ok idOf (qs ! k) (reply k))) \<and>
     (\<forall>d table rows d' n. pc_InsertRows conn d table rows = (d', Inr n) \<longrightarrow>
        (\<forall>(t, v, series) \<in> set rows. (table, t, series) \<in> stored d')) \<and>
     (\<forall>d metric d' res t new ss. pc_CreateTable conn d metric = (d', Inr res) \<longrightarrow>
        row_scans res = Inr (t, new) # ss \<longrightarrow> t = tableOf metric) \<and>
     (\<forall>d qs. stored d \<subseteq> stored (fst (pc_SendBatch conn d qs))) \<and>
     (\<forall>d table rows. stored d \<subseteq> stored (fst (pc_InsertRows conn d table rows))) \<and>
     (\<forall>d table t. stored d \<subseteq> stored (fst (pc_DelayCompression conn d table t))) \<and>
     (\<forall>d table t. stored d \<subseteq> stored (fst (pc_DecompressAfter conn d table t))) \<and>
     (\<forall>d metric. stored d \<subseteq> stored (fst (pc_CreateTable conn d metric))) \<and>
     (\<forall>d. stored d \<subseteq> stored (fst (pc_FinalizeMetric conn d)))"

lemma db_ok_replies:
  "db_ok conn stored idOf tableOf \<Longrightarrow> pc_SendBatch conn d qs = (d', Inr reply) \<Longrightarrow> k < length qs \<Longrightarrow>
   reply_ok idOf (qs ! k) (reply k)"
  unfolding db_ok_def by (elim conjE) simp

lemma db_ok_insert:
  "db_ok conn stored idOf tableOf \<Longrightarrow> pc_InsertRows conn d table rows = (d', Inr n) \<Longrightarrow>
   (t, v, series) \<in> set rows \<Longrightarrow> (table, t, series) \<in> stored d'"
  unfolding db_ok_def by (elim conjE) fastforce

lemma db_ok_table:
  "db_ok conn stored idOf tableOf \<Longrightarrow> pc_CreateTable conn d metric = (d', Inr res) \<Longrightarrow>
   row_scans res = Inr (t, new) # ss \<Longrightarrow> t = tableOf metric"
  unfolding db_ok_def by (elim conjE) simp

lemma db_ok_mono:
  assumes "db_ok conn stored idOf tableOf"
  shows "pc_SendBatch conn d qs = (d', r1) \<Longrightarrow> stored d \<subseteq> stored d'"
    and "pc_InsertRows conn d table rows = (d', r2) \<Longrightarrow> stored d \<subseteq> stored d'"
    and "pc_DelayCompression conn d table t = (d', r3) \<Longrightarrow> stored d \<subseteq> stored d'"
    and "pc_DecompressAfter conn d table t = (d', r4) \<Longrightarrow> stored d \<subseteq> stored d'"
    and "pc_CreateTable conn d metric = (d', r5) \<Longrightarrow> stored d \<subseteq> stored d'"
    and "pc_FinalizeMetric conn d = (d', r6) \<Longrightarrow> stored d \<subseteq> stored d'"
  using assms unfolding db_ok_def by (metis fst_conv)+

lemma missing_series_set: "set (missing_series infos) = {i. i < length infos \<and> si_seriesID (infos ! i) < 0}"
  by (auto simp: missing_series_def)

lemma missing_series_distinct: "distinct (missing_series infos)"
  by (simp add: missing_series_def)

lemma missing_series_sorted: "sorted (map (str_at infos) (missing_series infos))"
  by (simp add: missing_series_def)

lemma missing_groups:
  assumes "group_series infos None [] [] (missing_series infos) = (queries, groups)"
  shows "concat groups = missing_series infos" "list_all (group_ok infos) groups"
    "queries = map (\<lambda>g. query_of (si_labels (infos ! hd g))) groups"
    "sorted_wrt (<) (map (\<lambda>g. str_at infos (hd g)) groups)"
proof -
  show "concat groups = missing_series infos" "list_all (group_ok infos) groups"
    "queries = map (\<lambda>g. query_of (si_labels (infos ! hd g))) groups"
    using group_series_spec [OF assms] by (simp_all add: groups_last_def)
  show "sorted_wrt (<) (map (\<lambda>g. str_at infos (hd g)) groups)"
    using group_series_sorted [OF assms] by (simp add: groups_last_def missing_series_sorted)
qed

lemma setSeriesIds_spec:
  assumes "setSeriesIds conn cache infos d = (d', infos', cache', r)"
    and db: "db_ok conn stored idOf tableOf"
    and ok: "list_all (id_ok idOf) infos" "cache_ok idOf cache"
  shows "map strip infos' = map strip infos \<and> list_all (id_ok idOf) infos' \<and> cache_ok idOf cache' \<and>
    stored d \<subseteq> stored d' \<and> ((\<exists>t. r = Inr t) \<longrightarrow> list_all (resolved idOf) infos')"
proof -
  obtain infos1 n where f: "fillKnowSeriesIds cache infos = (infos1, n)" by force
  note fill = fillKnow_spec [OF ok(2,1), unfolded f fst_conv snd_conv]
  show ?thesis
  proof (cases "n = 0")
    case True
    with assms(1) f have "infos' = infos1" "cache' = cache" "d' = d" by (simp_all add: setSeriesIds_def)
    with fill True ok(2) show ?thesis by simp
  next
    case False
    obtain queries groups where g: "group_series infos1 None [] [] (missing_series infos1) = (queries, groups)" by force
    note mg = missing_groups [OF g]
    obtain d1 br where sb: "pc_SendBatch conn d queries = (d1, br)" by force
    have mono: "stored d \<subseteq> stored d1" using db_ok_mono(1) [OF db sb] .
    show ?thesis
    proof (cases br)
      case (Inl e)
      with assms(1) f False g sb have "infos' = infos1" "cache' = cache" "d' = d1" "r = Inl e"
        by (simp_all add: setSeriesIds_def)
      with fill ok(2) mono show ?thesis by simp
    next
      case (Inr reply)
      have rep: "\<forall>k < length groups. reply_ok idOf (query_of (si_labels (infos1 ! hd (groups ! k)))) (reply (0 + k))"
        using db_ok_replies [OF db sb [unfolded Inr]] mg(3) by simp
      have ar: "apply_replies reply 0 groups '''' infos1 cache = (infos', cache', r)" and d': "d' = d1"
        using assms(1) f False g sb Inr mg(3) by (auto simp: setSeriesIds_def split: prod.splits)
      have idx: "\<forall>j \<in> set (concat groups). j < length infos1"
        unfolding mg(1) by (simp add: missing_series_set)
      note spec = apply_replies_spec [OF ar mg(2) idx rep fill(2) ok(2)]
      have "resolved idOf (infos' ! j)" if "j < length infos'" "\<exists>t. r = Inr t" for j
      proof -
        have len: "length infos' = length infos1" using spec by (metis length_map)
        show ?thesis
        proof (cases "si_seriesID (infos1 ! j) < 0")
          case True
          then have "j \<in> set (concat groups)" unfolding mg(1) using that(1) len by (simp add: missing_series_set)
          then show ?thesis using spec that(2) by blast
        next
          case False
          then have "resolved idOf (infos1 ! j)"
            using fill(2) that(1) len by (fastforce simp: list_all_length id_ok_def)
          then show ?thesis using spec that(1) len by simp
        qed
      qed
      then show ?thesis using spec fill(1) mono d' by (simp add: list_all_length)
    qed
  qed
qed

section \<open>Answering requests\<close>

abbreviation task :: "nat \<Rightarrow> insertDataTask" where
  "task g \<equiv> \<lparr>tk_finished = Some g, tk_errChan = Some g\<rparr>"

text \<open>
  The tasks of a buffer can be answered: each belongs to a call whose error channel is open and
  whose wait group still counts it.
\<close>

definition answerable :: "insertDataTask list \<Rightarrow> acks \<Rightarrow> bool" where
  "answerable ts a \<longleftrightarrow>
     (\<forall>t \<in> set ts. \<exists>g. t = task g \<and> \<not> ak_closed a g) \<and>
     (\<forall>g. int (count (mset ts) (task g)) \<le> ak_wg a g)"

text \<open>The effect of answering them all with \<open>err\<close>.\<close>

definition answered :: "go_error option \<Rightarrow> insertDataTask list \<Rightarrow> acks \<Rightarrow> acks \<Rightarrow> bool" where
  "answered err ts a a' \<longleftrightarrow>
     (\<forall>g. ak_wg a' g = ak_wg a g - int (count (mset ts) (task g))) \<and> ak_closed a' = ak_closed a \<and>
     (\<forall>g. ak_err a g \<noteq> None \<longrightarrow> ak_err a' g \<noteq> None) \<and>
     (\<forall>g. task g \<in> set ts \<and> err \<noteq> None \<longrightarrow> ak_err a' g \<noteq> None)"

lemma answered_Nil: "answered err [] a a"
  by (simp add: answered_def)

lemma answer_one:
  assumes "\<not> ak_closed a g" and "0 < ak_wg a g"
  shows "\<exists>a1 a2. (case err of Some e \<Rightarrow> try_send (Some g) e a | None \<Rightarrow> Return a) = Return a1 \<and>
    wg_Done (Some g) a1 = Return a2 \<and> answered err [task g] a a2"
proof -
  define a1 where "a1 = (if err = None \<or> ak_err a g \<noteq> None then a else a\<lparr>ak_err := (ak_err a)(g := err)\<rparr>)"
  have "(case err of Some e \<Rightarrow> try_send (Some g) e a | None \<Rightarrow> Return a) = Return a1"
    using assms(1) by (auto simp: a1_def try_send_def split: option.splits)
  moreover have "wg_Done (Some g) a1 = Return (a1\<lparr>ak_wg := (ak_wg a1)(g := ak_wg a1 g - 1)\<rparr>)"
    using assms(2) by (simp add: a1_def wg_Done_def)
  moreover have "answered err [task g] a (a1\<lparr>ak_wg := (ak_wg a1)(g := ak_wg a1 g - 1)\<rparr>)"
    by (simp add: a1_def answered_def)
  ultimately show ?thesis by blast
qed

lemma answered_append:
  assumes "answered err ts a a1" and "answered err us a1 a2"
  shows "answered err (ts @ us) a a2"
proof -
  have "ak_err a2 g \<noteq> None" if "task g \<in> set (ts @ us)" "err \<noteq> None" for g
    using that assms unfolding answered_def by (metis Un_iff set_append)
  then show ?thesis using assms by (auto simp: answered_def)
qed

lemma answerable_Cons:
  assumes "answerable (task g # ts) a" and "answered err [task g] a a1"
  shows "answerable ts a1"
proof -
  have "int (count (mset ts) (task h)) \<le> ak_wg a1 h" for h
  proof -
    have "int (count (mset (task g # ts)) (task h)) \<le> ak_wg a h"
      using assms(1) unfolding answerable_def by blast
    moreover have "ak_wg a1 h = ak_wg a h - int (count (mset [task g]) (task h))"
      using assms(2) unfolding answered_def by blast
    ultimately show ?thesis by (simp split: if_splits)
  qed
  then show ?thesis using assms by (simp add: answerable_def answered_def)
qed

lemma report_tasks_answers:
  "answerable ts a \<Longrightarrow> \<exists>a'. report_tasks err ts a = Return a' \<and> answered err ts a a'"
proof (induction ts arbitrary: a)
  case Nil
  then show ?case by (simp add: answered_Nil)
next
  case (Cons t ts)
  obtain g where g: "t = task g" "\<not> ak_closed a g"
    using Cons.prems by (auto simp: answerable_def)
  have "int (count (mset (t # ts)) (task g)) \<le> ak_wg a g"
    using Cons.prems unfolding answerable_def by blast
  then have "0 < ak_wg a g" using g(1) by simp
  from answer_one [OF g(2) this, of err] obtain a1 a2 where a2:
    "(case err of Some e \<Rightarrow> try_send (Some g) e a | None \<Rightarrow> Return a) = Return a1"
    "wg_Done (Some g) a1 = Return a2" "answered err [task g] a a2" by blast
  obtain a' where "report_tasks err ts a2 = Return a'" "answered err ts a2 a'"
    using Cons.IH [OF answerable_Cons [OF Cons.prems [unfolded g(1)] a2(3)]] by blast
  with a2 g(1) answered_append [OF a2(3)] show ?case by (simp cong: option.case_cong)
qed


section \<open>Buffers\<close>

definition buffer_ok :: "(series_query \<Rightarrow> int) \<Rightarrow> pendingBuffer \<Rightarrow> bool" where
  "buffer_ok idOf p \<longleftrightarrow>
     pb_batch p = ResetPosition (zero_iterator (it_sampleInfos (pb_batch p))) \<and>
     no_empty (it_sampleInfos (pb_batch p)) \<and> list_all (id_ok idOf) (it_sampleInfos (pb_batch p)) \<and>
     (pb_needsResponse p \<noteq> [] \<longrightarrow> it_sampleInfos (pb_batch p) \<noteq> [])"

definition buffer_series :: "pendingBuffer \<Rightarrow> (Labels \<times> sample slice) list" where
  "buffer_series p = map strip (it_sampleInfos (pb_batch p))"

lemma it_sampleInfos_simps [simp]:
  "it_sampleInfos (ResetPosition t) = it_sampleInfos t" "it_sampleInfos (zero_iterator xs) = xs"
  by (simp_all add: ResetPosition_def zero_iterator_def)

lemma reset_zero: "ResetPosition b = ResetPosition (zero_iterator (it_sampleInfos b))"
  by (cases b) (simp add: ResetPosition_def zero_iterator_def)

lemma new_buffer_ok: "buffer_ok idOf new_pendingBuffer"
  by (simp add: buffer_ok_def new_pendingBuffer_def NewSampleInfoIterator_def ResetPosition_def
      zero_iterator_def no_empty_def)

lemma new_buffer_empty: "buffer_series new_pendingBuffer = []" "pb_needsResponse new_pendingBuffer = []"
  by (simp_all add: buffer_series_def new_pendingBuffer_def NewSampleInfoIterator_def ResetPosition_def
      zero_iterator_def)

lemma no_empty_strip: "map strip xs = map strip ys \<Longrightarrow> no_empty xs = no_empty ys"
proof -
  assume "map strip xs = map strip ys"
  then have "map (sl_elems \<circ> snd) (map strip xs) = map (sl_elems \<circ> snd) (map strip ys)" by simp
  then have "map samples_of xs = map samples_of ys" by (simp add: strip_def comp_def)
  then have "list_all (\<lambda>s. s \<noteq> []) (map samples_of xs) = list_all (\<lambda>s. s \<noteq> []) (map samples_of ys)" by simp
  then show ?thesis by (simp add: no_empty_def list.pred_map comp_def)
qed

lemma reportResults_answers:
  assumes "answerable (pb_needsResponse p) a"
  shows "\<exists>a'. reportResults p err a = Return (new_pendingBuffer, a') \<and> answered err (pb_needsResponse p) a a'"
  using report_tasks_answers [OF assms, of err]
  by (auto simp: reportResults_def new_pendingBuffer_def NewSampleInfoIterator_def)

text \<open>The keys that a buffer must leave in the database.\<close>

definition series_keys :: "'d pgxConn \<Rightarrow> (series_query \<Rightarrow> int) \<Rightarrow> string \<Rightarrow> Labels \<times> sample slice \<Rightarrow> (string \<times> int \<times> int) set" where
  "series_keys conn idOf table s =
     (\<lambda>x. (table, pc_toTime conn (s_Timestamp x), idOf (query_of (fst s)))) ` set (sl_elems (snd s))"

lemma rows_keys:
  assumes "list_all (resolved idOf) infos" and "s \<in> set infos" and "k \<in> series_keys conn idOf table (strip s)"
  shows "\<exists>v. (fst (snd k), v, snd (snd k)) \<in> set (map (row_of (pc_toTime conn)) (all_pairs infos)) \<and> fst k = table"
proof -
  obtain x where x: "x \<in> set (samples_of s)" "k = (table, pc_toTime conn (s_Timestamp x), idOf (query_of (si_labels s)))"
    using assms(3) by (auto simp: series_keys_def strip_def)
  have "(x, si_seriesID s) \<in> set (all_pairs infos)"
    using assms(2) x(1) by (auto simp: all_pairs_def sample_pairs_def)
  then have "(pc_toTime conn (s_Timestamp x), s_Value x, si_seriesID s) \<in> set (map (row_of (pc_toTime conn)) (all_pairs infos))"
    by (force simp: row_of_def)
  moreover have "si_seriesID s = idOf (query_of (si_labels s))"
    using assms(1,2) by (auto simp: list_all_iff resolved_def)
  ultimately show ?thesis using x(2) by auto
qed

section \<open>A copier round\<close>

lemma doInsert_spec:
  assumes "buffer_ok idOf (cr_data req)"
  shows "\<exists>batch d' err. doInsert conn req d = Return (req\<lparr>cr_data := (cr_data req)\<lparr>pb_batch := batch\<rparr>\<rparr>, d', err) \<and>
    it_sampleInfos batch = it_sampleInfos (pb_batch (cr_data req)) \<and>
    (db_ok conn stored idOf tableOf \<longrightarrow> stored d \<subseteq> stored d' \<and>
      (err = None \<and> list_all (resolved idOf) (it_sampleInfos (pb_batch (cr_data req))) \<longrightarrow>
        (\<forall>s \<in> set (buffer_series (cr_data req)). series_keys conn idOf (cr_table req) s \<subseteq> stored d')))"
proof -
  let ?infos = "it_sampleInfos (pb_batch (cr_data req))"
  let ?rows = "map (row_of (pc_toTime conn)) (all_pairs ?infos)"
  have reset: "pb_batch (cr_data req) = ResetPosition (zero_iterator ?infos)" "no_empty ?infos"
    using assms by (simp_all add: buffer_ok_def)
  have z: "it_sampleInfos (zero_iterator xs) = xs" for xs by (simp add: zero_iterator_def)
  obtain batch where dr: "drain (pc_toTime conn) (pb_batch (cr_data req)) = Return (batch, ?rows)"
    "it_sampleInfos batch = ?infos"
    using drain_reset [of "zero_iterator ?infos" "pc_toTime conn"] reset unfolding z by metis
  obtain d' r where ins: "pc_InsertRows conn d (cr_table req) ?rows = (d', r)" by force
  define err where "err = (case r of Inl e \<Rightarrow> Some e | Inr _ \<Rightarrow> None)"
  have "doInsert conn req d = Return (req\<lparr>cr_data := (cr_data req)\<lparr>pb_batch := batch\<rparr>\<rparr>, d', err)"
    using dr(1) ins by (simp add: doInsert_def length_all_pairs Let_def err_def split: sum.splits)
  moreover have "series_keys conn idOf (cr_table req) s \<subseteq> stored d'"
    if db: "db_ok conn stored idOf tableOf" and e: "err = None" and res: "list_all (resolved idOf) ?infos"
      and s: "s \<in> set (buffer_series (cr_data req))" for s
  proof
    fix k assume k: "k \<in> series_keys conn idOf (cr_table req) s"
    obtain s0 where s0: "s0 \<in> set ?infos" "s = strip s0" using s by (auto simp: buffer_series_def)
    obtain v where v: "(fst (snd k), v, snd (snd k)) \<in> set ?rows" "fst k = cr_table req"
      using rows_keys [OF res s0(1) k [unfolded s0(2)]] by blast
    obtain n where "r = Inr n" using e by (cases r) (simp_all add: err_def)
    with ins have "pc_InsertRows conn d (cr_table req) ?rows = (d', Inr n)" by simp
    from db_ok_insert [OF db this v(1)] have "(fst k, fst (snd k), snd (snd k)) \<in> stored d'" unfolding v(2) .
    then show "k \<in> stored d'" by simp
  qed
  moreover have "db_ok conn stored idOf tableOf \<longrightarrow> stored d \<subseteq> stored d'"
    by (intro impI) (rule db_ok_mono(2) [OF _ ins])
  ultimately show ?thesis using dr(2)
    by (intro exI [of _ batch] exI [of _ d'] exI [of _ err]) auto
qed

lemma decompressChunks_mono:
  assumes "db_ok conn stored idOf tableOf" and "decompressChunks conn p table d = (d', err)"
  shows "stored d \<subseteq> stored d'"
proof -
  let ?min = "pc_toTime conn (it_minSeen (pb_batch p))"
  obtain d1 e1 where 1: "pc_DelayCompression conn d table (pc_Now conn d + delay_by (pc_Now conn d) ?min) = (d1, e1)" by force
  obtain d2 e2 where 2: "pc_DecompressAfter conn d1 table ?min = (d2, e2)" by force
  have "stored d \<subseteq> stored d1" "stored d1 \<subseteq> stored d2"
    using db_ok_mono(3) [OF assms(1) 1] db_ok_mono(4) [OF assms(1) 2] .
  with assms(2) 1 2 show ?thesis
    by (auto simp: decompressChunks_def Let_def split: option.splits)
qed

lemma tryRecovery_cases:
  assumes "tryRecovery conn req err d = (req', d', r)"
  shows "(r = None \<and> (\<exists>d0. decompressChunks conn (cr_data req) (cr_table req) d = (d', None)) \<and>
      req' = req\<lparr>cr_data := (cr_data req)\<lparr>pb_batch := ResetPosition (pb_batch (cr_data req))\<rparr>\<rparr>) \<or>
    (r = Some err \<and> req' = req \<and> (d' = d \<or> (\<exists>e. decompressChunks conn (cr_data req) (cr_table req) d = (d', Some e))))"
  using assms by (auto simp: tryRecovery_def split: go_error.splits if_splits prod.splits option.splits)

definition round_stores ::
  "'d pgxConn \<Rightarrow> ('d \<Rightarrow> (string \<times> int \<times> int) set) \<Rightarrow> (series_query \<Rightarrow> int) \<Rightarrow> copyRequest \<Rightarrow> 'd \<Rightarrow> bool" where
  "round_stores conn stored idOf req d \<longleftrightarrow>
     (\<forall>s \<in> set (buffer_series (cr_data req)). series_keys conn idOf (cr_table req) s \<subseteq> stored d)"

lemma copier_insert:
  assumes db: "db_ok conn stored idOf tableOf" and buf: "buffer_ok idOf (cr_data req)"
    and res: "list_all (resolved idOf) (it_sampleInfos (pb_batch (cr_data req)))"
  shows "\<exists>req1 d1 err1 req2 d2 err2. doInsert conn req d = Return (req1, d1, err1) \<and>
    (case err1 of None \<Rightarrow> Return (req1, d1, None) | Some e \<Rightarrow> insertErrorFallback conn req1 e d1) = Return (req2, d2, err2) \<and>
    pb_needsResponse (cr_data req2) = pb_needsResponse (cr_data req) \<and> stored d \<subseteq> stored d2 \<and>
    (err2 = None \<longrightarrow> round_stores conn stored idOf req d2)"
proof -
  obtain batch d1 err1 where
    i1: "doInsert conn req d = Return (req\<lparr>cr_data := (cr_data req)\<lparr>pb_batch := batch\<rparr>\<rparr>, d1, err1)"
    and b1: "it_sampleInfos batch = it_sampleInfos (pb_batch (cr_data req))"
    and s1: "stored d \<subseteq> stored d1" "err1 = None \<longrightarrow> round_stores conn stored idOf req d1"
    using doInsert_spec [OF buf, of conn d stored tableOf] db res unfolding round_stores_def by blast
  define req1 where "req1 = req\<lparr>cr_data := (cr_data req)\<lparr>pb_batch := batch\<rparr>\<rparr>"
  show ?thesis
  proof (cases err1)
    case None
    with i1 s1 show ?thesis by auto
  next
    case (Some e)
    obtain req2 d2 r where tr: "tryRecovery conn req1 e d1 = (req2, d2, r)" by (metis prod_cases3)
    note tc = tryRecovery_cases [OF tr]
    have m2: "stored d1 \<subseteq> stored d2"
      using tc decompressChunks_mono [OF db] by (metis order_refl)
    show ?thesis
    proof (cases r)
      case (Some e')
      with tc have "req2 = req1" by auto
      with i1 tr Some \<open>err1 = Some e\<close> s1(1) m2 show ?thesis
        by (auto simp: insertErrorFallback_def req1_def)
    next
      case None
      with tc have req2: "req2 = req1\<lparr>cr_data := (cr_data req1)\<lparr>pb_batch := ResetPosition (pb_batch (cr_data req1))\<rparr>\<rparr>"
        by auto
      let ?infos = "it_sampleInfos (pb_batch (cr_data req))"
      have same: "it_sampleInfos (pb_batch (cr_data req2)) = ?infos" "cr_table req2 = cr_table req"
        "pb_needsResponse (cr_data req2) = pb_needsResponse (cr_data req)"
        by (simp_all add: req2 req1_def b1 ResetPosition_def)
      have "buffer_ok idOf (cr_data req2)"
        using buf same(1) reset_zero [of batch] b1 by (simp add: buffer_ok_def) (simp add: req2 req1_def)
      from doInsert_spec [OF this, of conn d2 stored tableOf] db res same
      obtain batch3 d3 err3 where i3:
        "doInsert conn req2 d2 = Return (req2\<lparr>cr_data := (cr_data req2)\<lparr>pb_batch := batch3\<rparr>\<rparr>, d3, err3)"
        "stored d2 \<subseteq> stored d3" "err3 = None \<longrightarrow> round_stores conn stored idOf req d3"
        unfolding round_stores_def buffer_series_def by auto
      have "insertErrorFallback conn req1 e d1 =
          Return (req2\<lparr>cr_data := (cr_data req2)\<lparr>pb_batch := batch3\<rparr>\<rparr>, d3, err3)"
        using tr None i3(1) by (simp add: insertErrorFallback_def)
      moreover have "stored d \<subseteq> stored d3" using s1(1) m2 i3(2) by blast
      ultimately show ?thesis
        using i1 \<open>err1 = Some e\<close> same(3) i3(3) by (simp add: req1_def [symmetric])
    qed
  qed
qed

lemma copier_round_spec:
  assumes "db_ok conn stored idOf tableOf" and "buffer_ok idOf (cr_data req)"
    and "list_all (resolved idOf) (it_sampleInfos (pb_batch (cr_data req)))"
    and "answerable (pb_needsResponse (cr_data req)) (sh_acks sh)"
  shows "\<exists>d a err. copier_round conn req sh =
      Return (sh\<lparr>sh_db := d, sh_acks := a, sh_pool := new_pendingBuffer # sh_pool sh\<rparr>) \<and>
    answered err (pb_needsResponse (cr_data req)) (sh_acks sh) a \<and> stored (sh_db sh) \<subseteq> stored d \<and>
    (err = None \<longrightarrow> round_stores conn stored idOf req d)"
proof -
  obtain req1 d1 err1 req2 d2 err2 where ci: "doInsert conn req (sh_db sh) = Return (req1, d1, err1)"
    "(case err1 of None \<Rightarrow> Return (req1, d1, None) | Some e \<Rightarrow> insertErrorFallback conn req1 e d1) = Return (req2, d2, err2)"
    "pb_needsResponse (cr_data req2) = pb_needsResponse (cr_data req)" "stored (sh_db sh) \<subseteq> stored d2"
    "err2 = None \<longrightarrow> round_stores conn stored idOf req d2"
    using copier_insert [OF assms(1-3), of "sh_db sh"] by blast
  obtain a where "reportResults (cr_data req2) err2 (sh_acks sh) = Return (new_pendingBuffer, a)"
    "answered err2 (pb_needsResponse (cr_data req)) (sh_acks sh) a"
    using reportResults_answers [of "cr_data req2" "sh_acks sh" err2] assms(4) ci(3) by auto
  with ci show ?thesis unfolding copier_round_def by auto
qed

section \<open>The handler\<close>

definition handler_ok :: "(series_query \<Rightarrow> int) \<Rightarrow> string \<Rightarrow> insertHandler \<Rightarrow> bool" where
  "handler_ok idOf table h \<longleftrightarrow>
     buffer_ok idOf (ih_pending h) \<and> cache_ok idOf (ih_seriesCache h) \<and> ih_metricTableName h = table"

definition pool_ok :: "pendingBuffer list \<Rightarrow> bool" where
  "pool_ok pool \<longleftrightarrow> (\<forall>p \<in> set pool. p = new_pendingBuffer)"

definition queued_ok :: "(series_query \<Rightarrow> int) \<Rightarrow> copyRequest \<Rightarrow> bool" where
  "queued_ok idOf q \<longleftrightarrow> buffer_ok idOf (cr_data q) \<and> list_all (resolved idOf) (it_sampleInfos (pb_batch (cr_data q)))"

lemma pool_Get_ok: "pool_ok pool \<Longrightarrow> \<exists>pool'. pool_Get pool = (new_pendingBuffer, pool') \<and> pool_ok pool'"
  by (cases pool) (simp_all add: pool_Get_def pool_ok_def)

text \<open>
  What may become of the tasks \<open>ts\<close> and series \<open>xs\<close> that a handler has collected: it keeps them, it
  sends them to the copiers with their ids, or it answers the tasks with an error.
\<close>

definition kept_by where
  "kept_by ts xs sh h' sh' \<longleftrightarrow>
     pb_needsResponse (ih_pending h') = ts \<and> buffer_series (ih_pending h') = xs \<and>
     sh_acks sh' = sh_acks sh \<and> sh_toCopiers sh' = sh_toCopiers sh"

definition sent_by where
  "sent_by idOf table ts xs sh h' sh' \<longleftrightarrow>
     ih_pending h' = new_pendingBuffer \<and> sh_acks sh' = sh_acks sh \<and>
     (\<exists>q. sh_toCopiers sh' = sh_toCopiers sh @ [q] \<and> queued_ok idOf q \<and> cr_table q = table \<and>
        pb_needsResponse (cr_data q) = ts \<and> buffer_series (cr_data q) = xs)"

definition failed_by where
  "failed_by ts sh h' sh' \<longleftrightarrow>
     ih_pending h' = new_pendingBuffer \<and> sh_toCopiers sh' = sh_toCopiers sh \<and>
     (\<exists>e. answered (Some e) ts (sh_acks sh) (sh_acks sh'))"

definition handler_eff ::
  "('d \<Rightarrow> (string \<times> int \<times> int) set) \<Rightarrow> (series_query \<Rightarrow> int) \<Rightarrow> string \<Rightarrow> insertDataTask list \<Rightarrow> (Labels \<times> sample slice) list \<Rightarrow>
   'd shared \<Rightarrow> insertHandler \<Rightarrow> 'd shared \<Rightarrow> bool" where
  "handler_eff stored idOf table ts xs sh h' sh' \<longleftrightarrow>
     handler_ok idOf table h' \<and> pool_ok (sh_pool sh') \<and> \<not> sh_copiersClosed sh' \<and> stored (sh_db sh) \<subseteq> stored (sh_db sh') \<and>
     (kept_by ts xs sh h' sh' \<or> sent_by idOf table ts xs sh h' sh' \<or> failed_by ts sh h' sh')"

lemma flushPending_eff:
  assumes db: "db_ok conn stored idOf tableOf" and h: "handler_ok idOf table h" and pool: "pool_ok (sh_pool sh)" "\<not> sh_copiersClosed sh"
    and ans: "answerable (pb_needsResponse (ih_pending h)) (sh_acks sh)"
  shows "\<exists>h' sh'. flushPending conn h sh = Return (h', sh') \<and> ih_pending h' = new_pendingBuffer \<and>
    handler_eff stored idOf table (pb_needsResponse (ih_pending h)) (buffer_series (ih_pending h)) sh h' sh'"
proof -
  let ?b = "pb_batch (ih_pending h)"
  obtain d infos cache r where s: "setSeriesIds conn (ih_seriesCache h) (it_sampleInfos ?b) (sh_db sh) = (d, infos, cache, r)"
    by (metis prod_cases4)
  have ok: "buffer_ok idOf (ih_pending h)" "cache_ok idOf (ih_seriesCache h)" "ih_metricTableName h = table"
    using h by (simp_all add: handler_ok_def)
  have ids: "list_all (id_ok idOf) (it_sampleInfos ?b)" using ok(1) by (simp add: buffer_ok_def)
  from setSeriesIds_spec [OF s db ids ok(2)]
  have sp: "map strip infos = map strip (it_sampleInfos ?b)" "list_all (id_ok idOf) infos" "cache_ok idOf cache"
    "stored (sh_db sh) \<subseteq> stored d" "(\<exists>t. r = Inr t) \<longrightarrow> list_all (resolved idOf) infos" by blast+
  define p where "p = (ih_pending h)\<lparr>pb_batch := ?b\<lparr>it_sampleInfos := infos\<rparr>\<rparr>"
  have p: "pb_needsResponse p = pb_needsResponse (ih_pending h)" "it_sampleInfos (pb_batch p) = infos"
    "buffer_series p = buffer_series (ih_pending h)"
    by (simp_all add: p_def buffer_series_def sp(1))
  have reset: "?b = ResetPosition (zero_iterator (it_sampleInfos ?b))" using ok(1) by (simp add: buffer_ok_def)
  have "pb_batch p = ResetPosition (zero_iterator infos)"
    unfolding p_def by (subst reset) (simp add: ResetPosition_def zero_iterator_def)
  then have bp: "buffer_ok idOf p"
    using ok(1) no_empty_strip [OF sp(1)] sp(2) arg_cong [OF sp(1), of length]
    by (auto simp: buffer_ok_def p(1,2))
  show ?thesis
  proof (cases r)
    case (Inl e)
    obtain a where "reportResults p (Some e) (sh_acks sh) = Return (new_pendingBuffer, a)"
      "answered (Some e) (pb_needsResponse p) (sh_acks sh) a"
      using reportResults_answers [of p "sh_acks sh" "Some e"] ans p(1) by auto
    with s Inl p sp pool ok(3) show ?thesis
      by (auto simp: flushPending_def Let_def p_def [symmetric] handler_eff_def failed_by_def handler_ok_def new_buffer_ok)
  next
    case (Inr t)
    obtain pool' where "pool_Get (sh_pool sh) = (new_pendingBuffer, pool')" "pool_ok pool'"
      using pool_Get_ok [OF pool(1)] by blast
    with s Inr p sp ok(3) bp pool(2) show ?thesis
      by (auto simp: flushPending_def Let_def p_def [symmetric] handler_eff_def sent_by_def handler_ok_def new_buffer_ok queued_ok_def)
  qed
qed

definition request_ok :: "(series_query \<Rightarrow> int) \<Rightarrow> insertDataRequest \<Rightarrow> bool" where
  "request_ok idOf req \<longleftrightarrow> rq_data req \<noteq> [] \<and> no_empty (rq_data req) \<and> list_all (id_ok idOf) (rq_data req) \<and>
     (\<exists>g. rq_finished req = Some g \<and> rq_errChan req = Some g)"

definition request_task :: "insertDataRequest \<Rightarrow> insertDataTask" where
  "request_task req = \<lparr>tk_finished = rq_finished req, tk_errChan = rq_errChan req\<rparr>"

lemma buffer_add:
  assumes "buffer_ok idOf p" and "no_empty infos" and "list_all (id_ok idOf) infos" and "infos \<noteq> []"
  shows "buffer_ok idOf \<lparr>pb_needsResponse = ts, pb_batch = (pb_batch p)\<lparr>it_sampleInfos := it_sampleInfos (pb_batch p) @ infos\<rparr>\<rparr>"
proof -
  have reset: "pb_batch p = ResetPosition (zero_iterator (it_sampleInfos (pb_batch p)))"
    using assms(1) by (simp add: buffer_ok_def)
  have "(pb_batch p)\<lparr>it_sampleInfos := xs\<rparr> = ResetPosition (zero_iterator xs)" for xs
    by (subst reset) (simp add: ResetPosition_def zero_iterator_def)
  with assms show ?thesis
    by (simp add: buffer_ok_def no_empty_def)
qed

lemma handleReq_eff:
  assumes db: "db_ok conn stored idOf tableOf" and h: "handler_ok idOf table h" and pool: "pool_ok (sh_pool sh)" "\<not> sh_copiersClosed sh"
    and req: "request_ok idOf req"
    and ans: "answerable (pb_needsResponse (ih_pending h) @ [request_task req]) (sh_acks sh)"
  shows "\<exists>h' sh' b. handleReq conn h req sh = Return (h', sh', b) \<and>
    (b \<longrightarrow> ih_pending h' = new_pendingBuffer) \<and>
    (\<not> b \<longrightarrow> sh' = sh \<and> kept_by (pb_needsResponse (ih_pending h) @ [request_task req])
       (buffer_series (ih_pending h) @ map strip (rq_data req)) sh h' sh') \<and>
    handler_eff stored idOf table (pb_needsResponse (ih_pending h) @ [request_task req])
      (buffer_series (ih_pending h) @ map strip (rq_data req)) sh h' sh'"
proof -
  have ok: "buffer_ok idOf (ih_pending h)" "cache_ok idOf (ih_seriesCache h)" "ih_metricTableName h = table"
    using h by (simp_all add: handler_ok_def)
  have rq: "no_empty (rq_data req)" "list_all (id_ok idOf) (rq_data req)" "rq_data req \<noteq> []"
    using req by (simp_all add: request_ok_def)
  define infos where "infos = fst (fillKnowSeriesIds (ih_seriesCache h) (rq_data req))"
  have fill: "map strip infos = map strip (rq_data req)" "list_all (id_ok idOf) infos"
    using fillKnow_spec(1,2) [OF ok(2) rq(2)] by (simp_all add: infos_def)
  have ne: "no_empty infos" using no_empty_strip [OF fill(1)] rq(1) by simp
  have nonempty': "infos \<noteq> []" using fill(1) rq(3) by auto
  define p where "p = \<lparr>pb_needsResponse = pb_needsResponse (ih_pending h) @ [request_task req],
    pb_batch = (pb_batch (ih_pending h))\<lparr>it_sampleInfos := it_sampleInfos (pb_batch (ih_pending h)) @ infos\<rparr>\<rparr>"
  define h1 where "h1 = h\<lparr>ih_pending := p\<rparr>"
  have p: "buffer_ok idOf p" unfolding p_def by (rule buffer_add [OF ok(1) ne fill(2) nonempty'])
  then have h1: "handler_ok idOf table h1" using ok by (simp add: handler_ok_def h1_def)
  have view: "pb_needsResponse (ih_pending h1) = pb_needsResponse (ih_pending h) @ [request_task req]"
    "buffer_series (ih_pending h1) = buffer_series (ih_pending h) @ map strip (rq_data req)"
    by (simp_all add: h1_def p_def buffer_series_def fill(1))
  have ar: "addReq (ih_pending h) (req\<lparr>rq_data := infos\<rparr>) = (p, flushSize < length (it_sampleInfos (pb_batch p)))"
    by (simp add: addReq_def p_def request_task_def Let_def)
  show ?thesis
  proof (cases "flushSize < length (it_sampleInfos (pb_batch p))")
    case True
    have "answerable (pb_needsResponse (ih_pending h1)) (sh_acks sh)" using ans by (simp add: view)
    from flushPending_eff [OF db h1 pool this] obtain h' sh' where
      "flushPending conn h1 sh = Return (h', sh')" "ih_pending h' = new_pendingBuffer"
      "handler_eff stored idOf table (pb_needsResponse (ih_pending h) @ [request_task req])
        (buffer_series (ih_pending h) @ map strip (rq_data req)) sh h' sh'" unfolding view by blast
    then show ?thesis
      using ar True by (auto simp: handleReq_def infos_def [symmetric] h1_def Let_def)
  next
    case False
    have "kept_by (pb_needsResponse (ih_pending h) @ [request_task req])
       (buffer_series (ih_pending h) @ map strip (rq_data req)) sh h1 sh"
      by (simp add: kept_by_def view)
    then show ?thesis
      using ar False h1 pool by (auto simp: handleReq_def infos_def [symmetric] h1_def Let_def handler_eff_def)
  qed
qed

lemma handler_flush_eff:
  assumes "db_ok conn stored idOf tableOf" and "handler_ok idOf table h" and "pool_ok (sh_pool sh)" "\<not> sh_copiersClosed sh"
    and "answerable (pb_needsResponse (ih_pending h)) (sh_acks sh)"
  shows "\<exists>h' sh'. handler_flush conn h sh = Return (h', sh') \<and>
    handler_eff stored idOf table (pb_needsResponse (ih_pending h)) (buffer_series (ih_pending h)) sh h' sh' \<and>
    (hasPendingReqs h \<longrightarrow> ih_pending h' = new_pendingBuffer)"
proof (cases "hasPendingReqs h")
  case True
  then show ?thesis using flushPending_eff [OF assms] by (auto simp: handler_flush_def)
next
  case False
  then show ?thesis using assms(2-4) by (simp add: handler_flush_def handler_eff_def kept_by_def)
qed

lemma hot_receive_eff:
  assumes db: "db_ok conn stored idOf tableOf" and h: "handler_ok idOf table h" and pool: "pool_ok (sh_pool sh)" "\<not> sh_copiersClosed sh"
    and req: "request_ok idOf req"
    and ans: "answerable (pb_needsResponse (ih_pending h) @ [request_task req]) (sh_acks sh)"
  shows "\<exists>h' sh' pc. hot_receive conn h req sh = Return (pc, sh') \<and> (pc = LoopTop h' \<or> pc = HotReceive h') \<and>
    handler_eff stored idOf table (pb_needsResponse (ih_pending h) @ [request_task req])
      (buffer_series (ih_pending h) @ map strip (rq_data req)) sh h' sh'"
proof -
  let ?ts = "pb_needsResponse (ih_pending h) @ [request_task req]"
  let ?xs = "buffer_series (ih_pending h) @ map strip (rq_data req)"
  obtain h1 sh1 b where hr: "handleReq conn h req sh = Return (h1, sh1, b)"
    "b \<longrightarrow> ih_pending h1 = new_pendingBuffer" "\<not> b \<longrightarrow> sh1 = sh \<and> kept_by ?ts ?xs sh h1 sh1"
    "handler_eff stored idOf table ?ts ?xs sh h1 sh1"
    using handleReq_eff [OF assms] by blast
  show ?thesis
  proof (cases "flushSize \<le> length (it_sampleInfos (pb_batch (ih_pending h1)))")
    case True
    then have "length (buffer_series (ih_pending h1)) \<noteq> 0" by (auto simp: flushSize_def buffer_series_def)
    with hr(2) have "\<not> b" by (auto simp: new_buffer_empty)
    with hr(3) have k: "sh1 = sh" "pb_needsResponse (ih_pending h1) = ?ts" "buffer_series (ih_pending h1) = ?xs"
      by (auto simp: kept_by_def)
    have "handler_ok idOf table h1" using hr(4) by (simp add: handler_eff_def)
    from handler_flush_eff [OF db this pool, unfolded k, OF ans] k
    obtain h2 sh2 where "handler_flush conn h1 sh1 = Return (h2, sh2)" "handler_eff stored idOf table ?ts ?xs sh h2 sh2"
      by auto
    then show ?thesis using hr(1) True by (auto simp: hot_receive_def)
  next
    case False
    then show ?thesis using hr by (auto simp: hot_receive_def)
  qed
qed

section \<open>An example database\<close>

definition ex_conn :: "(string \<times> int \<times> int) list pgxConn" where
  "ex_conn =
     \<lparr>pc_SendBatch = (\<lambda>d qs. (d, Inr (\<lambda>_. \<lparr>br_begin = None, br_row = Inr (''t'', 7), br_commit = None\<rparr>))),
      pc_InsertRows = (\<lambda>d table rows. (map (\<lambda>(t, v, i). (table, t, i)) rows @ d, Inr (int (length rows)))),
      pc_DelayCompression = (\<lambda>d table t. (d, None)), pc_DecompressAfter = (\<lambda>d table t. (d, None)),
      pc_CreateTable = (\<lambda>d m. (d, Inr \<lparr>row_scans = [Inr (m, True)], rows_err = None\<rparr>)),
      pc_FinalizeMetric = (\<lambda>d. (d, None)), pc_Now = (\<lambda>d. 0), pc_toTime = (\<lambda>t. t * 1000000)\<rparr>"

lemma ex_conn_ok: "db_ok ex_conn set (\<lambda>_. 7) (\<lambda>m. m)"
  by (force simp: db_ok_def ex_conn_def reply_ok_def)


section \<open>Properties\<close>


definition ex_info :: "int \<Rightarrow> samplesInfo" where
  "ex_info i = \<lparr>si_labels = new_labels [] [], si_seriesID = i,
     si_samples = \<lparr>sl_base = Some 1, sl_elems = [\<lparr>s_Value = 0, s_Timestamp = 10\<rparr>]\<rparr>\<rparr>"

lemma ex_info_ok: "id_ok idOf (ex_info (- 1))"
  by (simp add: ex_info_def id_ok_def labels_ok_def new_labels_def decode_str.simps)


text \<open>
  C36: the id of a series is cached before its transaction is known to have committed.  If the \<open>COMMIT\<close> of a
  series fails, \<open>setSeriesIds\<close> reports the error, but the cache keeps the id that the
  transaction would have created.
\<close>
theorem failed_commit_stays_cached:
  assumes "br_begin (reply i) = None" and "br_row (reply i) = Inr (t, series)" and "br_commit (reply i) = Some e"
  shows "snd (snd (apply_replies reply i (g # gs) tableName infos cache)) = Inl e \<and>
    fst (snd (apply_replies reply i (g # gs) tableName infos cache)) (labels_String (si_labels (infos ! hd g))) = Some series"
  using assms by (simp add: Let_def)

theorem failed_commit_stays_cached_witness:
  "snd (snd (apply_replies (\<lambda>_. \<lparr>br_begin = None, br_row = Inr (''t'', 7), br_commit = Some (ExtError ''conn'')\<rparr>) 0 [[0]] '''' [ex_info (- 1)] Map.empty))
     = Inl (ExtError ''conn'') \<and>
   fst (snd (apply_replies (\<lambda>_. \<lparr>br_begin = None, br_row = Inr (''t'', 7), br_commit = Some (ExtError ''conn'')\<rparr>) 0 [[0]] '''' [ex_info (- 1)] Map.empty)) []
     = Some 7"
  using failed_commit_stays_cached [of "\<lambda>_. \<lparr>br_begin = None, br_row = Inr (''t'', 7), br_commit = Some (ExtError ''conn'')\<rparr>" 0 "''t''" 7
      "ExtError ''conn''" "[0]" "[]" "''''" "[ex_info (- 1)]" Map.empty]
  by (simp add: ex_info_def new_labels_def labels_String_def)

text \<open>
  C32: the delay of the next compression job.  The delay is at most a day, at least an hour for
  samples of the past, and no step of its computation overflows.
\<close>
theorem compression_delay_bounds:
  "delay_by now minTime \<le> 24 * time_Hour \<and>
   delay_by now minTime = min (24 * time_Hour) (go_quot (time_Since now minTime) 2 + 60 * time_Minute) \<and>
   (minTime \<le> now \<longrightarrow> time_Hour \<le> delay_by now minTime)"
proof -
  have s: "min_int64 \<le> time_Since now minTime" "time_Since now minTime \<le> max_int64"
    by (simp_all add: time_Since_def)
  have q: "- (2 ^ 62) \<le> go_quot (time_Since now minTime) 2" "go_quot (time_Since now minTime) 2 \<le> 2 ^ 62"
    using s by (auto simp: go_quot_def Let_def)
  then have w: "wrap64 (go_quot (time_Since now minTime) 2 + 60 * time_Minute) = go_quot (time_Since now minTime) 2 + 60 * time_Minute"
    by (intro wrap64_id) (simp add: in_int64_def time_Minute_def)
  have "0 \<le> go_quot (time_Since now minTime) 2" if "minTime \<le> now"
    using that by (auto simp: go_quot_def Let_def time_Since_def)
  then show ?thesis
    unfolding delay_by_def w Let_def by (auto simp: time_Hour_def time_Minute_def min_def)
qed

theorem compression_delay_bounds_witness:
  "delay_by (10 ^ 18) 0 = 24 * time_Hour \<and> delay_by 0 0 = time_Hour"
  using compression_delay_bounds [of "10 ^ 18" 0] compression_delay_bounds [of 0 0]
  by (simp add: time_Hour_def time_Minute_def time_Since_def go_quot_def)

end
