(* ===== verification/Ingest_System.thy ===== *)
theory Ingest_System
  imports Sql_Ingest
begin

text \<open>
  The inserter as a whole (\<open>pgxInserter\<close> of \<open>sql_ingest.go\<close>): calls of \<open>InsertData\<close>, the
  goroutines of the metrics, the copiers and the metric creation worker, interleaved in any order.
  An action is one step of one of them; \<open>reachable\<close> collects the states of all interleavings.
  The channel to the copiers is modelled without its bound, so a handler never waits to send to
  it; the channel of a metric has its capacity of 1000.
\<close>

section \<open>Calls of InsertData\<close>

text \<open>
  A call has the metrics still to be sent (in the order in which the map is ranged over), the
  number of its rows, the value it has returned, and the error with which its work ended.
\<close>

record insert_call =
  ic_rows :: metric_data
  ic_todo :: metric_data
  ic_numRows :: nat
  ic_result :: "(nat \<times> go_error option) option"
  ic_done :: "go_error option option"

record 'd pgxInserter =
  pi_shared :: "'d shared"
  pi_env :: metric_env
  pi_inserters :: "string \<rightharpoonup> inserter_routine"
  pi_asyncAcks :: bool
  pi_insertedDatapoints :: "int option"
  pi_calls :: "nat \<rightharpoonup> insert_call"

abbreviation pi_acks :: "'d pgxInserter \<Rightarrow> acks" where
  "pi_acks s \<equiv> sh_acks (pi_shared s)"

definition set_acks :: "acks \<Rightarrow> 'd pgxInserter \<Rightarrow> 'd pgxInserter" where
  "set_acks a s = s\<lparr>pi_shared := (pi_shared s)\<lparr>sh_acks := a\<rparr>\<rparr>"

definition count_rows :: "metric_data \<Rightarrow> nat" where
  "count_rows rows = fold (\<lambda>(m, data) n. fold (\<lambda>si n. (n + length (samples_of si)) mod 2 ^ 64) data n) rows 0"

text \<open>The start of \<open>InsertData\<close>: the wait group is set to the number of metrics.\<close>

definition start_call :: "nat \<Rightarrow> metric_data \<Rightarrow> 'd pgxInserter \<Rightarrow> 'd pgxInserter" where
  "start_call g rows s =
     (let a = pi_acks s;
          a' = \<lparr>ak_wg = (ak_wg a)(g := int (length rows)), ak_err = (ak_err a)(g := None),
                ak_closed = (ak_closed a)(g := False)\<rparr>
      in (set_acks a' s)\<lparr>pi_calls := (pi_calls s)(g \<mapsto>
            \<lparr>ic_rows = rows, ic_todo = rows, ic_numRows = count_rows rows, ic_result = None, ic_done = None\<rparr>)\<rparr>)"

definition inserter_capacity :: nat where
  "inserter_capacity = 1000"

text \<open>\<open>getMetricInserter\<close>: the goroutine of a new metric is started with the caller's error channel.\<close>

definition getMetricInserter :: "string \<Rightarrow> nat \<Rightarrow> (string \<rightharpoonup> inserter_routine) \<Rightarrow> inserter_routine" where
  "getMetricInserter metric errChan ins =
     (case ins metric of
        Some r \<Rightarrow> r
      | None \<Rightarrow> \<lparr>rt_input = [], rt_closed = False, rt_pc = Starting errChan\<rparr>)"

text \<open>\<open>insertMetricData\<close>: blocks (\<open>None\<close>) while the channel of the metric is full.\<close>

definition insertMetricData ::
  "string \<Rightarrow> samplesInfo list \<Rightarrow> nat \<Rightarrow> (string \<rightharpoonup> inserter_routine) \<Rightarrow> (string \<rightharpoonup> inserter_routine) outcome option" where
  "insertMetricData metric data g ins =
     (let r = getMetricInserter metric g ins
      in if rt_closed r then Some (Panic ''send on closed channel'')
         else if length (rt_input r) < inserter_capacity
         then Some (Return (ins(metric \<mapsto> r\<lparr>rt_input := rt_input r @
                [\<lparr>rq_metric = metric, rq_data = data, rq_finished = Some g, rq_errChan = Some g\<rparr>]\<rparr>)))
         else None)"

text \<open>The next iteration of the loop of \<open>InsertData\<close>.\<close>

definition send_next :: "nat \<Rightarrow> 'd pgxInserter \<Rightarrow> 'd pgxInserter outcome option" where
  "send_next g s =
     (case pi_calls s g of
        None \<Rightarrow> None
      | Some c \<Rightarrow>
          (case ic_todo c of
             [] \<Rightarrow> None
           | (metric, data) # todo \<Rightarrow>
               map_option (\<lambda>r. outcome_bind r (\<lambda>ins.
                   Return (s\<lparr>pi_inserters := ins, pi_calls := (pi_calls s)(g \<mapsto> c\<lparr>ic_todo := todo\<rparr>)\<rparr>)))
                 (insertMetricData metric data g (pi_inserters s))))"

text \<open>With \<open>asyncAcks\<close> the call returns as soon as everything has been sent.\<close>

definition return_async :: "nat \<Rightarrow> 'd pgxInserter \<Rightarrow> 'd pgxInserter outcome option" where
  "return_async g s =
     (case pi_calls s g of
        None \<Rightarrow> None
      | Some c \<Rightarrow>
          (if pi_asyncAcks s \<and> ic_todo c = [] \<and> ic_result c = None
           then Some (Return (s\<lparr>pi_calls := (pi_calls s)(g \<mapsto> c\<lparr>ic_result := Some (ic_numRows c, None)\<rparr>)\<rparr>))
           else None))"

text \<open>
  The end of the work: \<open>workFinished.Wait()\<close>, the receive from the error channel and its closing.
  Without \<open>asyncAcks\<close> the call returns now; with it, a goroutine does this and counts the rows.
\<close>

definition finish_call :: "nat \<Rightarrow> 'd pgxInserter \<Rightarrow> 'd pgxInserter outcome option" where
  "finish_call g s =
     (case pi_calls s g of
        None \<Rightarrow> None
      | Some c \<Rightarrow>
          (if ic_todo c = [] \<and> ic_done c = None \<and> ak_wg (pi_acks s) g = 0
           then Some (let err = ak_err (pi_acks s) g
                      in outcome_bind (close_errChan g ((pi_acks s)\<lparr>ak_err := (ak_err (pi_acks s))(g := None)\<rparr>)) (\<lambda>a.
                           let s1 = set_acks a s
                           in if pi_asyncAcks s
                              then Return (s1\<lparr>pi_calls := (pi_calls s)(g \<mapsto> c\<lparr>ic_done := Some err\<rparr>),
                                     pi_insertedDatapoints :=
                                       (if err = None then map_option (\<lambda>n. wrap64 (n + wrap64 (int (ic_numRows c)))) (pi_insertedDatapoints s)
                                        else pi_insertedDatapoints s)\<rparr>)
                              else Return (s1\<lparr>pi_calls := (pi_calls s)(g \<mapsto>
                                     c\<lparr>ic_done := Some err, ic_result := Some (ic_numRows c, err)\<rparr>)\<rparr>)))
           else None))"


section \<open>The process\<close>

definition pi_CompleteMetricCreation :: "'d pgxConn \<Rightarrow> 'd \<Rightarrow> 'd \<times> go_error option" where
  "pi_CompleteMetricCreation conn d = pc_FinalizeMetric conn d"

text \<open>One round of \<open>runCompleteMetricCreationWorker\<close>, which logs an error and goes on.\<close>

definition worker_round :: "'d pgxConn \<Rightarrow> 'd pgxInserter \<Rightarrow> 'd pgxInserter outcome option" where
  "worker_round conn s =
     (if me_signal (pi_env s)
      then Some (Return (s\<lparr>pi_env := (pi_env s)\<lparr>me_signal := False\<rparr>,
             pi_shared := (pi_shared s)\<lparr>sh_db := fst (pi_CompleteMetricCreation conn (sh_db (pi_shared s)))\<rparr>\<rparr>))
      else None)"

definition step_inserter :: "'d pgxConn \<Rightarrow> string \<Rightarrow> marks \<Rightarrow> 'd pgxInserter \<Rightarrow> 'd pgxInserter outcome option" where
  "step_inserter conn metric m s =
     (case pi_inserters s metric of
        None \<Rightarrow> None
      | Some r \<Rightarrow>
          map_option (\<lambda>o'. outcome_bind o' (\<lambda>(r', me, sh).
              Return (s\<lparr>pi_inserters := (pi_inserters s)(metric \<mapsto> r'), pi_env := me, pi_shared := sh\<rparr>)))
            (routine_step conn m metric r (pi_env s) (pi_shared s)))"

text \<open>A copier finishes the request at position \<open>i\<close> of the channel; copiers run concurrently, so any may be first.\<close>

definition step_copier :: "'d pgxConn \<Rightarrow> nat \<Rightarrow> 'd pgxInserter \<Rightarrow> 'd pgxInserter outcome option" where
  "step_copier conn i s =
     (let q = sh_toCopiers (pi_shared s)
      in if i < length q
         then Some (outcome_bind
                (copier_round conn (q ! i) ((pi_shared s)\<lparr>sh_toCopiers := take i q @ drop (Suc i) q\<rparr>)) (\<lambda>sh.
                Return (s\<lparr>pi_shared := sh\<rparr>)))
         else None)"

definition close_routine :: "inserter_routine \<Rightarrow> inserter_routine" where
  "close_routine r = r\<lparr>rt_closed := True\<rparr>"

definition pi_Close :: "'d pgxInserter \<Rightarrow> 'd pgxInserter" where
  "pi_Close s = s\<lparr>pi_inserters := (\<lambda>m. map_option close_routine (pi_inserters s m)),
     pi_shared := (pi_shared s)\<lparr>sh_copiersClosed := True\<rparr>\<rparr>"

text \<open>What can happen next, while the inserter is open.\<close>

datatype action =
    StartCall nat metric_data
  | SendNext nat
  | ReturnAsync nat
  | FinishCall nat
  | RoutineStep string marks
  | CopierStep nat
  | WorkerStep

text \<open>The rows of a call come from \<open>parseData\<close>: distinct metrics, no empty list, unset ids.\<close>

definition rows_ok :: "metric_data \<Rightarrow> bool" where
  "rows_ok rows \<longleftrightarrow>
     (\<forall>(m, data) \<in> set rows. data \<noteq> [] \<and> no_empty data \<and>
        (\<forall>s \<in> set data. si_seriesID s = - 1 \<and> labels_ok (si_labels s)))"

definition exec_action :: "'d pgxConn \<Rightarrow> action \<Rightarrow> 'd pgxInserter \<Rightarrow> 'd pgxInserter outcome option" where
  "exec_action conn a s =
     (case a of
        StartCall g rows \<Rightarrow> (if pi_calls s g = None then Some (Return (start_call g rows s)) else None)
      | SendNext g \<Rightarrow> send_next g s
      | ReturnAsync g \<Rightarrow> return_async g s
      | FinishCall g \<Rightarrow> finish_call g s
      | RoutineStep metric m \<Rightarrow> step_inserter conn metric m s
      | CopierStep i \<Rightarrow> step_copier conn i s
      | WorkerStep \<Rightarrow> worker_round conn s)"

text \<open>\<open>newPgxInserter\<close>: it completes metric creation before serving, and fails if that fails.\<close>

definition newPgxInserter :: "'d pgxConn \<Rightarrow> metric_name_cache \<Rightarrow> bool \<Rightarrow> nat \<Rightarrow> 'd \<Rightarrow> 'd pgxInserter result" where
  "newPgxInserter conn names asyncAcks reportInterval d =
     (case pi_CompleteMetricCreation conn d of
        (d', Some e) \<Rightarrow> Inl e
      | (d', None) \<Rightarrow>
          Inr \<lparr>pi_shared = \<lparr>sh_db = d', sh_acks = \<lparr>ak_wg = (\<lambda>_. 0), ak_err = (\<lambda>_. None), ak_closed = (\<lambda>_. False)\<rparr>,
                 sh_toCopiers = [], sh_copiersClosed = False, sh_pool = []\<rparr>,
               pi_env = \<lparr>me_names = names, me_signal = False\<rparr>, pi_inserters = Map.empty, pi_asyncAcks = asyncAcks,
               pi_insertedDatapoints = (if asyncAcks \<and> 0 < reportInterval then Some 0 else None),
               pi_calls = Map.empty\<rparr>)"

definition num_copiers :: "int \<Rightarrow> int \<Rightarrow> int \<Rightarrow> int" where
  "num_copiers gomaxprocs numCPU connectionsPerProc =
     (let p0 = (if gomaxprocs \<le> 0 then numCPU else gomaxprocs); maxProcs = (if p0 \<le> 0 then 1 else p0)
      in maxProcs * connectionsPerProc - maxProcs)"

definition legal :: "action \<Rightarrow> bool" where
  "legal a = (case a of StartCall g rows \<Rightarrow> rows_ok rows | _ \<Rightarrow> True)"

inductive reachable :: "'d pgxConn \<Rightarrow> 'd pgxInserter \<Rightarrow> 'd pgxInserter \<Rightarrow> bool" for conn s0 where
  reach_refl: "reachable conn s0 s0"
| reach_step: "reachable conn s0 s \<Longrightarrow> legal a \<Longrightarrow> exec_action conn a s = Some (Return s') \<Longrightarrow> reachable conn s0 s'"

section \<open>Where the tasks and the series of a call are\<close>

definition pc_handler :: "routine_pc \<Rightarrow> insertHandler option" where
  "pc_handler pc = (case pc of LoopTop h \<Rightarrow> Some h | HotReceive h \<Rightarrow> Some h | _ \<Rightarrow> None)"

definition routine_tasks :: "inserter_routine \<Rightarrow> insertDataTask list" where
  "routine_tasks r = map request_task (rt_input r) @
     (case pc_handler (rt_pc r) of None \<Rightarrow> [] | Some h \<Rightarrow> pb_needsResponse (ih_pending h))"

definition queue_tasks :: "copyRequest list \<Rightarrow> insertDataTask list" where
  "queue_tasks qs = concat (map (pb_needsResponse \<circ> cr_data) qs)"

definition ins_tasks :: "(string \<rightharpoonup> inserter_routine) \<Rightarrow> insertDataTask multiset" where
  "ins_tasks ins = sum_map (\<lambda>r. mset (routine_tasks r)) ins"

definition all_tasks :: "'d pgxInserter \<Rightarrow> insertDataTask multiset" where
  "all_tasks s = ins_tasks (pi_inserters s) + mset (queue_tasks (sh_toCopiers (pi_shared s)))"

text \<open>Pairs of a call and one of its series that share a buffer.\<close>

type_synonym entry = "nat \<times> Labels \<times> sample slice"

definition batch_entries :: "insertDataTask list \<Rightarrow> (Labels \<times> sample slice) list \<Rightarrow> entry set" where
  "batch_entries ts xs = {(g, x). task g \<in> set ts \<and> x \<in> set xs}"

definition routine_entries :: "inserter_routine \<Rightarrow> entry set" where
  "routine_entries r =
     (\<Union>req \<in> set (rt_input r). batch_entries [request_task req] (map strip (rq_data req))) \<union>
     (case pc_handler (rt_pc r) of
        None \<Rightarrow> {} | Some h \<Rightarrow> batch_entries (pb_needsResponse (ih_pending h)) (buffer_series (ih_pending h)))"

definition queue_entries :: "string \<Rightarrow> copyRequest list \<Rightarrow> entry set" where
  "queue_entries table qs =
     (\<Union>q \<in> {q \<in> set qs. cr_table q = table}. batch_entries (pb_needsResponse (cr_data q)) (buffer_series (cr_data q)))"

lemma ins_tasks_upd:
  assumes "finite (dom ins)"
  shows "ins_tasks (ins(m \<mapsto> r)) + (case ins m of None \<Rightarrow> {#} | Some r0 \<Rightarrow> mset (routine_tasks r0)) =
    ins_tasks ins + mset (routine_tasks r)"
  using sum_map_upd [OF assms, of "\<lambda>r. mset (routine_tasks r)" m r] by (simp add: ins_tasks_def)

lemma routine_tasks_sub: "finite (dom ins) \<Longrightarrow> ins m = Some r \<Longrightarrow> mset (routine_tasks r) \<subseteq># ins_tasks ins"
  unfolding ins_tasks_def sum_map_def by (subst sum.remove [of _ m]) auto

lemma entry_routine_task:
  assumes "(g, x) \<in> routine_entries r"
  shows "task g \<in> set (routine_tasks r)"
  using assms by (auto simp: routine_entries_def routine_tasks_def batch_entries_def split: option.splits)

lemma entry_queue_task:
  assumes "(g, x) \<in> queue_entries table qs"
  shows "task g \<in> set (queue_tasks qs)"
  using assms by (auto simp: queue_entries_def queue_tasks_def batch_entries_def)


section \<open>The invariant\<close>

definition acks_ok :: "insertDataTask multiset \<Rightarrow> (nat \<rightharpoonup> insert_call) \<Rightarrow> acks \<Rightarrow> bool" where
  "acks_ok ts calls a \<longleftrightarrow>
     (\<forall>t. t \<in># ts \<longrightarrow> (\<exists>g. t = task g \<and> calls g \<noteq> None)) \<and>
     (\<forall>g. calls g = None \<longrightarrow> ak_wg a g = 0 \<and> \<not> ak_closed a g) \<and>
     (\<forall>g c. calls g = Some c \<longrightarrow> ak_wg a g = int (count ts (task g)) + int (length (ic_todo c))) \<and>
     (\<forall>g c. calls g = Some c \<longrightarrow> ak_closed a g \<longrightarrow> ic_todo c = [] \<and> count ts (task g) = 0)"

lemma acks_ok_wg: "acks_ok ts calls a \<Longrightarrow> int (count ts (task g)) \<le> ak_wg a g"
  by (cases "calls g") (auto simp: acks_ok_def not_in_iff)

lemma acks_ok_open: "acks_ok ts calls a \<Longrightarrow> task g \<in># ts \<Longrightarrow> \<not> ak_closed a g"
  unfolding acks_ok_def by (metis not_in_iff not_None_eq)

lemma acks_ok_answerable:
  assumes "acks_ok ts calls a" and "mset us \<subseteq># ts"
  shows "answerable us a"
proof -
  have "int (count (mset us) (task g)) \<le> ak_wg a g" for g
    using acks_ok_wg [OF assms(1), of g] mset_subset_eq_count [OF assms(2), of "task g"] by linarith
  moreover have "\<exists>g. t = task g \<and> \<not> ak_closed a g" if "t \<in> set us" for t
  proof -
    have t: "t \<in># ts" using that assms(2) by (metis mset_subset_eqD set_mset_mset)
    then obtain g where "t = task g" using assms(1) unfolding acks_ok_def by blast
    with acks_ok_open [OF assms(1)] t show ?thesis by blast
  qed
  ultimately show ?thesis by (simp add: answerable_def)
qed

lemma acks_ok_answered:
  assumes ok: "acks_ok (ts + mset us) calls a" and ans: "answered err us a a'"
  shows "acks_ok ts calls a'"
proof -
  have wg: "ak_wg a' g = ak_wg a g - int (count (mset us) (task g))" and cl: "ak_closed a' = ak_closed a" for g
    using ans unfolding answered_def by blast+
  have us: "count (mset us) (task g) = 0" if none: "calls g = None" for g
  proof (rule ccontr)
    assume "count (mset us) (task g) \<noteq> 0"
    then have "task g \<in># ts + mset us" by (simp add: count_inI)
    then obtain g' where "task g = task g'" "calls g' \<noteq> None" using ok unfolding acks_ok_def by blast
    with none show False by simp
  qed
  have "\<exists>g. t = task g \<and> calls g \<noteq> None" if "t \<in># ts" for t
    using ok that unfolding acks_ok_def by (meson union_iff)
  moreover have "ak_wg a' g = 0 \<and> \<not> ak_closed a' g" if "calls g = None" for g
    using ok that us [OF that] unfolding acks_ok_def wg cl by simp
  moreover have "ak_wg a' g = int (count ts (task g)) + int (length (ic_todo c)) \<and>
      (ak_closed a' g \<longrightarrow> ic_todo c = [] \<and> count ts (task g) = 0)" if "calls g = Some c" for g c
  proof -
    have "ak_wg a g = int (count (ts + mset us) (task g)) + int (length (ic_todo c))"
      "ak_closed a g \<longrightarrow> ic_todo c = [] \<and> count (ts + mset us) (task g) = 0"
      using ok that unfolding acks_ok_def by blast+
    then show ?thesis unfolding wg cl by simp
  qed
  ultimately show ?thesis unfolding acks_ok_def by blast
qed

definition routine_ok :: "(series_query \<Rightarrow> int) \<Rightarrow> string \<Rightarrow> inserter_routine \<Rightarrow> bool" where
  "routine_ok idOf table r \<longleftrightarrow>
     \<not> rt_closed r \<and> list_all (request_ok idOf) (rt_input r) \<and>
     (case rt_pc r of
        Starting g \<Rightarrow> task g \<in> request_task ` set (rt_input r)
      | Failed e \<Rightarrow> True
      | LoopTop h \<Rightarrow> handler_ok idOf table h
      | HotReceive h \<Rightarrow> handler_ok idOf table h
      | Exited \<Rightarrow> False)"

definition names_ok :: "(string \<Rightarrow> string) \<Rightarrow> metric_name_cache \<Rightarrow> bool" where
  "names_ok tableOf names \<longleftrightarrow> cache_inv names \<and> contents names \<subseteq>\<^sub>m (\<lambda>m. Some (tableOf m))"

definition parts_ok :: "(series_query \<Rightarrow> int) \<Rightarrow> (string \<Rightarrow> string) \<Rightarrow> 'd pgxInserter \<Rightarrow> bool" where
  "parts_ok idOf tableOf s \<longleftrightarrow>
     finite (dom (pi_inserters s)) \<and>
     (\<forall>m r. pi_inserters s m = Some r \<longrightarrow> routine_ok idOf (tableOf m) r) \<and>
     pool_ok (sh_pool (pi_shared s)) \<and> \<not> sh_copiersClosed (pi_shared s) \<and>
     list_all (queued_ok idOf) (sh_toCopiers (pi_shared s)) \<and> names_ok tableOf (me_names (pi_env s))"

text \<open>A series that was sent is stored, or still on its way, or its call has an error.\<close>

definition located where
  "located conn stored idOf tableOf s g m x \<longleftrightarrow>
     ak_err (pi_acks s) g \<noteq> None \<or> series_keys conn idOf (tableOf m) x \<subseteq> stored (sh_db (pi_shared s)) \<or>
     (\<exists>r. pi_inserters s m = Some r \<and> (g, x) \<in> routine_entries r) \<or>
     (g, x) \<in> queue_entries (tableOf m) (sh_toCopiers (pi_shared s))"

definition all_located where
  "all_located conn stored idOf tableOf s g rows \<longleftrightarrow>
     (\<forall>p \<in> set rows. \<forall>si \<in> set (snd p). located conn stored idOf tableOf s g (fst p) (strip si))"

definition all_stored ::
  "'d pgxConn \<Rightarrow> ('d \<Rightarrow> (string \<times> int \<times> int) set) \<Rightarrow> (series_query \<Rightarrow> int) \<Rightarrow> (string \<Rightarrow> string) \<Rightarrow> 'd \<Rightarrow> metric_data \<Rightarrow> bool" where
  "all_stored conn stored idOf tableOf d rows \<longleftrightarrow>
     (\<forall>p \<in> set rows. \<forall>si \<in> set (snd p). series_keys conn idOf (tableOf (fst p)) (strip si) \<subseteq> stored d)"

lemma all_stored_mono:
  "all_stored conn stored idOf tableOf d rows \<Longrightarrow> stored d \<subseteq> stored d' \<Longrightarrow> all_stored conn stored idOf tableOf d' rows"
  unfolding all_stored_def by blast

definition call_ok where
  "call_ok conn stored idOf tableOf s g c \<longleftrightarrow>
     rows_ok (ic_rows c) \<and> ic_numRows c = count_rows (ic_rows c) \<and> (ak_closed (pi_acks s) g \<longleftrightarrow> ic_done c \<noteq> None) \<and>
     (\<exists>sent. ic_rows c = sent @ ic_todo c \<and> (ic_done c = None \<longrightarrow> all_located conn stored idOf tableOf s g sent)) \<and>
     (ic_done c = Some None \<longrightarrow> all_stored conn stored idOf tableOf (sh_db (pi_shared s)) (ic_rows c)) \<and>
     (\<not> pi_asyncAcks s \<longrightarrow> ic_result c = map_option (Pair (ic_numRows c)) (ic_done c))"

definition sys_inv where
  "sys_inv conn stored idOf tableOf s \<longleftrightarrow>
     parts_ok idOf tableOf s \<and> acks_ok (all_tasks s) (pi_calls s) (pi_acks s) \<and>
     (\<forall>g c. pi_calls s g = Some c \<longrightarrow> call_ok conn stored idOf tableOf s g c)"

text \<open>Steps that leave the calls alone.\<close>

lemma inv_transfer:
  assumes inv: "sys_inv conn stored idOf tableOf s"
    and parts: "parts_ok idOf tableOf s'"
    and same: "pi_calls s' = pi_calls s" "pi_asyncAcks s' = pi_asyncAcks s"
    and tasks: "all_tasks s = all_tasks s' + mset ts" and ans: "answered err ts (pi_acks s) (pi_acks s')"
    and mono: "stored (sh_db (pi_shared s)) \<subseteq> stored (sh_db (pi_shared s'))"
    and loc: "\<And>g m x. located conn stored idOf tableOf s g m x \<Longrightarrow> located conn stored idOf tableOf s' g m x"
  shows "sys_inv conn stored idOf tableOf s'"
proof -
  have "acks_ok (all_tasks s') (pi_calls s') (pi_acks s')"
    using inv acks_ok_answered [OF _ ans] unfolding sys_inv_def tasks same by blast
  moreover have "call_ok conn stored idOf tableOf s' g c" if "pi_calls s' g = Some c" for g c
  proof -
    have c: "call_ok conn stored idOf tableOf s g c" using inv that same by (simp add: sys_inv_def)
    have cl: "ak_closed (pi_acks s') = ak_closed (pi_acks s)" using ans by (simp add: answered_def)
    have al: "all_located conn stored idOf tableOf s g sent \<Longrightarrow> all_located conn stored idOf tableOf s' g sent" for sent
      using loc unfolding all_located_def by blast
    show ?thesis
      using c al all_stored_mono [where stored = stored, OF _ mono] unfolding call_ok_def cl same by metis
  qed
  ultimately show ?thesis using parts by (simp add: sys_inv_def)
qed

section \<open>Steps of a metric's goroutine\<close>

lemma routine_transition:
  assumes inv: "sys_inv conn stored idOf tableOf s" and r: "pi_inserters s m = Some r"
    and ro: "routine_ok idOf (tableOf m) r'"
    and po: "pool_ok (sh_pool sh)" "\<not> sh_copiersClosed sh" "list_all (queued_ok idOf) (sh_toCopiers sh)" "names_ok tableOf (me_names me)"
    and tasks: "mset (routine_tasks r) + mset (queue_tasks (sh_toCopiers (pi_shared s))) =
      mset (routine_tasks r') + mset (queue_tasks (sh_toCopiers sh)) + mset ts"
    and ans: "answered err ts (pi_acks s) (sh_acks sh)"
    and mono: "stored (sh_db (pi_shared s)) \<subseteq> stored (sh_db sh)"
    and ent: "\<And>g x. (g, x) \<in> routine_entries r \<Longrightarrow>
      (g, x) \<in> routine_entries r' \<or> (g, x) \<in> queue_entries (tableOf m) (sh_toCopiers sh) \<or> ak_err (sh_acks sh) g \<noteq> None"
    and qent: "\<And>t. queue_entries t (sh_toCopiers (pi_shared s)) \<subseteq> queue_entries t (sh_toCopiers sh)"
  shows "sys_inv conn stored idOf tableOf
    (s\<lparr>pi_inserters := (pi_inserters s)(m \<mapsto> r'), pi_env := me, pi_shared := sh\<rparr>)" (is "sys_inv _ _ _ _ ?s'")
proof (rule inv_transfer [OF inv])
  have p: "parts_ok idOf tableOf s" using inv by (simp add: sys_inv_def)
  show "parts_ok idOf tableOf ?s'"
    using p ro po by (auto simp: parts_ok_def)
  have fin: "finite (dom (pi_inserters s))" using p by (simp add: parts_ok_def)
  have "ins_tasks ((pi_inserters s)(m \<mapsto> r')) + mset (routine_tasks r) = ins_tasks (pi_inserters s) + mset (routine_tasks r')"
    using ins_tasks_upd [OF fin, of m r'] r by simp
  then have "(ins_tasks (pi_inserters s) + mset (routine_tasks r')) +
      (mset (routine_tasks r) + mset (queue_tasks (sh_toCopiers (pi_shared s)))) =
    (ins_tasks ((pi_inserters s)(m \<mapsto> r')) + mset (routine_tasks r)) +
      (mset (routine_tasks r') + mset (queue_tasks (sh_toCopiers sh)) + mset ts)"
    by (simp only: tasks)
  then have "all_tasks s + (mset (routine_tasks r') + mset (routine_tasks r)) =
      (all_tasks ?s' + mset ts) + (mset (routine_tasks r') + mset (routine_tasks r))"
    by (simp add: all_tasks_def ac_simps)
  then show "all_tasks s = all_tasks ?s' + mset ts" by (rule add_right_imp_eq)
  show "answered err ts (pi_acks s) (pi_acks ?s')" using ans by simp
  show "stored (sh_db (pi_shared s)) \<subseteq> stored (sh_db (pi_shared ?s'))" using mono by simp
  show "located conn stored idOf tableOf ?s' g m' x" if "located conn stored idOf tableOf s g m' x" for g m' x
  proof -
    have err: "ak_err (sh_acks sh) g \<noteq> None" if "ak_err (pi_acks s) g \<noteq> None"
      using ans that unfolding answered_def by blast
    from that consider "ak_err (pi_acks s) g \<noteq> None"
      | "series_keys conn idOf (tableOf m') x \<subseteq> stored (sh_db (pi_shared s))"
      | r1 where "pi_inserters s m' = Some r1" "(g, x) \<in> routine_entries r1"
      | "(g, x) \<in> queue_entries (tableOf m') (sh_toCopiers (pi_shared s))"
      unfolding located_def by blast
    then show ?thesis
    proof cases
      case 1
      then show ?thesis using err by (simp add: located_def)
    next
      case 2
      then show ?thesis using mono by (auto simp: located_def)
    next
      case 3
      then show ?thesis using ent [of g x] r by (cases "m' = m") (auto simp: located_def)
    next
      case 4
      then show ?thesis using qent [of "tableOf m'"] by (auto simp: located_def)
    qed
  qed
qed simp_all

lemma routine_tasks_handler:
  "pc_handler (rt_pc r) = Some h \<Longrightarrow> routine_tasks r = map request_task (rt_input r) @ pb_needsResponse (ih_pending h)"
  by (simp add: routine_tasks_def)

lemma queue_tasks_append [simp]: "queue_tasks (qs @ [q]) = queue_tasks qs @ pb_needsResponse (cr_data q)"
  by (simp add: queue_tasks_def)

lemma queue_entries_append:
  "queue_entries t (qs @ [q]) =
   queue_entries t qs \<union> (if cr_table q = t then batch_entries (pb_needsResponse (cr_data q)) (buffer_series (cr_data q)) else {})"
  by (auto simp: queue_entries_def)

lemma batch_entries_new: "batch_entries (pb_needsResponse new_pendingBuffer) xs = {}"
  by (simp add: batch_entries_def new_buffer_empty)

text \<open>The entries of a handler and of the requests it consumed are those of their concatenation.\<close>

lemma consumed_entries:
  assumes "pc_handler (rt_pc r) = Some h" and "rt_input r = consumed @ left" and "(g, x) \<in> routine_entries r"
  shows "(g, x) \<in> batch_entries (pb_needsResponse (ih_pending h) @ map request_task consumed)
      (buffer_series (ih_pending h) @ concat (map (\<lambda>q. map strip (rq_data q)) consumed)) \<or>
    (g, x) \<in> (\<Union>req \<in> set left. batch_entries [request_task req] (map strip (rq_data req)))"
  using assms by (fastforce simp: routine_entries_def batch_entries_def)

lemma handler_transition:
  assumes inv: "sys_inv conn stored idOf tableOf s" and r: "pi_inserters s m = Some r"
    and h: "pc_handler (rt_pc r) = Some h" and inp: "rt_input r = consumed @ left"
    and eff: "handler_eff stored idOf (tableOf m) (pb_needsResponse (ih_pending h) @ map request_task consumed)
      (buffer_series (ih_pending h) @ concat (map (\<lambda>q. map strip (rq_data q)) consumed)) (pi_shared s) h' sh"
    and pc: "pc = LoopTop h' \<or> pc = HotReceive h'"
  shows "sys_inv conn stored idOf tableOf
    (s\<lparr>pi_inserters := (pi_inserters s)(m \<mapsto> r\<lparr>rt_input := left, rt_pc := pc\<rparr>), pi_env := pi_env s, pi_shared := sh\<rparr>)"
proof -
  let ?ts = "pb_needsResponse (ih_pending h) @ map request_task consumed"
  let ?xs = "buffer_series (ih_pending h) @ concat (map (\<lambda>q. map strip (rq_data q)) consumed)"
  let ?r = "r\<lparr>rt_input := left, rt_pc := pc\<rparr>"
  have parts: "parts_ok idOf tableOf s" using inv by (simp add: sys_inv_def)
  have ro: "routine_ok idOf (tableOf m) r" using parts r by (simp add: parts_ok_def)
  have h': "handler_ok idOf (tableOf m) h'" "pool_ok (sh_pool sh)" "\<not> sh_copiersClosed sh"
    "stored (sh_db (pi_shared s)) \<subseteq> stored (sh_db sh)"
    using eff by (simp_all add: handler_eff_def)
  have ro': "routine_ok idOf (tableOf m) ?r"
    using ro h'(1) pc inp by (auto simp: routine_ok_def)
  have names: "names_ok tableOf (me_names (pi_env s))" and q: "list_all (queued_ok idOf) (sh_toCopiers (pi_shared s))"
    using parts by (simp_all add: parts_ok_def)
  have pch: "pc_handler (rt_pc ?r) = Some h'" using pc by (auto simp: pc_handler_def)
  have old: "mset (routine_tasks r) = mset (map request_task left) + mset ?ts"
    by (simp add: routine_tasks_handler [OF h] inp ac_simps)
  have new: "mset (routine_tasks ?r) = mset (map request_task left) + mset (pb_needsResponse (ih_pending h'))"
    by (simp add: routine_tasks_handler [OF pch])
  have left: "(g, x) \<in> routine_entries ?r"
    if "(g, x) \<in> (\<Union>req \<in> set left. batch_entries [request_task req] (map strip (rq_data req)))" for g x
    using that by (simp add: routine_entries_def)
  note ce = consumed_entries [OF h inp]
  note rt = routine_transition [OF inv r ro' h'(2,3) _ names _ _ h'(4)]
  from eff consider (kept) "kept_by ?ts ?xs (pi_shared s) h' sh"
    | (sent) "sent_by idOf (tableOf m) ?ts ?xs (pi_shared s) h' sh" | (failed) "failed_by ?ts (pi_shared s) h' sh"
    by (auto simp: handler_eff_def)
  then show ?thesis
  proof cases
    case kept
    then have k: "pb_needsResponse (ih_pending h') = ?ts" "buffer_series (ih_pending h') = ?xs"
      "sh_acks sh = pi_acks s" "sh_toCopiers sh = sh_toCopiers (pi_shared s)" by (simp_all add: kept_by_def)
    have "(g, x) \<in> routine_entries ?r" if "(g, x) \<in> routine_entries r" for g x
      using ce [OF that]
    proof
      assume "(g, x) \<in> batch_entries ?ts ?xs"
      then show ?thesis using pch k(1,2) by (simp add: routine_entries_def)
    qed (use left in blast)
    then show ?thesis
      using rt [of "[]" None] q old new k by (simp add: answered_Nil)
  next
    case sent
    then obtain c where c: "ih_pending h' = new_pendingBuffer" "sh_acks sh = pi_acks s"
      "sh_toCopiers sh = sh_toCopiers (pi_shared s) @ [c]" "queued_ok idOf c" "cr_table c = tableOf m"
      "pb_needsResponse (cr_data c) = ?ts" "buffer_series (cr_data c) = ?xs" by (auto simp: sent_by_def)
    have "(g, x) \<in> routine_entries ?r \<or> (g, x) \<in> queue_entries (tableOf m) (sh_toCopiers sh)"
      if "(g, x) \<in> routine_entries r" for g x
      using ce [OF that]
    proof
      assume "(g, x) \<in> batch_entries ?ts ?xs"
      then show ?thesis by (simp add: c queue_entries_append)
    qed (use left in blast)
    then show ?thesis
      using rt [of "[]" None] q old new c by (simp add: answered_Nil new_buffer_empty queue_entries_append ac_simps)
  next
    case failed
    then obtain e where f: "ih_pending h' = new_pendingBuffer" "sh_toCopiers sh = sh_toCopiers (pi_shared s)"
      "answered (Some e) ?ts (pi_acks s) (sh_acks sh)" by (auto simp: failed_by_def)
    have "(g, x) \<in> routine_entries ?r \<or> ak_err (sh_acks sh) g \<noteq> None"
      if "(g, x) \<in> routine_entries r" for g x
      using ce [OF that]
    proof
      assume "(g, x) \<in> batch_entries ?ts ?xs"
      then show ?thesis using f(3) by (auto simp: batch_entries_def answered_def)
    qed (use left in blast)
    then show ?thesis
      using rt [of ?ts "Some e"] q old new f by (simp add: new_buffer_empty ac_simps) blast
  qed
qed

lemma try_send_answers:
  assumes "\<not> ak_closed a g"
  shows "\<exists>a'. try_send (Some g) e a = Return a' \<and> answered None [] a a'"
  using assms by (cases "ak_err a g") (simp_all add: try_send_def answered_def)

text \<open>The table lookup yields a handler for the metric's table, or an error for the starting call.\<close>

definition started where
  "started stored idOf tableOf m sh pc me' sh' \<longleftrightarrow>
     names_ok tableOf (me_names me') \<and> pool_ok (sh_pool sh') \<and> stored (sh_db sh) \<subseteq> stored (sh_db sh') \<and>
     sh_toCopiers sh' = sh_toCopiers sh \<and> sh_copiersClosed sh' = sh_copiersClosed sh \<and>
     answered None [] (sh_acks sh) (sh_acks sh') \<and>
     ((\<exists>e. pc = Failed e) \<or>
      (\<exists>h. pc = LoopTop h \<and> handler_ok idOf (tableOf m) h \<and> ih_pending h = new_pendingBuffer))"

lemma new_handler_ok:
  "handler_ok idOf t \<lparr>ih_pending = new_pendingBuffer, ih_seriesCache = Map.empty, ih_metricTableName = t\<rparr>"
  by (simp add: handler_ok_def new_buffer_ok cache_ok_empty)

lemma start_routine_spec:
  assumes db: "db_ok conn stored idOf tableOf" and names: "names_ok tableOf (me_names me)"
    and pool: "pool_ok (sh_pool sh)" and op: "\<not> ak_closed (sh_acks sh) g"
  shows "\<exists>pc me' sh'. start_routine conn mk m g me sh = Return (pc, me', sh') \<and> started stored idOf tableOf m sh pc me' sh'"
proof -
  have n: "cache_inv (me_names me)" "contents (me_names me) \<subseteq>\<^sub>m (\<lambda>m. Some (tableOf m))"
    using names by (simp_all add: names_ok_def)
  obtain names1 r where get: "mnc_Get (me_names me) m = (names1, r)" by force
  have n1: "cache_inv names1" "contents names1 \<subseteq>\<^sub>m (\<lambda>m. Some (tableOf m))"
    using mnc.mget_frame [OF n(1) get] n(2) by simp_all
  obtain pool' where pg: "pool_Get (sh_pool sh) = (new_pendingBuffer, pool')" "pool_ok pool'"
    using pool_Get_ok [OF pool] by blast
  show ?thesis
  proof (cases r)
    case (Inr t)
    have "t = tableOf m"
      using mnc.mget_hit [OF n(1) get [unfolded Inr]] n(2) by (auto simp: map_le_def dom_def)
    with get Inr pg n1 show ?thesis
      by (simp add: start_routine_def Let_def started_def names_ok_def answered_Nil new_handler_ok)
  next
    case (Inl e)
    then have e: "e = ErrEntryNotFound" using mnc.mget_miss [OF n(1)] get by blast
    obtain d res where ct: "pc_CreateTable conn (sh_db sh) m = (d, res)" by force
    have mono: "stored (sh_db sh) \<subseteq> stored d" by (rule db_ok_mono(5) [OF db ct])
    obtain t new err where gm: "getMetricTableName (\<lambda>_. res) m = (t, new, err)" by (metis prod_cases3)
    show ?thesis
    proof (cases err)
      case (Some e')
      obtain a where "try_send (Some g) e' (sh_acks sh) = Return a" "answered None [] (sh_acks sh) a"
        using try_send_answers [OF op] by blast
      with get Inl e ct gm Some mono n1 pool show ?thesis
        by (simp add: start_routine_def Let_def started_def names_ok_def)
    next
      case None
      then obtain res' ss where "res = Inr res'" "row_scans res' = Inr (t, new) # ss"
        using gm by (auto simp: getMetricTableName_def split: sum.splits list.splits)
      with db_ok_table [OF db] ct have t: "t = tableOf m" by blast
      obtain names2 where "mnc_Set mk names1 m t = Return (names2, None)" "cache_inv names2"
        "contents names2 \<subseteq>\<^sub>m (\<lambda>m. Some (tableOf m))"
        using mnc.mput_coherent [OF n1] t by blast
      with get Inl e ct gm None mono pg t show ?thesis
        by (simp add: start_routine_def Let_def started_def names_ok_def answered_Nil new_handler_ok)
    qed
  qed
qed

lemma started_inv:
  assumes inv: "sys_inv conn stored idOf tableOf s" and r: "pi_inserters s m = Some r" and pc0: "rt_pc r = Starting g"
    and st: "started stored idOf tableOf m (pi_shared s) pc me sh"
  shows "sys_inv conn stored idOf tableOf
    (s\<lparr>pi_inserters := (pi_inserters s)(m \<mapsto> r\<lparr>rt_pc := pc\<rparr>), pi_env := me, pi_shared := sh\<rparr>)"
proof -
  have parts: "parts_ok idOf tableOf s" using inv by (simp add: sys_inv_def)
  have ro: "routine_ok idOf (tableOf m) r" using parts r by (simp add: parts_ok_def)
  have tasks: "routine_tasks (r\<lparr>rt_pc := pc\<rparr>) = routine_tasks r" and ent: "routine_entries r \<subseteq> routine_entries (r\<lparr>rt_pc := pc\<rparr>)"
    using st pc0 by (auto simp: started_def routine_tasks_def routine_entries_def pc_handler_def new_buffer_empty)
  have ro': "routine_ok idOf (tableOf m) (r\<lparr>rt_pc := pc\<rparr>)"
    using ro st by (auto simp: started_def routine_ok_def)
  show ?thesis
    using routine_transition [OF inv r ro', of sh me "[]" None] st parts tasks ent
    by (auto simp: started_def parts_ok_def)
qed

text \<open>A failed routine answers the request with its error.\<close>

lemma failed_inv:
  assumes inv: "sys_inv conn stored idOf tableOf s" and r: "pi_inserters s m = Some r" and pc0: "rt_pc r = Failed e"
    and inp: "rt_input r = idr # left"
  shows "\<exists>a1 a2. try_send (rq_errChan idr) (failed_err e) (pi_acks s) = Return a1 \<and> wg_Done (rq_finished idr) a1 = Return a2 \<and>
    sys_inv conn stored idOf tableOf
      (s\<lparr>pi_inserters := (pi_inserters s)(m \<mapsto> r\<lparr>rt_input := left\<rparr>), pi_env := pi_env s,
         pi_shared := (pi_shared s)\<lparr>sh_acks := a2\<rparr>\<rparr>)"
proof -
  have parts: "parts_ok idOf tableOf s" and aok: "acks_ok (all_tasks s) (pi_calls s) (pi_acks s)"
    using inv by (simp_all add: sys_inv_def)
  have ro: "routine_ok idOf (tableOf m) r" using parts r by (simp add: parts_ok_def)
  then obtain g where g: "rq_finished idr = Some g" "rq_errChan idr = Some g"
    using inp by (auto simp: routine_ok_def request_ok_def)
  have rt: "request_task idr = task g" using g by (simp add: request_task_def)
  have "finite (dom (pi_inserters s))" using parts by (simp add: parts_ok_def)
  from routine_tasks_sub [OF this r] have sub: "mset (routine_tasks r) \<subseteq># all_tasks s"
    unfolding all_tasks_def by (rule subset_mset.order_trans) simp
  have "task g \<in># mset (routine_tasks r)" using inp rt by (simp add: routine_tasks_def)
  then have mem: "task g \<in># all_tasks s" by (rule mset_subset_eqD [OF sub])
  have "\<not> ak_closed (pi_acks s) g" by (rule acks_ok_open [OF aok mem])
  moreover have "0 < ak_wg (pi_acks s) g"
    using acks_ok_wg [OF aok, of g] mem by (metis count_greater_zero_iff of_nat_0_less_iff order_less_le_trans)
  ultimately obtain a1 a2 where a: "try_send (Some g) (failed_err e) (pi_acks s) = Return a1"
    "wg_Done (Some g) a1 = Return a2" "answered (Some (failed_err e)) [task g] (pi_acks s) a2"
    using answer_one [of "pi_acks s" g "Some (failed_err e)"] by auto
  have ro': "routine_ok idOf (tableOf m) (r\<lparr>rt_input := left\<rparr>)"
    using ro inp pc0 by (simp add: routine_ok_def)
  have tasks: "mset (routine_tasks r) = mset (routine_tasks (r\<lparr>rt_input := left\<rparr>)) + mset [task g]"
    by (simp add: routine_tasks_def inp rt)
  have ent: "(h, x) \<in> routine_entries (r\<lparr>rt_input := left\<rparr>) \<or> ak_err a2 h \<noteq> None" if "(h, x) \<in> routine_entries r" for h x
    using that a(3) pc0 by (auto simp: routine_entries_def pc_handler_def inp batch_entries_def rt answered_def)
  have "sys_inv conn stored idOf tableOf
      (s\<lparr>pi_inserters := (pi_inserters s)(m \<mapsto> r\<lparr>rt_input := left\<rparr>), pi_env := pi_env s,
         pi_shared := (pi_shared s)\<lparr>sh_acks := a2\<rparr>\<rparr>)"
    by (rule routine_transition [OF inv r ro', where ts = "[task g]" and err = "Some (failed_err e)"])
      (use parts tasks a(3) ent in \<open>auto simp: parts_ok_def\<close>)
  with a(1,2) g show ?thesis by simp
qed

text \<open>A step that succeeds, keeps the invariant, or is blocked: never a panic.\<close>

definition safe_step where
  "safe_step conn stored idOf tableOf o' \<longleftrightarrow>
     (case o' of None \<Rightarrow> True | Some (Panic _) \<Rightarrow> False | Some (Return s') \<Rightarrow> sys_inv conn stored idOf tableOf s')"

lemma safe_stepI: "sys_inv conn stored idOf tableOf s' \<Longrightarrow> safe_step conn stored idOf tableOf (Some (Return s'))"
  by (simp add: safe_step_def)

lemma routine_sub:
  assumes "sys_inv conn stored idOf tableOf s" and "pi_inserters s m = Some r" and "mset ts \<subseteq># mset (routine_tasks r)"
  shows "answerable ts (pi_acks s)"
proof -
  have "finite (dom (pi_inserters s))" using assms(1) by (simp add: sys_inv_def parts_ok_def)
  from routine_tasks_sub [OF this assms(2)] have "mset (routine_tasks r) \<subseteq># all_tasks s"
    unfolding all_tasks_def by (rule subset_mset.order_trans) simp
  then have "mset ts \<subseteq># all_tasks s" using assms(3) by (rule subset_mset.order_trans [rotated])
  moreover have "acks_ok (all_tasks s) (pi_calls s) (pi_acks s)" using assms(1) by (simp add: sys_inv_def)
  ultimately show ?thesis by (rule acks_ok_answerable [rotated])
qed

lemma handler_parts:
  assumes "sys_inv conn stored idOf tableOf s" and "pi_inserters s m = Some r" and "pc_handler (rt_pc r) = Some h"
  shows "handler_ok idOf (tableOf m) h" "pool_ok (sh_pool (pi_shared s))" "\<not> sh_copiersClosed (pi_shared s)"
    "rt_input r = req # left \<Longrightarrow> request_ok idOf req"
    "rt_input r = req # left \<Longrightarrow> answerable (pb_needsResponse (ih_pending h) @ [request_task req]) (pi_acks s)"
    "answerable (pb_needsResponse (ih_pending h)) (pi_acks s)"
proof -
  have ro: "routine_ok idOf (tableOf m) r" and p: "parts_ok idOf tableOf s"
    using assms(1,2) by (simp_all add: sys_inv_def parts_ok_def)
  show "handler_ok idOf (tableOf m) h"
    using ro assms(3) by (auto simp: routine_ok_def pc_handler_def split: routine_pc.splits)
  show "pool_ok (sh_pool (pi_shared s))" "\<not> sh_copiersClosed (pi_shared s)" using p by (simp_all add: parts_ok_def)
  show "request_ok idOf req" if "rt_input r = req # left" using ro that by (simp add: routine_ok_def)
  show "answerable (pb_needsResponse (ih_pending h) @ [request_task req]) (pi_acks s)" if "rt_input r = req # left"
    by (rule routine_sub [OF assms(1,2)]) (simp add: routine_tasks_handler [OF assms(3)] that)
  show "answerable (pb_needsResponse (ih_pending h)) (pi_acks s)"
    by (rule routine_sub [OF assms(1,2)]) (simp add: routine_tasks_handler [OF assms(3)])
qed

lemma looptop_inv:
  assumes db: "db_ok conn stored idOf tableOf" and inv: "sys_inv conn stored idOf tableOf s"
    and r: "pi_inserters s m = Some r" and pc: "rt_pc r = LoopTop h"
  shows "safe_step conn stored idOf tableOf (step_inserter conn m mk s)"
proof -
  have pch: "pc_handler (rt_pc r) = Some h" by (simp add: pc pc_handler_def)
  note hp = handler_parts [OF inv r pch]
  have open': "\<not> rt_closed r" using inv r by (auto simp: sys_inv_def parts_ok_def routine_ok_def)
  show ?thesis
  proof (cases "hasPendingReqs h")
    case True
    have "handler_eff stored idOf (tableOf m) (pb_needsResponse (ih_pending h) @ map request_task [])
      (buffer_series (ih_pending h) @ concat (map (\<lambda>q. map strip (rq_data q)) ([] :: insertDataRequest list))) (pi_shared s) h (pi_shared s)"
      using hp(1-3) by (simp add: handler_eff_def kept_by_def)
    from handler_transition [OF inv r pch _ this, of "rt_input r" "HotReceive h"] r True pc show ?thesis
      by (simp add: step_inserter_def routine_step_def safe_step_def)
  next
    case False
    show ?thesis
    proof (cases "rt_input r")
      case Nil
      then show ?thesis using r False pc open' by (simp add: step_inserter_def routine_step_def safe_step_def)
    next
      case (Cons req left)
      obtain h' sh' b where hr: "handleReq conn h req (pi_shared s) = Return (h', sh', b)"
        "handler_eff stored idOf (tableOf m) (pb_needsResponse (ih_pending h) @ map request_task [req])
          (buffer_series (ih_pending h) @ concat (map (\<lambda>q. map strip (rq_data q)) [req])) (pi_shared s) h' sh'"
        using handleReq_eff [OF db hp(1-3) hp(4,5) [OF Cons]] by auto
      from handler_transition [OF inv r pch _ hr(2), of left "LoopTop h'"] Cons r False pc hr(1) show ?thesis
        by (simp add: step_inserter_def routine_step_def safe_step_def)
    qed
  qed
qed

lemma hotreceive_inv:
  assumes db: "db_ok conn stored idOf tableOf" and inv: "sys_inv conn stored idOf tableOf s"
    and r: "pi_inserters s m = Some r" and pc: "rt_pc r = HotReceive h"
  shows "safe_step conn stored idOf tableOf (step_inserter conn m mk s)"
proof -
  have pch: "pc_handler (rt_pc r) = Some h" by (simp add: pc pc_handler_def)
  note hp = handler_parts [OF inv r pch]
  have open': "\<not> rt_closed r" using inv r by (auto simp: sys_inv_def parts_ok_def routine_ok_def)
  show ?thesis
  proof (cases "rt_input r")
    case Nil
    obtain h' sh' where hf: "handler_flush conn h (pi_shared s) = Return (h', sh')"
      "handler_eff stored idOf (tableOf m) (pb_needsResponse (ih_pending h) @ map request_task [])
        (buffer_series (ih_pending h) @ concat (map (\<lambda>q. map strip (rq_data q)) ([] :: insertDataRequest list))) (pi_shared s) h' sh'"
      using handler_flush_eff [OF db hp(1-3) hp(6)] by auto
    have "r\<lparr>rt_input := [], rt_pc := LoopTop h'\<rparr> = r\<lparr>rt_pc := LoopTop h'\<rparr>" using Nil by (cases r) simp
    with handler_transition [OF inv r pch _ hf(2), of "[]" "LoopTop h'"] Nil r pc hf(1) open' show ?thesis
      by (simp add: step_inserter_def routine_step_def safe_step_def)
  next
    case (Cons req left)
    obtain h' sh' pc' where hr: "hot_receive conn h req (pi_shared s) = Return (pc', sh')"
      "pc' = LoopTop h' \<or> pc' = HotReceive h'"
      "handler_eff stored idOf (tableOf m) (pb_needsResponse (ih_pending h) @ map request_task [req])
        (buffer_series (ih_pending h) @ concat (map (\<lambda>q. map strip (rq_data q)) [req])) (pi_shared s) h' sh'"
      using hot_receive_eff [OF db hp(1-3) hp(4,5) [OF Cons]] by auto
    from handler_transition [OF inv r pch _ hr(3,2), of left] Cons r pc hr(1) show ?thesis
      by (simp add: step_inserter_def routine_step_def safe_step_def)
  qed
qed

lemma step_inserter_safe:
  assumes db: "db_ok conn stored idOf tableOf" and inv: "sys_inv conn stored idOf tableOf s"
  shows "safe_step conn stored idOf tableOf (step_inserter conn m mk s)"
proof (cases "pi_inserters s m")
  case None
  then show ?thesis by (simp add: step_inserter_def safe_step_def)
next
  case (Some r)
  have parts: "parts_ok idOf tableOf s" and aok: "acks_ok (all_tasks s) (pi_calls s) (pi_acks s)"
    using inv by (simp_all add: sys_inv_def)
  have ro: "routine_ok idOf (tableOf m) r" using parts Some by (simp add: parts_ok_def)
  show ?thesis
  proof (cases "rt_pc r")
    case (Starting g)
    have "task g \<in> set (routine_tasks r)" using ro Starting by (auto simp: routine_ok_def routine_tasks_def)
    moreover have "answerable (routine_tasks r) (pi_acks s)" by (rule routine_sub [OF inv Some]) simp
    ultimately have op: "\<not> ak_closed (pi_acks s) g" by (force simp: answerable_def)
    have pn: "names_ok tableOf (me_names (pi_env s))" "pool_ok (sh_pool (pi_shared s))" using parts by (simp_all add: parts_ok_def)
    obtain pc me sh where "start_routine conn mk m g (pi_env s) (pi_shared s) = Return (pc, me, sh)"
      "started stored idOf tableOf m (pi_shared s) pc me sh"
      using start_routine_spec [OF db pn op] by blast
    with started_inv [OF inv Some Starting] Some Starting show ?thesis
      by (simp add: step_inserter_def routine_step_def safe_step_def)
  next
    case (Failed e)
    show ?thesis
    proof (cases "rt_input r")
      case Nil
      then show ?thesis using Some Failed ro by (simp add: step_inserter_def routine_step_def safe_step_def routine_ok_def)
    next
      case (Cons idr left)
      from failed_inv [OF inv Some Failed Cons] Some Failed Cons show ?thesis
        by (auto simp: step_inserter_def routine_step_def safe_step_def)
    qed
  next
    case Exited
    then show ?thesis using ro by (simp add: routine_ok_def)
  qed (use looptop_inv [OF db inv Some] hotreceive_inv [OF db inv Some] in blast)+
qed

section \<open>Steps of the copiers and the worker\<close>

lemma take_drop_split: "i < length qs \<Longrightarrow> qs = take i qs @ qs ! i # drop (Suc i) qs"
  by (simp add: Cons_nth_drop_Suc)

lemma step_copier_safe:
  assumes db: "db_ok conn stored idOf tableOf" and inv: "sys_inv conn stored idOf tableOf s"
  shows "safe_step conn stored idOf tableOf (step_copier conn i s)"
proof (cases "i < length (sh_toCopiers (pi_shared s))")
  case False
  then show ?thesis by (simp add: step_copier_def safe_step_def)
next
  case True
  let ?q = "sh_toCopiers (pi_shared s)"
  define left where "left = take i ?q @ drop (Suc i) ?q"
  define req where "req = ?q ! i"
  define sh0 where "sh0 = (pi_shared s)\<lparr>sh_toCopiers := left\<rparr>"
  have split: "?q = take i ?q @ req # drop (Suc i) ?q" using take_drop_split [OF True] by (simp add: req_def)
  have parts: "parts_ok idOf tableOf s" and aok: "acks_ok (all_tasks s) (pi_calls s) (pi_acks s)"
    using inv by (simp_all add: sys_inv_def)
  have qs: "\<forall>q \<in> set ?q. queued_ok idOf q" using parts by (simp add: parts_ok_def list_all_iff)
  have sets: "set ?q = insert req (set left)" by (subst split) (auto simp: left_def)
  have rq: "buffer_ok idOf (cr_data req)" "list_all (resolved idOf) (it_sampleInfos (pb_batch (cr_data req)))"
    using qs sets by (simp_all add: queued_ok_def)
  have tasks: "mset (queue_tasks ?q) = mset (queue_tasks left) + mset (pb_needsResponse (cr_data req))"
    by (subst split) (simp add: queue_tasks_def left_def ac_simps)
  have "mset (pb_needsResponse (cr_data req)) \<subseteq># all_tasks s" unfolding all_tasks_def tasks by simp
  then have ans: "answerable (pb_needsResponse (cr_data req)) (sh_acks sh0)"
    using acks_ok_answerable [OF aok] by (simp add: sh0_def)
  obtain d a err where cr: "copier_round conn req sh0 =
      Return (sh0\<lparr>sh_db := d, sh_acks := a, sh_pool := new_pendingBuffer # sh_pool sh0\<rparr>)"
    "answered err (pb_needsResponse (cr_data req)) (pi_acks s) a" "stored (sh_db (pi_shared s)) \<subseteq> stored d"
    "err = None \<longrightarrow> round_stores conn stored idOf req d"
    using copier_round_spec [OF db rq ans] by (auto simp: sh0_def)
  define s' where "s' = s\<lparr>pi_shared := sh0\<lparr>sh_db := d, sh_acks := a, sh_pool := new_pendingBuffer # sh_pool sh0\<rparr>\<rparr>"
  have "sys_inv conn stored idOf tableOf s'"
  proof (rule inv_transfer [OF inv, where ts = "pb_needsResponse (cr_data req)" and err = err])
    show "parts_ok idOf tableOf s'"
      using parts qs sets by (auto simp: parts_ok_def s'_def sh0_def pool_ok_def list_all_iff)
    show "all_tasks s = all_tasks s' + mset (pb_needsResponse (cr_data req))"
      unfolding all_tasks_def tasks by (simp add: s'_def sh0_def ac_simps)
    show "located conn stored idOf tableOf s' g m x" if "located conn stored idOf tableOf s g m x" for g m x
    proof (cases "(g, x) \<in> queue_entries (tableOf m) ?q \<and> (g, x) \<notin> queue_entries (tableOf m) left")
      case True
      then have e: "cr_table req = tableOf m" "task g \<in> set (pb_needsResponse (cr_data req))" "x \<in> set (buffer_series (cr_data req))"
        unfolding queue_entries_def sets by (auto simp: batch_entries_def)
      show ?thesis
      proof (cases err)
        case None
        with cr(4) e have "series_keys conn idOf (tableOf m) x \<subseteq> stored d" unfolding round_stores_def by metis
        then show ?thesis by (simp add: located_def s'_def)
      next
        case (Some e')
        with cr(2) e(2) have "ak_err a g \<noteq> None" by (auto simp: answered_def)
        then show ?thesis by (simp add: located_def s'_def)
      qed
    next
      case False
      have "ak_err a g \<noteq> None" if "ak_err (pi_acks s) g \<noteq> None" using cr(2) that by (simp add: answered_def)
      with False that cr(3) show ?thesis by (auto simp: located_def s'_def sh0_def)
    qed
  qed (use cr in \<open>simp_all add: s'_def sh0_def\<close>)
  then show ?thesis
    using True cr(1) by (simp add: step_copier_def Let_def safe_step_def s'_def sh0_def left_def req_def)
qed

lemma worker_round_safe:
  assumes db: "db_ok conn stored idOf tableOf" and inv: "sys_inv conn stored idOf tableOf s"
  shows "safe_step conn stored idOf tableOf (worker_round conn s)"
proof (cases "me_signal (pi_env s)")
  case False
  then show ?thesis by (simp add: worker_round_def safe_step_def)
next
  case True
  obtain d err where f: "pc_FinalizeMetric conn (sh_db (pi_shared s)) = (d, err)" by force
  have mono: "stored (sh_db (pi_shared s)) \<subseteq> stored d" by (rule db_ok_mono(6) [OF db f])
  let ?s = "s\<lparr>pi_env := (pi_env s)\<lparr>me_signal := False\<rparr>, pi_shared := (pi_shared s)\<lparr>sh_db := d\<rparr>\<rparr>"
  have "sys_inv conn stored idOf tableOf ?s"
  proof (rule inv_transfer [OF inv, where ts = "[]" and err = None])
    show "parts_ok idOf tableOf ?s" using inv by (simp add: sys_inv_def parts_ok_def)
    show "located conn stored idOf tableOf ?s g m x" if "located conn stored idOf tableOf s g m x" for g m x
      using that mono by (auto simp: located_def)
  qed (use mono in \<open>simp_all add: all_tasks_def answered_Nil\<close>)
  then show ?thesis using True f by (simp add: worker_round_def pi_CompleteMetricCreation_def safe_step_def)
qed

section \<open>Steps of the calls\<close>

lemma located_cong:
  assumes "ak_err (pi_acks s') g = ak_err (pi_acks s) g" and "sh_db (pi_shared s') = sh_db (pi_shared s)"
    and "sh_toCopiers (pi_shared s') = sh_toCopiers (pi_shared s)"
    and "\<And>r. pi_inserters s m = Some r \<Longrightarrow> \<exists>r'. pi_inserters s' m = Some r' \<and> routine_entries r \<subseteq> routine_entries r'"
    and "located conn stored idOf tableOf s g m x"
  shows "located conn stored idOf tableOf s' g m x"
  using assms(5) assms(4) unfolding located_def assms(1-3) by blast

lemma all_located_mono:
  assumes "all_located conn stored idOf tableOf s g rows"
    and "\<And>m x. located conn stored idOf tableOf s g m x \<Longrightarrow> located conn stored idOf tableOf s' g m x"
  shows "all_located conn stored idOf tableOf s' g rows"
  using assms unfolding all_located_def by blast

text \<open>Other calls do not notice a change of one call.\<close>

lemma call_ok_frame:
  assumes "call_ok conn stored idOf tableOf s g c"
    and "ak_closed (pi_acks s') g = ak_closed (pi_acks s) g" and "pi_asyncAcks s' = pi_asyncAcks s"
    and "sh_db (pi_shared s') = sh_db (pi_shared s)"
    and "\<And>m x. located conn stored idOf tableOf s g m x \<Longrightarrow> located conn stored idOf tableOf s' g m x"
  shows "call_ok conn stored idOf tableOf s' g c"
proof -
  have "all_located conn stored idOf tableOf s g rows \<Longrightarrow> all_located conn stored idOf tableOf s' g rows" for rows
    using all_located_mono assms(5) by blast
  then show ?thesis using assms(1) unfolding call_ok_def assms(2-4) by metis
qed

lemma start_call_inv:
  assumes inv: "sys_inv conn stored idOf tableOf s" and new: "pi_calls s g = None" and rows: "rows_ok rows"
  shows "sys_inv conn stored idOf tableOf (start_call g rows s)" (is "sys_inv _ _ _ _ ?s'")
proof -
  have p: "parts_ok idOf tableOf s" and aok: "acks_ok (all_tasks s) (pi_calls s) (pi_acks s)"
    and cs: "\<And>h c. pi_calls s h = Some c \<Longrightarrow> call_ok conn stored idOf tableOf s h c"
    using inv by (simp_all add: sys_inv_def)
  have parts: "parts_ok idOf tableOf ?s'" using p by (simp add: parts_ok_def start_call_def set_acks_def Let_def)
  have tasks: "all_tasks ?s' = all_tasks s" by (simp add: all_tasks_def start_call_def set_acks_def Let_def)
  have none: "task g \<notin># all_tasks s"
  proof
    assume "task g \<in># all_tasks s"
    then obtain h where "task g = task h" "pi_calls s h \<noteq> None" using aok unfolding acks_ok_def by blast
    with new show False by simp
  qed
  have "acks_ok (all_tasks ?s') (pi_calls ?s') (pi_acks ?s')"
    using aok none unfolding tasks acks_ok_def
    by (simp add: start_call_def set_acks_def Let_def not_in_iff) metis
  moreover have "call_ok conn stored idOf tableOf ?s' h c" if hc: "pi_calls ?s' h = Some c" for h c
  proof (cases "h = g")
    case True
    with hc rows show ?thesis
      by (auto simp: call_ok_def start_call_def set_acks_def Let_def all_located_def)
  next
    case False
    then have "pi_calls s h = Some c" using hc by (simp add: start_call_def Let_def set_acks_def)
    from cs [OF this] show ?thesis
      by (rule call_ok_frame) (use False in \<open>auto simp: start_call_def set_acks_def Let_def located_def\<close>)
  qed
  ultimately show ?thesis using parts by (simp add: sys_inv_def)
qed

lemma rows_ok_request:
  assumes "rows_ok rows" and "(metric, data) \<in> set rows"
  shows "request_ok idOf \<lparr>rq_metric = metric, rq_data = data, rq_finished = Some g, rq_errChan = Some g\<rparr>"
  using assms by (fastforce simp: rows_ok_def request_ok_def id_ok_def list_all_iff)

lemma send_next_safe:
  assumes inv: "sys_inv conn stored idOf tableOf s"
  shows "safe_step conn stored idOf tableOf (send_next g s)"
proof (cases "\<exists>c metric data todo. pi_calls s g = Some c \<and> ic_todo c = (metric, data) # todo")
  case False
  then show ?thesis by (auto simp: send_next_def safe_step_def split: option.splits list.splits)
next
  case True
  then obtain c metric data todo where c: "pi_calls s g = Some c" "ic_todo c = (metric, data) # todo" by blast
  have p: "parts_ok idOf tableOf s" and aok: "acks_ok (all_tasks s) (pi_calls s) (pi_acks s)"
    and cs: "\<And>h c. pi_calls s h = Some c \<Longrightarrow> call_ok conn stored idOf tableOf s h c"
    using inv by (simp_all add: sys_inv_def)
  define r where "r = getMetricInserter metric g (pi_inserters s)"
  define req where "req = \<lparr>rq_metric = metric, rq_data = data, rq_finished = Some g, rq_errChan = Some g\<rparr>"
  define r' where "r' = r\<lparr>rt_input := rt_input r @ [req]\<rparr>"
  define s' where "s' = s\<lparr>pi_inserters := (pi_inserters s)(metric \<mapsto> r'), pi_calls := (pi_calls s)(g \<mapsto> c\<lparr>ic_todo := todo\<rparr>)\<rparr>"
  have ro0: "pi_inserters s metric = Some r \<Longrightarrow> routine_ok idOf (tableOf metric) r"
    and fin: "finite (dom (pi_inserters s))" using p by (simp_all add: parts_ok_def)
  have rold: "pi_inserters s metric = Some r \<or> pi_inserters s metric = None \<and> r = \<lparr>rt_input = [], rt_closed = False, rt_pc = Starting g\<rparr>"
    by (cases "pi_inserters s metric") (simp_all add: r_def getMetricInserter_def)
  have cl: "\<not> rt_closed r" using rold ro0 by (auto simp: routine_ok_def)
  have cok: "call_ok conn stored idOf tableOf s g c" by (rule cs [OF c(1)])
  have "(metric, data) \<in> set (ic_rows c)" "rows_ok (ic_rows c)" using cok c(2) by (auto simp: call_ok_def)
  then have req: "request_ok idOf req" unfolding req_def by (rule rows_ok_request [rotated])
  have rt: "request_task req = task g" by (simp add: req_def request_task_def)
  have "routine_ok idOf (tableOf metric) r'"
    using rold ro0 req rt by (auto simp: r'_def routine_ok_def split: routine_pc.splits)
  then have parts: "parts_ok idOf tableOf s'"
    using p by (auto simp: parts_ok_def s'_def)
  have "mset (routine_tasks r') = (case pi_inserters s metric of None \<Rightarrow> {#} | Some r0 \<Rightarrow> mset (routine_tasks r0)) + {#task g#}"
    using rold rt by (auto simp: r'_def routine_tasks_def pc_handler_def)
  then have "ins_tasks ((pi_inserters s)(metric \<mapsto> r')) + (case pi_inserters s metric of None \<Rightarrow> {#} | Some r0 \<Rightarrow> mset (routine_tasks r0)) =
      (ins_tasks (pi_inserters s) + {#task g#}) + (case pi_inserters s metric of None \<Rightarrow> {#} | Some r0 \<Rightarrow> mset (routine_tasks r0))"
    unfolding ins_tasks_upd [OF fin] by (simp only: ac_simps)
  then have "ins_tasks ((pi_inserters s)(metric \<mapsto> r')) = ins_tasks (pi_inserters s) + {#task g#}"
    by (rule add_right_imp_eq)
  then have tasks: "all_tasks s' = all_tasks s + {#task g#}" by (simp add: all_tasks_def s'_def ac_simps)
  have notclosed: "\<not> ak_closed (pi_acks s) g" using aok c unfolding acks_ok_def by auto
  have "acks_ok (all_tasks s') (pi_calls s') (pi_acks s')"
    using aok notclosed c unfolding tasks acks_ok_def by (auto simp: s'_def)
  moreover have loc: "located conn stored idOf tableOf s' h m x" if "located conn stored idOf tableOf s h m x" for h m x
    by (rule located_cong [OF _ _ _ _ that])
      (use rold in \<open>auto simp: s'_def r'_def routine_entries_def\<close>)
  moreover have "call_ok conn stored idOf tableOf s' h c'" if hc: "pi_calls s' h = Some c'" for h c'
  proof (cases "h = g")
    case True
    with hc have c': "c' = c\<lparr>ic_todo := todo\<rparr>" by (simp add: s'_def)
    obtain sent where sent: "ic_rows c = sent @ ic_todo c" "ic_done c = None \<longrightarrow> all_located conn stored idOf tableOf s g sent"
      using cok by (auto simp: call_ok_def)
    have "located conn stored idOf tableOf s' g metric (strip si)" if "si \<in> set data" for si
      using that rt by (auto simp: located_def s'_def r'_def routine_entries_def batch_entries_def req_def)
    moreover have "all_located conn stored idOf tableOf s' g sent" if "ic_done c = None"
      by (rule all_located_mono [OF sent(2) [rule_format, OF that] loc])
    ultimately have "ic_done c = None \<longrightarrow> all_located conn stored idOf tableOf s' g (sent @ [(metric, data)])"
      by (simp add: all_located_def)
    moreover have "ic_rows c' = (sent @ [(metric, data)]) @ ic_todo c'" using sent(1) c(2) c' by simp
    ultimately show ?thesis
      using cok True c' unfolding call_ok_def by (auto simp: s'_def)
  next
    case False
    then have "pi_calls s h = Some c'" using hc by (simp add: s'_def)
    from cs [OF this] show ?thesis by (rule call_ok_frame) (simp_all add: loc, simp_all add: s'_def)
  qed
  ultimately have "sys_inv conn stored idOf tableOf s'" using parts by (simp add: sys_inv_def)
  then show ?thesis
    using c cl by (simp add: send_next_def insertMetricData_def r_def [symmetric] req_def [symmetric] Let_def
        r'_def [symmetric] s'_def safe_step_def)
qed

lemma return_async_safe:
  assumes inv: "sys_inv conn stored idOf tableOf s"
  shows "safe_step conn stored idOf tableOf (return_async g s)"
proof (cases "\<exists>c. pi_calls s g = Some c \<and> pi_asyncAcks s \<and> ic_todo c = [] \<and> ic_result c = None")
  case False
  then show ?thesis by (auto simp: return_async_def safe_step_def split: option.splits)
next
  case True
  then obtain c where c: "pi_calls s g = Some c" "pi_asyncAcks s" "ic_todo c = []" "ic_result c = None" by blast
  define s' where "s' = s\<lparr>pi_calls := (pi_calls s)(g \<mapsto> c\<lparr>ic_result := Some (ic_numRows c, None)\<rparr>)\<rparr>"
  have p: "parts_ok idOf tableOf s" and aok: "acks_ok (all_tasks s) (pi_calls s) (pi_acks s)"
    and cs: "\<And>h c. pi_calls s h = Some c \<Longrightarrow> call_ok conn stored idOf tableOf s h c"
    using inv by (simp_all add: sys_inv_def)
  have tasks: "all_tasks s' = all_tasks s" by (simp add: all_tasks_def s'_def)
  have "acks_ok (all_tasks s') (pi_calls s') (pi_acks s')"
    using aok c(1) unfolding tasks acks_ok_def by (auto simp: s'_def)
  moreover have loc: "located conn stored idOf tableOf s' = located conn stored idOf tableOf s"
    by (simp add: located_def s'_def fun_eq_iff)
  moreover have "call_ok conn stored idOf tableOf s' h c'" if hc: "pi_calls s' h = Some c'" for h c'
  proof (cases "h = g")
    case True
    with hc cs [OF c(1)] c(2) show ?thesis
      by (auto simp: call_ok_def all_located_def loc) (auto simp: s'_def)
  next
    case False
    then have "pi_calls s h = Some c'" using hc by (simp add: s'_def)
    from cs [OF this] show ?thesis by (rule call_ok_frame) (simp_all add: loc, simp_all add: s'_def)
  qed
  ultimately have "sys_inv conn stored idOf tableOf s'" using p by (simp add: sys_inv_def parts_ok_def s'_def)
  then show ?thesis using c by (simp add: return_async_def safe_step_def s'_def)
qed

text \<open>When the wait group of a call is at zero, every series of the call is stored or the call has an error.\<close>

lemma finished_stored:
  assumes inv: "sys_inv conn stored idOf tableOf s" and c: "pi_calls s g = Some c" "ic_todo c = []" "ic_done c = None"
    and wg: "ak_wg (pi_acks s) g = 0" and err: "ak_err (pi_acks s) g = None"
  shows "all_stored conn stored idOf tableOf (sh_db (pi_shared s)) (ic_rows c)"
proof -
  have p: "parts_ok idOf tableOf s" and aok: "acks_ok (all_tasks s) (pi_calls s) (pi_acks s)"
    and cok: "call_ok conn stored idOf tableOf s g c" using inv c(1) by (simp_all add: sys_inv_def)
  have "int (count (all_tasks s) (task g)) + int (length (ic_todo c)) = 0" using aok c(1) wg unfolding acks_ok_def by metis
  then have none: "task g \<notin># all_tasks s" by (simp add: not_in_iff)
  have fin: "finite (dom (pi_inserters s))" using p by (simp add: parts_ok_def)
  have "(g, x) \<notin> routine_entries r" if "pi_inserters s m = Some r" for m r x
  proof
    assume "(g, x) \<in> routine_entries r"
    then have "task g \<in># mset (routine_tasks r)" using entry_routine_task by simp
    then have "task g \<in># ins_tasks (pi_inserters s)" by (rule mset_subset_eqD [OF routine_tasks_sub [OF fin that]])
    with none show False by (simp add: all_tasks_def)
  qed
  moreover have "(g, x) \<notin> queue_entries t (sh_toCopiers (pi_shared s))" for t x
    using entry_queue_task none by (fastforce simp: all_tasks_def)
  ultimately have st: "series_keys conn idOf (tableOf m) x \<subseteq> stored (sh_db (pi_shared s))"
    if "located conn stored idOf tableOf s g m x" for m x
    using that err unfolding located_def by blast
  have "all_located conn stored idOf tableOf s g (ic_rows c)"
    using cok c(2,3) by (auto simp: call_ok_def)
  then show ?thesis using st unfolding all_located_def all_stored_def by blast
qed

lemma finish_call_safe:
  assumes inv: "sys_inv conn stored idOf tableOf s"
  shows "safe_step conn stored idOf tableOf (finish_call g s)"
proof (cases "\<exists>c. pi_calls s g = Some c \<and> ic_todo c = [] \<and> ic_done c = None \<and> ak_wg (pi_acks s) g = 0")
  case False
  then show ?thesis by (auto simp: finish_call_def safe_step_def split: option.splits)
next
  case True
  then obtain c where c: "pi_calls s g = Some c" "ic_todo c = []" "ic_done c = None" "ak_wg (pi_acks s) g = 0" by blast
  define err where "err = ak_err (pi_acks s) g"
  define a where "a = (pi_acks s)\<lparr>ak_err := (ak_err (pi_acks s))(g := None), ak_closed := (ak_closed (pi_acks s))(g := True)\<rparr>"
  define c' where "c' = (if pi_asyncAcks s then c\<lparr>ic_done := Some err\<rparr>
    else c\<lparr>ic_done := Some err, ic_result := Some (ic_numRows c, err)\<rparr>)"
  define n where "n = (if pi_asyncAcks s \<and> err = None
    then map_option (\<lambda>n. wrap64 (n + wrap64 (int (ic_numRows c)))) (pi_insertedDatapoints s) else pi_insertedDatapoints s)"
  define s' where "s' = (set_acks a s)\<lparr>pi_calls := (pi_calls s)(g \<mapsto> c'), pi_insertedDatapoints := n\<rparr>"
  have p: "parts_ok idOf tableOf s" and aok: "acks_ok (all_tasks s) (pi_calls s) (pi_acks s)"
    and cs: "\<And>h c. pi_calls s h = Some c \<Longrightarrow> call_ok conn stored idOf tableOf s h c"
    using inv by (simp_all add: sys_inv_def)
  have cok: "call_ok conn stored idOf tableOf s g c" by (rule cs [OF c(1)])
  have notclosed: "\<not> ak_closed (pi_acks s) g" using cok c(3) by (simp add: call_ok_def)
  have "int (count (all_tasks s) (task g)) + int (length (ic_todo c)) = 0" using aok c(1,4) unfolding acks_ok_def by metis
  then have cnt: "count (all_tasks s) (task g) = 0" by simp
  have tasks: "all_tasks s' = all_tasks s" by (simp add: all_tasks_def s'_def set_acks_def)
  have "acks_ok (all_tasks s') (pi_calls s') (pi_acks s')"
    using aok c cnt unfolding tasks acks_ok_def by (auto simp: s'_def set_acks_def a_def c'_def)
  moreover have "call_ok conn stored idOf tableOf s' h d" if hd: "pi_calls s' h = Some d" for h d
  proof (cases "h = g")
    case True
    with hd have d: "d = c'" by (simp add: s'_def)
    have "err = None \<Longrightarrow> all_stored conn stored idOf tableOf (sh_db (pi_shared s)) (ic_rows c)"
      using finished_stored [OF inv c] by (simp add: err_def)
    with cok c True show ?thesis
      by (auto simp: call_ok_def d c'_def s'_def set_acks_def a_def)
  next
    case False
    then have "pi_calls s h = Some d" using hd by (simp add: s'_def)
    from cs [OF this] show ?thesis
      by (rule call_ok_frame) (use False in \<open>auto simp: s'_def set_acks_def a_def located_def\<close>)
  qed
  ultimately have "sys_inv conn stored idOf tableOf s'"
    using p by (simp add: sys_inv_def parts_ok_def s'_def set_acks_def a_def)
  moreover have "finish_call g s = Some (Return s')"
    using c notclosed
    by (simp add: finish_call_def close_errChan_def Let_def s'_def a_def err_def n_def c'_def set_acks_def)
  ultimately show ?thesis by (simp add: safe_step_def)
qed

lemma exec_action_safe:
  assumes "db_ok conn stored idOf tableOf" and "sys_inv conn stored idOf tableOf s" and "legal a"
  shows "safe_step conn stored idOf tableOf (exec_action conn a s)"
proof (cases a)
  case (StartCall g rows)
  then show ?thesis
    using start_call_inv [OF assms(2)] assms(3) by (simp add: exec_action_def legal_def safe_step_def)
qed (use assms send_next_safe return_async_safe finish_call_safe step_inserter_safe step_copier_safe worker_round_safe
      in \<open>simp_all add: exec_action_def\<close>)

lemma new_inserter_inv:
  assumes "db_ok conn stored idOf tableOf" and "names_ok tableOf names"
    and "newPgxInserter conn names async report d = Inr s0"
  shows "sys_inv conn stored idOf tableOf s0 \<and> pi_asyncAcks s0 = async"
  using assms(2,3)
  by (auto simp: newPgxInserter_def sys_inv_def parts_ok_def pool_ok_def all_tasks_def ins_tasks_def sum_map_def queue_tasks_def
      acks_ok_def split: prod.splits option.splits)

lemma reachable_inv:
  assumes "reachable conn s0 s" and "db_ok conn stored idOf tableOf" and "sys_inv conn stored idOf tableOf s0"
  shows "sys_inv conn stored idOf tableOf s"
  using assms(1)
proof (induction rule: reachable.induct)
  case reach_refl
  show ?case by (rule assms(3))
next
  case (reach_step s a s')
  from exec_action_safe [OF assms(2) reach_step.IH reach_step.hyps(2)] reach_step.hyps(3) show ?case
    by (simp add: safe_step_def)
qed

section \<open>Progress\<close>

definition is_start :: "action \<Rightarrow> bool" where
  "is_start a = (case a of StartCall g rows \<Rightarrow> True | _ \<Rightarrow> False)"

lemma routine_enabled:
  assumes inv: "sys_inv conn stored idOf tableOf s" and r: "pi_inserters s m = Some r" and ts: "routine_tasks r \<noteq> []"
  shows "exec_action conn (RoutineStep m quiet) s \<noteq> None"
proof -
  have ro: "routine_ok idOf (tableOf m) r" using inv r by (simp add: sys_inv_def parts_ok_def)
  have "routine_step conn quiet m r (pi_env s) (pi_shared s) \<noteq> None"
  proof (cases "rt_pc r")
    case (LoopTop h)
    then have "buffer_ok idOf (ih_pending h)" using ro by (simp add: routine_ok_def handler_ok_def)
    then have "hasPendingReqs h \<or> rt_input r \<noteq> []"
      using ts LoopTop by (auto simp: routine_tasks_def pc_handler_def buffer_ok_def hasPendingReqs_def)
    then show ?thesis using LoopTop by (auto simp: routine_step_def split: list.splits)
  qed (use ro ts in \<open>auto simp: routine_step_def routine_ok_def routine_tasks_def pc_handler_def split: list.splits\<close>)
  then show ?thesis using r by (simp add: exec_action_def step_inserter_def)
qed

lemma no_deadlock:
  assumes inv: "sys_inv conn stored idOf tableOf s" and c: "pi_calls s g = Some c" "ic_done c = None"
  shows "\<exists>a. \<not> is_start a \<and> exec_action conn a s \<noteq> None"
proof (cases "ic_todo c")
  case (Cons md todo)
  obtain m data where md: "md = (m, data)" by (cases md)
  show ?thesis
  proof (cases "exec_action conn (SendNext g) s = None")
    case True
    then have full: "inserter_capacity \<le> length (rt_input (getMetricInserter m g (pi_inserters s)))"
      using c Cons md by (auto simp: exec_action_def send_next_def insertMetricData_def Let_def split: if_splits)
    then obtain r where r: "pi_inserters s m = Some r" "rt_input r \<noteq> []"
      by (cases "pi_inserters s m") (force simp: getMetricInserter_def inserter_capacity_def)+
    from routine_enabled [OF inv r(1)] r(2) show ?thesis
      by (intro exI [of _ "RoutineStep m quiet"]) (simp add: is_start_def routine_tasks_def)
  next
    case False
    then show ?thesis by (intro exI [of _ "SendNext g"]) (simp add: is_start_def)
  qed
next
  case Nil
  have p: "parts_ok idOf tableOf s" and aok: "acks_ok (all_tasks s) (pi_calls s) (pi_acks s)"
    using inv by (simp_all add: sys_inv_def)
  have wg: "ak_wg (pi_acks s) g = int (count (all_tasks s) (task g))"
    using aok c(1) Nil unfolding acks_ok_def by fastforce
  show ?thesis
  proof (cases "task g \<in># all_tasks s")
    case False
    then have "ak_wg (pi_acks s) g = 0" using wg by (simp add: not_in_iff)
    then have "exec_action conn (FinishCall g) s \<noteq> None" using c Nil by (simp add: exec_action_def finish_call_def)
    then show ?thesis by (intro exI [of _ "FinishCall g"]) (simp add: is_start_def)
  next
    case True
    have fin: "finite (dom (pi_inserters s))" using p by (simp add: parts_ok_def)
    from True consider "task g \<in># ins_tasks (pi_inserters s)" | "queue_tasks (sh_toCopiers (pi_shared s)) \<noteq> []"
      unfolding all_tasks_def by fastforce
    then show ?thesis
    proof cases
      case 1
      then obtain m r where "pi_inserters s m = Some r" "task g \<in> set (routine_tasks r)"
        using fin by (auto simp: ins_tasks_def sum_map_def set_mset_sum)
      then have "exec_action conn (RoutineStep m quiet) s \<noteq> None" by (intro routine_enabled [OF inv]) auto
      then show ?thesis by (intro exI [of _ "RoutineStep m quiet"]) (simp add: is_start_def)
    next
      case 2
      then have "sh_toCopiers (pi_shared s) \<noteq> []" by (auto simp: queue_tasks_def)
      then have "exec_action conn (CopierStep 0) s \<noteq> None" by (simp add: exec_action_def step_copier_def Let_def)
      then show ?thesis by (intro exI [of _ "CopierStep 0"]) (simp add: is_start_def)
    qed
  qed
qed

text \<open>Every step but the start of a call uses up work.\<close>

definition pc_weight :: "routine_pc \<Rightarrow> nat" where
  "pc_weight pc =
     (case pc of
        Starting g \<Rightarrow> 3 | Failed e \<Rightarrow> 1 | Exited \<Rightarrow> 0
      | LoopTop h \<Rightarrow> if hasPendingReqs h then 4 else 1
      | HotReceive h \<Rightarrow> if hasPendingReqs h then 3 else 2)"

definition routine_weight :: "inserter_routine \<Rightarrow> nat" where
  "routine_weight r = 6 * length (rt_input r) + pc_weight (rt_pc r)"

definition call_weight :: "insert_call \<Rightarrow> nat" where
  "call_weight c = 10 * length (ic_todo c) + (if ic_result c = None then 1 else 0) + (if ic_done c = None then 1 else 0)"

definition work :: "'d pgxInserter \<Rightarrow> nat" where
  "work s = sum_map call_weight (pi_calls s) + sum_map routine_weight (pi_inserters s) +
     length (sh_toCopiers (pi_shared s)) + (if me_signal (pi_env s) then 1 else 0)"

lemma flushPending_weight:
  assumes "flushPending conn h sh = Return (h', sh')" and "pool_ok (sh_pool sh)"
  shows "\<not> hasPendingReqs h' \<and> length (sh_toCopiers sh') \<le> length (sh_toCopiers sh) + 1"
proof -
  have "\<not> hasPendingReqs (k\<lparr>ih_pending := new_pendingBuffer, ih_seriesCache := x\<rparr>)" for k x
    using new_buffer_empty(1) by (simp add: hasPendingReqs_def buffer_series_def)
  moreover have "reportResults p e b = Return (q, a) \<Longrightarrow> q = new_pendingBuffer" for p e b q a
    by (auto simp: reportResults_def outcome_bind_Return_iff new_pendingBuffer_def NewSampleInfoIterator_def)
  ultimately show ?thesis
    using assms(1) pool_Get_ok [OF assms(2)]
    by (fastforce simp: flushPending_def Let_def outcome_bind_Return_iff split: prod.splits sum.splits if_splits)
qed

lemma handleReq_weight:
  assumes "handleReq conn h req sh = Return (h', sh', b)" and "pool_ok (sh_pool sh)"
  shows "sh' = sh \<or> \<not> hasPendingReqs h' \<and> length (sh_toCopiers sh') \<le> length (sh_toCopiers sh) + 1"
  using assms flushPending_weight [OF _ assms(2)]
  by (auto simp: handleReq_def Let_def outcome_bind_Return_iff split: prod.splits if_splits)

lemma handler_flush_weight:
  assumes "handler_flush conn h sh = Return (h', sh')" and "pool_ok (sh_pool sh)"
  shows "\<not> hasPendingReqs h' \<and>
    (if hasPendingReqs h then length (sh_toCopiers sh') \<le> length (sh_toCopiers sh) + 1 else sh' = sh)"
  using assms flushPending_weight [OF _ assms(2)] by (auto simp: handler_flush_def split: if_splits)

lemma hot_receive_weight:
  assumes "hot_receive conn h req sh = Return (pc, sh')" and "pool_ok (sh_pool sh)"
  shows "pc_weight pc + length (sh_toCopiers sh') \<le> length (sh_toCopiers sh) + 3"
proof -
  obtain h1 sh1 b where hr: "handleReq conn h req sh = Return (h1, sh1, b)"
    using assms(1) by (auto simp: hot_receive_def outcome_bind_Return_iff)
  note w = handleReq_weight [OF hr assms(2)]
  show ?thesis
  proof (cases "flushSize \<le> length (it_sampleInfos (pb_batch (ih_pending h1)))")
    case True
    then have "hasPendingReqs h1" by (auto simp: hasPendingReqs_def flushSize_def)
    with w have "sh1 = sh" by blast
    with True hr assms obtain h2 where "handler_flush conn h1 sh = Return (h2, sh')" "pc = LoopTop h2"
      by (auto simp: hot_receive_def outcome_bind_Return_iff)
    with handler_flush_weight [OF _ assms(2)] show ?thesis
      by (fastforce simp: pc_weight_def split: if_splits)
  next
    case False
    then show ?thesis using hr w assms(1) by (auto simp: hot_receive_def pc_weight_def)
  qed
qed

lemma start_routine_weight:
  assumes "start_routine conn mk m g me sh = Return (pc, me', sh')" and "pool_ok (sh_pool sh)"
  shows "pc_weight pc = 1 \<and> sh_toCopiers sh' = sh_toCopiers sh"
proof -
  have "\<not> hasPendingReqs \<lparr>ih_pending = new_pendingBuffer, ih_seriesCache = x, ih_metricTableName = t\<rparr>" for x t
    using new_buffer_empty(1) by (simp add: hasPendingReqs_def buffer_series_def)
  then show ?thesis
    using assms(1) pool_Get_ok [OF assms(2)]
    by (auto simp: start_routine_def Let_def outcome_bind_Return_iff pc_weight_def split: prod.splits sum.splits if_splits option.splits)
qed

lemma routine_step_weight:
  assumes "routine_step conn mk m r me sh = Some (Return (r', me', sh'))" and "pool_ok (sh_pool sh)" and "\<not> rt_closed r"
  shows "routine_weight r' + length (sh_toCopiers sh') + (if me_signal me' then 1 else 0) <
    routine_weight r + length (sh_toCopiers sh) + (if me_signal me then 1 else 0)"
proof (cases "rt_pc r")
  case (Starting g)
  with assms start_routine_weight [OF _ assms(2)] show ?thesis
    by (auto simp: routine_step_def outcome_bind_Return_iff routine_weight_def pc_weight_def)
next
  case (Failed e)
  with assms(1) show ?thesis
    by (auto simp: routine_step_def outcome_bind_Return_iff routine_weight_def pc_weight_def split: list.splits if_splits)
next
  case (LoopTop h)
  show ?thesis
  proof (cases "hasPendingReqs h \<or> rt_input r = []")
    case True
    with LoopTop assms(1) show ?thesis
      by (auto simp: routine_step_def routine_weight_def pc_weight_def split: if_splits list.splits)
  next
    case False
    then obtain req left where inp: "rt_input r = req # left" by (cases "rt_input r") auto
    with LoopTop False assms(1) obtain h' b where hr: "handleReq conn h req sh = Return (h', sh', b)"
      "r' = r\<lparr>rt_input := left, rt_pc := LoopTop h'\<rparr>" "me' = me"
      by (auto simp: routine_step_def outcome_bind_Return_iff)
    show ?thesis
      using handleReq_weight [OF hr(1) assms(2)] hr(2,3) inp LoopTop False
      by (auto simp: routine_weight_def pc_weight_def)
  qed
next
  case (HotReceive h)
  show ?thesis
  proof (cases "rt_input r")
    case Nil
    with HotReceive assms(1,3) obtain h' where hf: "handler_flush conn h sh = Return (h', sh')"
      "r' = r\<lparr>rt_pc := LoopTop h'\<rparr>" "me' = me"
      by (auto simp: routine_step_def outcome_bind_Return_iff)
    show ?thesis
      using handler_flush_weight [OF hf(1) assms(2)] hf(2,3) HotReceive Nil
      by (auto simp: routine_weight_def pc_weight_def split: if_splits)
  next
    case (Cons req left)
    with HotReceive assms(1) obtain pc where hr: "hot_receive conn h req sh = Return (pc, sh')"
      "r' = r\<lparr>rt_input := left, rt_pc := pc\<rparr>" "me' = me"
      by (auto simp: routine_step_def outcome_bind_Return_iff)
    show ?thesis
      using hot_receive_weight [OF hr(1) assms(2)] hr(2,3) HotReceive Cons
      by (auto simp: routine_weight_def pc_weight_def [of "HotReceive h"])
  qed
next
  case Exited
  with assms(1) show ?thesis by (simp add: routine_step_def)
qed

text \<open>The calls stay finitely many.\<close>

lemma exec_action_frame:
  assumes "exec_action conn a s = Some (Return s')"
  shows "pi_asyncAcks s' = pi_asyncAcks s \<and> (finite (dom (pi_calls s)) \<longrightarrow> finite (dom (pi_calls s')))"
  using assms
  by (cases a)
    (auto simp: exec_action_def start_call_def set_acks_def send_next_def return_async_def finish_call_def step_inserter_def
      step_copier_def worker_round_def Let_def outcome_bind_Return_iff split: option.splits list.splits if_splits)

lemma copier_round_queue: "copier_round conn req sh = Return sh' \<Longrightarrow> sh_toCopiers sh' = sh_toCopiers sh"
  by (auto simp: copier_round_def outcome_bind_Return_iff)

lemma exec_action_work:
  assumes inv: "sys_inv conn stored idOf tableOf s" and fin: "finite (dom (pi_calls s))"
    and ex: "exec_action conn a s = Some (Return s')" and a: "\<not> is_start a"
  shows "work s' < work s"
proof -
  have p: "parts_ok idOf tableOf s" using inv by (simp add: sys_inv_def)
  have fi: "finite (dom (pi_inserters s))" and pool: "pool_ok (sh_pool (pi_shared s))"
    using p by (simp_all add: parts_ok_def)
  note cu = sum_map_upd [OF fin, of call_weight] and iu = sum_map_upd [OF fi, of routine_weight]
  show ?thesis
  proof (cases a)
    case (StartCall g rows)
    with a show ?thesis by (simp add: is_start_def)
  next
    case (SendNext g)
    then obtain c m data todo r where c: "pi_calls s g = Some c" "ic_todo c = (m, data) # todo"
      "r = getMetricInserter m g (pi_inserters s)"
      "s' = s\<lparr>pi_inserters := (pi_inserters s)(m \<mapsto> r\<lparr>rt_input := rt_input r @
          [\<lparr>rq_metric = m, rq_data = data, rq_finished = Some g, rq_errChan = Some g\<rparr>]\<rparr>),
        pi_calls := (pi_calls s)(g \<mapsto> c\<lparr>ic_todo := todo\<rparr>)\<rparr>"
      using ex by (auto simp: exec_action_def send_next_def insertMetricData_def Let_def outcome_bind_Return_iff
          split: option.splits list.splits if_splits)
    show ?thesis
      using cu [of g "c\<lparr>ic_todo := todo\<rparr>"] iu [of m "r\<lparr>rt_input := rt_input r @
          [\<lparr>rq_metric = m, rq_data = data, rq_finished = Some g, rq_errChan = Some g\<rparr>]\<rparr>"] c
      by (cases "pi_inserters s m")
        (auto simp: work_def call_weight_def routine_weight_def getMetricInserter_def pc_weight_def)
  next
    case (ReturnAsync g)
    then obtain c where c: "pi_calls s g = Some c" "ic_result c = None"
      "s' = s\<lparr>pi_calls := (pi_calls s)(g \<mapsto> c\<lparr>ic_result := Some (ic_numRows c, None)\<rparr>)\<rparr>"
      using ex by (auto simp: exec_action_def return_async_def split: option.splits if_splits)
    show ?thesis
      using cu [of g "c\<lparr>ic_result := Some (ic_numRows c, None)\<rparr>"] c by (simp add: work_def call_weight_def)
  next
    case (FinishCall g)
    then obtain c where c: "pi_calls s g = Some c" "ic_done c = None"
      using ex by (auto simp: exec_action_def finish_call_def split: option.splits if_splits)
    define c' where "c' = the (pi_calls s' g)"
    have s': "pi_calls s' = (pi_calls s)(g \<mapsto> c')" "pi_inserters s' = pi_inserters s" "pi_env s' = pi_env s"
      "sh_toCopiers (pi_shared s') = sh_toCopiers (pi_shared s)" "call_weight c' < call_weight c"
      using ex c FinishCall
      by (auto simp: c'_def exec_action_def finish_call_def Let_def outcome_bind_Return_iff call_weight_def
          set_acks_def split: if_splits)
    show ?thesis using cu [of g c'] c s' by (simp add: work_def)
  next
    case (RoutineStep m mk)
    then obtain r r' me sh where r: "pi_inserters s m = Some r"
      "routine_step conn mk m r (pi_env s) (pi_shared s) = Some (Return (r', me, sh))"
      "s' = s\<lparr>pi_inserters := (pi_inserters s)(m \<mapsto> r'), pi_env := me, pi_shared := sh\<rparr>"
      using ex by (auto simp: exec_action_def step_inserter_def outcome_bind_Return_iff split: option.splits)
    have "\<not> rt_closed r" using p r(1) by (simp add: parts_ok_def routine_ok_def)
    from routine_step_weight [OF r(2) pool this] show ?thesis
      using iu [of m r'] r(1,3) by (simp add: work_def)
  next
    case (CopierStep i)
    let ?q = "sh_toCopiers (pi_shared s)"
    from CopierStep obtain sh where i: "i < length ?q"
      "copier_round conn (?q ! i) ((pi_shared s)\<lparr>sh_toCopiers := take i ?q @ drop (Suc i) ?q\<rparr>) = Return sh"
      "s' = s\<lparr>pi_shared := sh\<rparr>"
      using ex by (auto simp: exec_action_def step_copier_def Let_def outcome_bind_Return_iff split: if_splits)
    then have "length (sh_toCopiers sh) < length ?q" using copier_round_queue [OF i(2)] by simp
    then show ?thesis using i(3) by (simp add: work_def)
  next
    case WorkerStep
    with ex show ?thesis by (auto simp: exec_action_def worker_round_def work_def split: if_splits)
  qed
qed

section \<open>Executions\<close>

fun run_actions :: "'d pgxConn \<Rightarrow> action list \<Rightarrow> 'd pgxInserter \<Rightarrow> 'd pgxInserter option" where
  "run_actions conn [] s = Some s"
| "run_actions conn (a # as) s =
     (case exec_action conn a s of Some (Return s') \<Rightarrow> run_actions conn as s' | _ \<Rightarrow> None)"

lemma run_reachable:
  "run_actions conn as s = Some s' \<Longrightarrow> list_all legal as \<Longrightarrow> reachable conn s0 s \<Longrightarrow> reachable conn s0 s'"
  by (induction as arbitrary: s) (auto split: option.splits outcome.splits intro: reach_step)

lemma not_start_legal: "\<not> is_start a \<Longrightarrow> legal a"
  by (cases a) (simp_all add: is_start_def legal_def)

lemma reachable_frame:
  assumes "reachable conn s0 s"
  shows "pi_asyncAcks s = pi_asyncAcks s0 \<and> (finite (dom (pi_calls s0)) \<longrightarrow> finite (dom (pi_calls s)))"
  using assms
proof (induction rule: reachable.induct)
  case (reach_step s a s')
  then show ?case using exec_action_frame [OF reach_step.hyps(3)] by simp
qed simp

text \<open>A started inserter and a state it can reach.\<close>

definition inserter_run where
  "inserter_run conn stored idOf tableOf names async report d s \<longleftrightarrow>
     db_ok conn stored idOf tableOf \<and> names_ok tableOf names \<and>
     (\<exists>s0. newPgxInserter conn names async report d = Inr s0 \<and> reachable conn s0 s)"

lemma inserter_run_inv:
  assumes "inserter_run conn stored idOf tableOf names async report d s"
  shows "db_ok conn stored idOf tableOf" "sys_inv conn stored idOf tableOf s" "pi_asyncAcks s = async"
    "finite (dom (pi_calls s))"
proof -
  obtain s0 where s0: "newPgxInserter conn names async report d = Inr s0" "reachable conn s0 s"
    and ok: "db_ok conn stored idOf tableOf" "names_ok tableOf names"
    using assms unfolding inserter_run_def by blast
  note inv = new_inserter_inv [OF ok s0(1)]
  have "pi_calls s0 = Map.empty" using s0(1) by (auto simp: newPgxInserter_def split: prod.splits option.splits)
  then show "sys_inv conn stored idOf tableOf s" "pi_asyncAcks s = async" "finite (dom (pi_calls s))"
    using reachable_inv [OF s0(2) ok(1)] inv reachable_frame [OF s0(2)] by simp_all
qed (use assms in \<open>simp add: inserter_run_def\<close>)

lemma inserter_run_step:
  assumes "inserter_run conn stored idOf tableOf names async report d s" and "legal a"
    and "exec_action conn a s = Some (Return s')"
  shows "inserter_run conn stored idOf tableOf names async report d s'"
  using assms reach_step unfolding inserter_run_def by blast

lemma run_bounded:
  assumes "inserter_run conn stored idOf tableOf names async report d s"
    and "list_all (\<lambda>a. \<not> is_start a) as" and "run_actions conn as s = Some s'"
  shows "length as \<le> work s"
  using assms
proof (induction as arbitrary: s)
  case (Cons a as)
  then obtain s1 where ex: "exec_action conn a s = Some (Return s1)" "run_actions conn as s1 = Some s'"
    by (auto split: option.splits outcome.splits)
  note inv = inserter_run_inv [OF Cons.prems(1)]
  have "work s1 < work s" using exec_action_work [OF inv(2,4) ex(1)] Cons.prems(2) by simp
  moreover have "length as \<le> work s1"
    using Cons.IH [OF inserter_run_step [OF Cons.prems(1) _ ex(1)]] Cons.prems(2) ex(2) not_start_legal by simp
  ultimately show ?case by simp
qed simp

lemma run_to_completion:
  assumes "inserter_run conn stored idOf tableOf names async report d s"
  shows "\<exists>as s'. list_all (\<lambda>a. \<not> is_start a) as \<and> run_actions conn as s = Some s' \<and>
    (\<forall>g c. pi_calls s' g = Some c \<longrightarrow> ic_done c \<noteq> None)"
  using assms
proof (induction "work s" arbitrary: s rule: less_induct)
  case less
  note inv = inserter_run_inv [OF less.prems]
  show ?case
  proof (cases "\<exists>g c. pi_calls s g = Some c \<and> ic_done c = None")
    case False
    then show ?thesis by (intro exI [of _ "[]"] exI [of _ s]) auto
  next
    case True
    then obtain a where a: "\<not> is_start a" "exec_action conn a s \<noteq> None" using no_deadlock [OF inv(2)] by blast
    from exec_action_safe [OF inv(1,2) not_start_legal [OF a(1)]] a(2)
    obtain s1 where s1: "exec_action conn a s = Some (Return s1)"
      by (cases "the (exec_action conn a s)") (auto simp: safe_step_def)
    have "work s1 < work s" by (rule exec_action_work [OF inv(2,4) s1 a(1)])
    from less.hyps [OF this inserter_run_step [OF less.prems not_start_legal [OF a(1)] s1]]
    obtain as s' where "list_all (\<lambda>a. \<not> is_start a) as" "run_actions conn as s1 = Some s'"
      "\<forall>g c. pi_calls s' g = Some c \<longrightarrow> ic_done c \<noteq> None" by blast
    then show ?thesis using a(1) s1 by (intro exI [of _ "a # as"] exI [of _ s']) simp
  qed
qed


section \<open>An example run\<close>

definition ex_rows :: metric_data where
  "ex_rows = [(''cpu'', [\<lparr>si_labels = new_labels [] [], si_seriesID = - 1,
     si_samples = \<lparr>sl_base = Some 1, sl_elems = [\<lparr>s_Value = 0, s_Timestamp = 10\<rparr>]\<rparr>\<rparr>])]"

lemma ex_rows_ok: "rows_ok ex_rows"
  by (simp add: ex_rows_def rows_ok_def no_empty_def labels_ok_def decode_str.simps new_labels_def)

definition ex_inserter :: "(string \<times> int \<times> int) list pgxInserter" where
  "ex_inserter = (case newPgxInserter ex_conn (WithMax 2) False 0 [] of Inr s \<Rightarrow> s)"

definition ex_actions :: "action list" where
  "ex_actions = [StartCall 0 ex_rows, SendNext 0, RoutineStep ''cpu'' quiet, RoutineStep ''cpu'' quiet,
     RoutineStep ''cpu'' quiet, RoutineStep ''cpu'' quiet, CopierStep 0, FinishCall 0]"

lemma ex_run:
  "map_option (\<lambda>s. (map_option (\<lambda>c. (ic_rows c, ic_result c)) (pi_calls s 0), sh_db (pi_shared s)))
     (run_actions ex_conn ex_actions ex_inserter) =
   Some (Some (ex_rows, Some (1, None)), [(''cpu'', 10000000, 7)])"
  by (simp add: ex_actions_def ex_inserter_def ex_rows_def ex_conn_def newPgxInserter_def pi_CompleteMetricCreation_def
      exec_action_def start_call_def set_acks_def count_rows_def send_next_def insertMetricData_def getMetricInserter_def
      inserter_capacity_def step_inserter_def routine_step_def start_routine_def mnc_Get_def Get_def cache_get_def WithMax_def
      getMetricTableName_def mnc_Set_def Insert_def cache_insert_def new_element_def pool_Get_def hasPendingReqs_def
      new_pendingBuffer_def NewSampleInfoIterator_def ResetPosition_def zero_iterator_def handleReq_def addReq_def flushSize_def
      fillKnowSeriesIds_def known_id_def new_labels_def labels_String_def Let_def
      handler_flush_def flushPending_def setSeriesIds_def missing_series_def set_ids_def query_of_def
      step_copier_def copier_round_def doInsert_def drain.simps it_Next_def it_Values_def num_samples_def
      reportResults_def wg_Done_def finish_call_def close_errChan_def)

lemma names_ok_WithMax: "names_ok tableOf (WithMax n)"
  using WithMax_inv [of n] by (simp add: names_ok_def contents_def [abs_def] WithMax_def map_le_def dom_def)

lemma ex_inserter_run:
  assumes "run_actions ex_conn as ex_inserter = Some s" and "list_all legal as"
  shows "inserter_run ex_conn set (\<lambda>_. 7) (\<lambda>m. m) (WithMax 2) False 0 [] s"
proof -
  have "newPgxInserter ex_conn (WithMax 2) False 0 [] = Inr ex_inserter"
    by (simp add: ex_inserter_def newPgxInserter_def pi_CompleteMetricCreation_def ex_conn_def)
  then show ?thesis
    using run_reachable [OF assms(1,2) reach_refl] ex_conn_ok names_ok_WithMax
    unfolding inserter_run_def by blast
qed

lemma ex_actions_legal: "list_all legal ex_actions"
  by (simp add: ex_actions_def legal_def ex_rows_ok)

lemma ex_state:
  obtains s c where "inserter_run ex_conn set (\<lambda>_. 7) (\<lambda>m. m) (WithMax 2) False 0 [] s"
    "pi_calls s 0 = Some c" "ic_result c = Some (1, None)" "ic_rows c = ex_rows"
  using ex_run ex_inserter_run [OF _ ex_actions_legal] by auto


section \<open>Properties\<close>



text \<open>
  C3: no panic.  In every reachable state of an open inserter no step of any goroutine panics: no wait
  group goes below zero, nothing is sent on a closed error channel or to closed copiers, no
  nil pointer is dereferenced, and the check of \<open>doInsert\<close> for an invalid request never fires.
\<close>
theorem inserter_never_panics:
  assumes "inserter_run conn stored idOf tableOf names async report d s" and "legal a"
  shows "exec_action conn a s \<noteq> Some (Panic msg)"
  using exec_action_safe [OF inserter_run_inv(1,2) [OF assms(1)] assms(2)]
  by (auto simp: safe_step_def)

theorem inserter_never_panics_witness:
  "\<exists>s. inserter_run ex_conn set (\<lambda>_. 7) (\<lambda>m. m) (WithMax 2) False 0 [] s \<and> pi_calls s 0 \<noteq> None \<and>
     exec_action ex_conn (CopierStep 0) s \<noteq> Some (Panic ''invalid insert request'')"
proof -
  obtain s c where s: "inserter_run ex_conn set (\<lambda>_. 7) (\<lambda>m. m) (WithMax 2) False 0 [] s"
    "pi_calls s 0 = Some c" "ic_result c = Some (1, None)" "ic_rows c = ex_rows" by (rule ex_state)
  have "legal (CopierStep 0)" by (simp add: legal_def)
  from inserter_never_panics [OF s(1) this] s(2) s(1) show ?thesis by blast
qed



text \<open>
  exact accounting.  In every reachable state the wait group of a call counts the metrics it has not
  sent yet and its requests that wait in a channel, in a handler's buffer or at the copiers, so every
  request is answered exactly once.
\<close>
theorem wait_group_accounting:
  assumes "inserter_run conn stored idOf tableOf names async report d s" and "pi_calls s g = Some c"
  shows "ak_wg (pi_acks s) g = int (count (all_tasks s) \<lparr>tk_finished = Some g, tk_errChan = Some g\<rparr>) + int (length (ic_todo c))"
  using inserter_run_inv(2) [OF assms(1)] assms(2) unfolding sys_inv_def acks_ok_def by blast

theorem wait_group_accounting_witness:
  "\<exists>s c. pi_calls s 0 = Some c \<and> ic_result c = Some (1, None) \<and>
     ak_wg (pi_acks s) 0 = int (count (all_tasks s) \<lparr>tk_finished = Some 0, tk_errChan = Some 0\<rparr>) + int (length (ic_todo c)) \<and>
     inserter_run ex_conn set (\<lambda>_. 7) (\<lambda>m. m) (WithMax 2) False 0 [] s"
proof -
  obtain s c where s: "inserter_run ex_conn set (\<lambda>_. 7) (\<lambda>m. m) (WithMax 2) False 0 [] s"
    "pi_calls s 0 = Some c" "ic_result c = Some (1, None)" "ic_rows c = ex_rows" by (rule ex_state)
  from wait_group_accounting [OF s(1,2)] s show ?thesis by blast
qed

text \<open>
  C35: after \<open>Close\<close>, a goroutine in its \<open>hotReceive\<close> loop with less than a full batch receives zero values
  from the closed channel for ever: the step changes nothing but adds a task with a nil wait
  group, and the same hypotheses hold again, so the loop neither flushes nor ends.
\<close>
theorem closed_hot_loop_spins:
  assumes "rt_closed r" and "rt_input r = []" and "rt_pc r = HotReceive h"
    and "length (it_sampleInfos (pb_batch (ih_pending h))) < flushSize"
  shows "\<exists>r' h'. routine_step conn mk metric r me sh = Some (Return (r', me, sh)) \<and>
    rt_closed r' \<and> rt_input r' = [] \<and> rt_pc r' = HotReceive h' \<and>
    it_sampleInfos (pb_batch (ih_pending h')) = it_sampleInfos (pb_batch (ih_pending h)) \<and>
    pb_needsResponse (ih_pending h') = pb_needsResponse (ih_pending h) @ [\<lparr>tk_finished = None, tk_errChan = None\<rparr>]"
  using assms
  by (simp add: routine_step_def hot_receive_def handleReq_def addReq_def zero_request_def fillKnowSeriesIds_def Let_def)

theorem closed_hot_loop_spins_witness:
  "\<exists>r' h'. routine_step ex_conn quiet ''cpu''
      \<lparr>rt_input = [], rt_closed = True, rt_pc = HotReceive \<lparr>ih_pending = new_pendingBuffer, ih_seriesCache = Map.empty, ih_metricTableName = ''t''\<rparr>\<rparr>
      (pi_env ex_inserter) (pi_shared ex_inserter) = Some (Return (r', pi_env ex_inserter, pi_shared ex_inserter)) \<and>
    rt_closed r' \<and> rt_pc r' = HotReceive h'"
  using closed_hot_loop_spins [of "\<lparr>rt_input = [], rt_closed = True, rt_pc = HotReceive \<lparr>ih_pending = new_pendingBuffer, ih_seriesCache = Map.empty, ih_metricTableName = ''t''\<rparr>\<rparr>"
      "\<lparr>ih_pending = new_pendingBuffer, ih_seriesCache = Map.empty, ih_metricTableName = ''t''\<rparr>" ex_conn quiet "''cpu''" "pi_env ex_inserter" "pi_shared ex_inserter"]
    new_buffer_empty(1)
  by (auto simp: buffer_series_def flushSize_def)

end
