(* ===== verification/Election.thy ===== *)
theory Election
  imports Metric_Cache
begin

text \<open>
  Leader election, \<open>pkg/util/lock.go\<close> and \<open>pkg/util/election.go\<close>: the PostgreSQL advisory lock, the
  election driven over REST, and the scheduled elector with the liveness check of Prometheus.

  The lock server is not part of the repository: its state \<open>'w\<close> and its operations on sessions
  \<open>'c\<close> are a parameter, the record \<open>lock_server\<close>.  A call runs to completion, panics, or
  waits for ever for a mutex that nobody will unlock.  The interface \<open>Election\<close> is the locale
  \<open>leader_election\<close>, interpreted on both implementations.
\<close>


section \<open>Calls that may block\<close>

datatype 'a run = Blocked | Panicked string | Finished 'a

definition run_bind :: "'a run \<Rightarrow> ('a \<Rightarrow> 'b run) \<Rightarrow> 'b run" where
  "run_bind m f = (case m of Blocked \<Rightarrow> Blocked | Panicked s \<Rightarrow> Panicked s | Finished a \<Rightarrow> f a)"

lemma run_bind_simps [simp, go_simps]:
  "run_bind Blocked f = Blocked"
  "run_bind (Panicked s) f = Panicked s"
  "run_bind (Finished a) f = f a"
  by (simp_all add: run_bind_def)

type_synonym 's ask = "'s \<Rightarrow> ('s \<times> bool result) run"
type_synonym 's tell = "'s \<Rightarrow> ('s \<times> go_error option) run"


section \<open>The advisory lock\<close>

record ('w, 'c) lock_server =
  sv_Connect :: "'w \<Rightarrow> string \<Rightarrow> 'w \<times> 'c result"
  sv_Select1 :: "'w \<Rightarrow> 'c \<Rightarrow> 'w \<times> go_error option"
  sv_TryLock :: "'w \<Rightarrow> 'c \<Rightarrow> int \<Rightarrow> 'w \<times> bool rows result"
  sv_UnlockAll :: "'w \<Rightarrow> 'c \<Rightarrow> 'w \<times> go_error option"
  sv_Close :: "'w \<Rightarrow> 'c \<Rightarrow> 'w \<times> go_error option"
  sv_Text :: "go_error \<Rightarrow> string"

text \<open>\<open>sv_Text\<close> is the method \<open>Error\<close> of the error values.\<close>

record 'c pg_lock =
  lk_conn :: "'c option"
  lk_connStr :: string
  lk_groupLockID :: int
  lk_mutex :: bool
  lk_obtained :: bool

definition checkConnection :: "('w, 'c) lock_server \<Rightarrow> 'w \<Rightarrow> 'c \<Rightarrow> 'w \<times> go_error option" where
  "checkConnection srv w c =
     (case sv_Select1 srv w c of
        (w', None) \<Rightarrow> (w', None)
      | (w', Some e) \<Rightarrow> (w', Some (ErrMsg (''invalid connection: '' @ sv_Text srv e))))"

text \<open>\<open>left\<close> is \<open>maxRetries - cur\<close>.\<close>

fun getConn :: "('w, 'c) lock_server \<Rightarrow> 'w \<Rightarrow> string \<Rightarrow> nat \<Rightarrow> 'w \<times> 'c result" where
  "getConn srv w connStr 0 =
     (w, Inl (ErrMsg ''max attempts reached. giving up on getting a db connection''))"
| "getConn srv w connStr (Suc left) =
     (case sv_Connect srv w connStr of
        (w1, Inl e) \<Rightarrow> (w1, Inl (ErrMsg (''error getting DB connection: '' @ sv_Text srv e)))
      | (w1, Inr lockConn) \<Rightarrow>
          (case checkConnection srv w1 lockConn of
             (w2, None) \<Rightarrow> (w2, Inr lockConn)
           | (w2, Some e) \<Rightarrow> getConn srv w2 connStr left))"

definition connCleanUp :: "('w, 'c) lock_server \<Rightarrow> 'w \<times> 'c pg_lock \<Rightarrow> 'w \<times> 'c pg_lock" where
  "connCleanUp srv s =
     (case s of (w, l) \<Rightarrow>
        (case lk_conn l of
           None \<Rightarrow> (w, l)
         | Some c \<Rightarrow> (fst (sv_Close srv w c), l\<lparr>lk_conn := None\<rparr>)))"

text \<open>The part of \<open>getAdvisoryLock\<close> after the connection is there.\<close>

definition query_lock ::
  "('w, 'c) lock_server \<Rightarrow> 'w \<Rightarrow> 'c pg_lock \<Rightarrow> 'c \<Rightarrow> ('w \<times> 'c pg_lock) \<times> bool result" where
  "query_lock srv w l c =
     (case sv_TryLock srv w c (lk_groupLockID l) of
        (w', Inl e) \<Rightarrow> (connCleanUp srv (w', l), Inl e)
      | (w', Inr rows) \<Rightarrow>
          (case row_scans rows of
             [] \<Rightarrow>
               (case rows_err rows of
                  Some e \<Rightarrow> (connCleanUp srv (w', l), Inl (ErrMsg
                    (''error while trying to read response rows from `pg_try_advisory_lock` function: '' @ sv_Text srv e)))
                | None \<Rightarrow> ((w', l), Inl (ErrMsg ''missing response row from `pg_try_advisory_lock` function'')))
           | Inl e # _ \<Rightarrow> ((w', l), Inl e)
           | Inr res # _ \<Rightarrow> ((w', l), Inr res)))"

definition getAdvisoryLock ::
  "('w, 'c) lock_server \<Rightarrow> 'w \<times> 'c pg_lock \<Rightarrow> ('w \<times> 'c pg_lock) \<times> bool result" where
  "getAdvisoryLock srv s =
     (case s of (w, l) \<Rightarrow>
        (case lk_conn l of
           Some c \<Rightarrow> query_lock srv w l c
         | None \<Rightarrow>
             (case getConn srv w (lk_connStr l) 10 of
                (w1, Inl e) \<Rightarrow> ((w1, l), Inl e)
              | (w1, Inr c) \<Rightarrow> query_lock srv w1 (l\<lparr>lk_conn := Some c\<rparr>) c)))"

definition TryLock :: "('w, 'c) lock_server \<Rightarrow> ('w \<times> 'c pg_lock) ask" where
  "TryLock srv s =
     (if lk_mutex (snd s) then Blocked
      else (case getAdvisoryLock srv s of
              ((w, l), Inl e) \<Rightarrow> Finished ((w, l\<lparr>lk_obtained := False\<rparr>), Inl e)
            | ((w, l), Inr False) \<Rightarrow> Finished ((w, l\<lparr>lk_obtained := False\<rparr>), Inr False)
            | ((w, l), Inr True) \<Rightarrow> Finished ((w, l\<lparr>lk_obtained := True\<rparr>), Inr True)))"

definition NewPgAdvisoryLock ::
  "('w, 'c) lock_server \<Rightarrow> 'w \<Rightarrow> int \<Rightarrow> string \<Rightarrow> ('w \<times> 'c pg_lock result) run" where
  "NewPgAdvisoryLock srv w groupLockID connStr =
     run_bind (TryLock srv (w, \<lparr>lk_conn = None, lk_connStr = connStr, lk_groupLockID = groupLockID,
                                lk_mutex = False, lk_obtained = False\<rparr>))
       (\<lambda>((w', l), r). Finished (w', case r of Inl e \<Rightarrow> Inl e | Inr _ \<Rightarrow> Inr l))"

definition lock_ID :: "'c pg_lock \<Rightarrow> string" where
  "lock_ID l = show_int (lk_groupLockID l)"

definition lock_BecomeLeader :: "('w, 'c) lock_server \<Rightarrow> ('w \<times> 'c pg_lock) ask" where
  "lock_BecomeLeader srv = TryLock srv"

definition lock_IsLeader :: "('w, 'c) lock_server \<Rightarrow> ('w \<times> 'c pg_lock) ask" where
  "lock_IsLeader srv = TryLock srv"

text \<open>
  \<open>Release\<close>: the unlocking of the mutex is deferred only after the check, so the early return
  leaves it locked.  A nil connection panics; the deferred unlock has been registered by then.
\<close>

definition Release :: "('w, 'c) lock_server \<Rightarrow> ('w \<times> 'c pg_lock) tell" where
  "Release srv s =
     (case s of (w, l) \<Rightarrow>
        if lk_mutex l then Blocked
        else if \<not> lk_obtained l
        then Finished ((w, l\<lparr>lk_mutex := True\<rparr>), Some (ErrMsg ''can't release while not holding the lock''))
        else (case lk_conn l of
                None \<Rightarrow> Panicked ''invalid memory address or nil pointer dereference''
              | Some c \<Rightarrow>
                  (case sv_UnlockAll srv w c of
                     (w', Some e) \<Rightarrow> Finished ((w', l), Some e)
                   | (w', None) \<Rightarrow> Finished ((w', l\<lparr>lk_obtained := False\<rparr>), None))))"

definition lock_Resign :: "('w, 'c) lock_server \<Rightarrow> ('w \<times> 'c pg_lock) tell" where
  "lock_Resign srv = Release srv"

definition lock_Close :: "('w, 'c) lock_server \<Rightarrow> 'w \<times> 'c pg_lock \<Rightarrow> ('w \<times> 'c pg_lock) run" where
  "lock_Close srv s = (if lk_mutex (snd s) then Blocked else Finished (connCleanUp srv s))"

definition Locked :: "'w \<times> 'c pg_lock \<Rightarrow> bool run" where
  "Locked s = (if lk_mutex (snd s) then Blocked else Finished (lk_obtained (snd s)))"


section \<open>Election over REST\<close>

record rest_election =
  re_leader :: bool

definition rest_ID :: "rest_election \<Rightarrow> string" where
  "rest_ID r = ''''"

definition rest_BecomeLeader :: "rest_election ask" where
  "rest_BecomeLeader r =
     (if re_leader r then Finished (r, Inr (re_leader r))
      else Finished (r\<lparr>re_leader := True\<rparr>, Inr True))"

definition rest_IsLeader :: "rest_election ask" where
  "rest_IsLeader r = Finished (r, Inr (re_leader r))"

definition rest_Resign :: "rest_election tell" where
  "rest_Resign r =
     (if \<not> re_leader r then Finished (r, None) else Finished (r\<lparr>re_leader := False\<rparr>, None))"

text \<open>\<open>strconv.Atoi\<close>: an optional sign and decimal digits, within 64 bits;
  the errors are the sentinels that the returned \<open>NumError\<close> wraps.\<close>

definition is_digit :: "char \<Rightarrow> bool" where
  "is_digit c \<longleftrightarrow> of_char c \<ge> (48 :: nat) \<and> of_char c \<le> (57 :: nat)"

definition digit_val :: "char \<Rightarrow> int" where
  "digit_val c = int (of_char c) - 48"

definition parse_digits :: "string \<Rightarrow> int" where
  "parse_digits s = foldl (\<lambda>n c. n * 10 + digit_val c) 0 s"

definition Atoi :: "string \<Rightarrow> int result" where
  "Atoi s =
     (let (neg, ds) =
        (case s of c # r \<Rightarrow> if c = CHR ''-'' then (True, r) else if c = CHR ''+'' then (False, r) else (False, s)
         | [] \<Rightarrow> (False, []));
          n = (if neg then - parse_digits ds else parse_digits ds)
      in if ds = [] \<or> \<not> list_all is_digit ds then Inl (ErrMsg ''invalid syntax'')
         else if \<not> in_int64 n then Inl (ErrMsg ''value out of range'')
         else Inr n)"

datatype http_method = MethodGet | MethodPut | OtherMethod string

record http_response =
  rsp_status :: nat
  rsp_body :: string

definition http_Error :: "string \<Rightarrow> nat \<Rightarrow> http_response" where
  "http_Error msg code = \<lparr>rsp_status = code, rsp_body = msg @ [CHR 0x0A]\<rparr>"

definition respond_bool :: "bool \<Rightarrow> http_response" where
  "respond_bool b = \<lparr>rsp_status = 200, rsp_body = (if b then ''true'' else ''false'')\<rparr>"

text \<open>
  The handler.  The election methods of this implementation return no error, so their error
  branches cannot be taken; \<open>body\<close> is the outcome of reading the request body.
\<close>

definition handleLeader ::
  "rest_election \<Rightarrow> http_method \<Rightarrow> string result \<Rightarrow> (rest_election \<times> http_response) run" where
  "handleLeader r meth body =
     (case meth of
        MethodGet \<Rightarrow>
          run_bind (rest_IsLeader r) (\<lambda>(r', l).
            Finished (r', case l of Inl e \<Rightarrow> http_Error '''' 500 | Inr leader \<Rightarrow> respond_bool leader))
      | MethodPut \<Rightarrow>
          (case body of
             Inl e \<Rightarrow> Finished (r, http_Error ''Can't read body'' 400)
           | Inr s \<Rightarrow>
               (case Atoi s of
                  Inl e \<Rightarrow> Finished (r, http_Error ''1 or 0 expected in request body'' 400)
                | Inr flag \<Rightarrow>
                    if flag = 0 then
                      run_bind (rest_Resign r) (\<lambda>(r', e).
                        Finished (r', case e of Some e' \<Rightarrow> http_Error '''' 500 | None \<Rightarrow> respond_bool True))
                    else if flag = 1 then
                      run_bind (rest_BecomeLeader r) (\<lambda>(r', l).
                        Finished (r', case l of Inl e \<Rightarrow> http_Error '''' 500 | Inr leader \<Rightarrow> respond_bool leader))
                    else Finished (r, http_Error ''1 or 0 expected in request body'' 400)))
      | OtherMethod _ \<Rightarrow> Finished (r, http_Error ''Request method not supported'' 400))"


section \<open>The electors\<close>

text \<open>
  \<open>Elector\<close> only adds log lines to the methods of its election, so its methods are those of the
  election; \<open>ScheduledElector\<close> has the flag \<open>pausedScheduledElection\<close>.
\<close>

definition elector_BecomeLeader :: "'s ask \<Rightarrow> 's ask" where
  "elector_BecomeLeader becomeLeader s = run_bind (becomeLeader s) Finished"

definition elector_IsLeader :: "'s ask \<Rightarrow> 's ask" where
  "elector_IsLeader isLeader s = isLeader s"

definition elector_Resign :: "'s tell \<Rightarrow> 's tell" where
  "elector_Resign resign s = run_bind (resign s) Finished"

record 's scheduled_elector =
  se_election :: 's
  se_paused :: bool

definition NewScheduledElector :: "'s \<Rightarrow> 's scheduled_elector" where
  "NewScheduledElector election = \<lparr>se_election = election, se_paused = False\<rparr>"

definition pauseScheduledElection :: "'s scheduled_elector \<Rightarrow> 's scheduled_elector" where
  "pauseScheduledElection se = se\<lparr>se_paused := True\<rparr>"

definition resumeScheduledElection :: "'s scheduled_elector \<Rightarrow> 's scheduled_elector" where
  "resumeScheduledElection se = se\<lparr>se_paused := False\<rparr>"

text \<open>\<open>time.Since\<close> saturates at the ends of \<open>time.Duration\<close>.\<close>

definition time_since :: "int \<Rightarrow> int \<Rightarrow> int" where
  "time_since now t = max min_int64 (min max_int64 (now - t))"

definition PrometheusLivenessCheck ::
  "'s ask \<Rightarrow> 's tell \<Rightarrow> int \<Rightarrow> 's scheduled_elector \<Rightarrow> int \<Rightarrow> int \<Rightarrow> 's scheduled_elector run" where
  "PrometheusLivenessCheck isLeader resign now se lastRequestUnixNano timeout =
     (let elapsed = time_since now lastRequestUnixNano
      in run_bind (elector_IsLeader isLeader (se_election se)) (\<lambda>(s1, r).
           let se1 = se\<lparr>se_election := s1\<rparr>
           in if r = Inr True then
                (if elapsed > timeout then
                   run_bind (elector_Resign resign s1) (\<lambda>(s2, err).
                     Finished ((pauseScheduledElection se1)\<lparr>se_election := s2\<rparr>))
                 else Finished se1)
              else if se_paused se1 \<and> elapsed < timeout then Finished (resumeScheduledElection se1)
              else Finished se1))"

definition elect :: "'s ask \<Rightarrow> 's ask \<Rightarrow> 's scheduled_elector \<Rightarrow> ('s scheduled_elector \<times> bool) run" where
  "elect isLeader becomeLeader se =
     run_bind (elector_IsLeader isLeader (se_election se)) (\<lambda>(s1, r).
       case r of
         Inl e \<Rightarrow> Finished (se\<lparr>se_election := s1\<rparr>, False)
       | Inr True \<Rightarrow> Finished (se\<lparr>se_election := s1\<rparr>, True)
       | Inr False \<Rightarrow>
           run_bind (elector_BecomeLeader becomeLeader s1) (\<lambda>(s2, r2).
             Finished (se\<lparr>se_election := s2\<rparr>, r2 = Inr True)))"

text \<open>One tick of \<open>scheduledElection\<close>.\<close>

definition election_tick :: "'s ask \<Rightarrow> 's ask \<Rightarrow> 's scheduled_elector \<Rightarrow> 's scheduled_elector run" where
  "election_tick isLeader becomeLeader se =
     (if \<not> se_paused se then run_bind (elect isLeader becomeLeader se) (\<lambda>(se', _). Finished se')
      else Finished se)"

section \<open>The contract of an election\<close>

text \<open>
  What the electors rely on: in a good state the questions return and leave it known who leads, and
  a leader can resign.  Nothing is promised for resigning without leading.
\<close>

locale leader_election =
  fixes einv :: "'s \<Rightarrow> bool"
    and leads :: "'s \<Rightarrow> bool"
    and isLeader :: "'s \<Rightarrow> ('s \<times> bool result) run"
    and becomeLeader :: "'s \<Rightarrow> ('s \<times> bool result) run"
    and resign :: "'s \<Rightarrow> ('s \<times> go_error option) run"
  assumes is_ok: "einv s \<Longrightarrow> \<exists>s' r. isLeader s = Finished (s', r) \<and> einv s' \<and> (leads s' \<longleftrightarrow> r = Inr True)"
    and become_ok: "einv s \<Longrightarrow> \<exists>s' r. becomeLeader s = Finished (s', r) \<and> einv s' \<and> (leads s' \<longleftrightarrow> r = Inr True)"
    and resign_ok: "einv s \<Longrightarrow> leads s \<Longrightarrow>
      \<exists>s' e. resign s = Finished (s', e) \<and> einv s' \<and> (e = None \<longrightarrow> \<not> leads s')"
begin

lemma liveness_check:
  assumes "einv (se_election se)"
  shows "\<exists>se'. PrometheusLivenessCheck isLeader resign now se last_req timeout = Finished se' \<and>
    einv (se_election se') \<and>
    (time_since now last_req > timeout \<longrightarrow> se_paused se \<or> leads (se_election se') \<longrightarrow> se_paused se') \<and>
    (time_since now last_req < timeout \<longrightarrow> \<not> leads (se_election se') \<longrightarrow> \<not> se_paused se')"
proof -
  obtain s1 r where q: "isLeader (se_election se) = Finished (s1, r)" "einv s1" "leads s1 \<longleftrightarrow> r = Inr True"
    using is_ok [OF assms] by blast
  show ?thesis
  proof (cases "r = Inr True \<and> timeout < time_since now last_req")
    case True
    then obtain s2 e where "resign s1 = Finished (s2, e)" "einv s2"
      using resign_ok [OF q(2)] q(3) by blast
    with True q(1) show ?thesis
      by (auto simp: PrometheusLivenessCheck_def elector_IsLeader_def elector_Resign_def
        pauseScheduledElection_def Let_def)
  next
    case False
    with q show ?thesis
      by (auto simp: PrometheusLivenessCheck_def elector_IsLeader_def resumeScheduledElection_def Let_def)
  qed
qed

lemma tick:
  assumes "einv (se_election se)"
  shows "\<exists>se'. election_tick isLeader becomeLeader se = Finished se' \<and> einv (se_election se') \<and>
    se_paused se' = se_paused se"
proof -
  obtain s1 r where q: "isLeader (se_election se) = Finished (s1, r)" "einv s1" "leads s1 \<longleftrightarrow> r = Inr True"
    using is_ok [OF assms] by blast
  obtain s2 r2 where b: "becomeLeader s1 = Finished (s2, r2)" "einv s2"
    using become_ok [OF q(2)] by blast
  show ?thesis
    using assms q b
    by (cases r) (auto simp: election_tick_def elect_def elector_IsLeader_def elector_BecomeLeader_def
      split: bool.splits)
qed

end

definition pg_inv :: "'w \<times> 'c pg_lock \<Rightarrow> bool" where
  "pg_inv s \<longleftrightarrow> \<not> lk_mutex (snd s) \<and> (lk_obtained (snd s) \<longrightarrow> lk_conn (snd s) \<noteq> None)"

definition pg_leads :: "'w \<times> 'c pg_lock \<Rightarrow> bool" where
  "pg_leads s \<longleftrightarrow> lk_obtained (snd s)"

lemma connCleanUp_frame: "lk_mutex (snd (connCleanUp srv s)) = lk_mutex (snd s)"
  by (auto simp: connCleanUp_def split: prod.splits option.splits)

lemma query_lock_frame:
  assumes "query_lock srv w l c = ((w', l'), r)"
  shows "lk_mutex l' = lk_mutex l" and "r = Inr True \<Longrightarrow> lk_conn l' = lk_conn l"
  using assms connCleanUp_frame [of srv "(fst (sv_TryLock srv w c (lk_groupLockID l)), l)"]
  by (auto simp: query_lock_def split: prod.splits sum.splits list.splits option.splits)

lemma getAdvisoryLock_frame:
  assumes "getAdvisoryLock srv (w, l) = ((w', l'), r)"
  shows "lk_mutex l' = lk_mutex l" and "r = Inr True \<Longrightarrow> lk_conn l' \<noteq> None"
  using assms
  by (auto simp: getAdvisoryLock_def split: option.splits prod.splits sum.splits dest: query_lock_frame)

lemma TryLock_ok:
  assumes "\<not> lk_mutex (snd s)"
  shows "\<exists>s' r. TryLock srv s = Finished (s', r) \<and> pg_inv s' \<and> (pg_leads s' \<longleftrightarrow> r = Inr True)"
proof -
  obtain w l w' l' r where s: "s = (w, l)" and g: "getAdvisoryLock srv s = ((w', l'), r)"
    by (metis surj_pair)
  note fr = getAdvisoryLock_frame [OF g [unfolded s]]
  show ?thesis
    using assms s g fr by (cases r) (auto simp: TryLock_def pg_inv_def pg_leads_def split: bool.splits)
qed

interpretation pg: leader_election pg_inv pg_leads "lock_IsLeader srv" "lock_BecomeLeader srv" "lock_Resign srv"
  for srv :: "('w, 'c) lock_server"
proof
  fix s :: "'w \<times> 'c pg_lock"
  assume inv: "pg_inv s"
  then have m: "\<not> lk_mutex (snd s)" by (simp add: pg_inv_def)
  show "\<exists>s' r. lock_IsLeader srv s = Finished (s', r) \<and> pg_inv s' \<and> (pg_leads s' \<longleftrightarrow> r = Inr True)"
    unfolding lock_IsLeader_def by (rule TryLock_ok [OF m])
  show "\<exists>s' r. lock_BecomeLeader srv s = Finished (s', r) \<and> pg_inv s' \<and> (pg_leads s' \<longleftrightarrow> r = Inr True)"
    unfolding lock_BecomeLeader_def by (rule TryLock_ok [OF m])
  show "\<exists>s' e. lock_Resign srv s = Finished (s', e) \<and> pg_inv s' \<and> (e = None \<longrightarrow> \<not> pg_leads s')"
    if "pg_leads s"
    using inv that
    by (cases s) (auto simp: lock_Resign_def Release_def pg_inv_def pg_leads_def split: option.splits prod.splits)
qed

interpretation rest: leader_election "\<lambda>_. True" re_leader rest_IsLeader rest_BecomeLeader rest_Resign
  by unfold_locales (auto simp: rest_IsLeader_def rest_BecomeLeader_def rest_Resign_def)

section \<open>Sequences of events\<close>

text \<open>
  What happens to a scheduled elector: a tick of its ticker, a liveness check (with the time, the last
  request and the timeout), and the question of a write handler whether this instance leads.
\<close>

datatype elector_event = Tick | LivenessCheck int int int | AskLeader

fun run_events :: "'s ask \<Rightarrow> 's ask \<Rightarrow> 's tell \<Rightarrow> elector_event list \<Rightarrow> 's scheduled_elector \<Rightarrow> 's scheduled_elector run" where
  "run_events isL becL res [] se = Finished se"
| "run_events isL becL res (Tick # es) se =
     run_bind (election_tick isL becL se) (run_events isL becL res es)"
| "run_events isL becL res (LivenessCheck now last_req timeout # es) se =
     run_bind (PrometheusLivenessCheck isL res now se last_req timeout) (run_events isL becL res es)"
| "run_events isL becL res (AskLeader # es) se =
     run_bind (elector_IsLeader isL (se_election se)) (\<lambda>(s, _). run_events isL becL res es (se\<lparr>se_election := s\<rparr>))"

context leader_election
begin

lemma events_ok:
  assumes "einv (se_election se)"
  shows "\<exists>se'. run_events isLeader becomeLeader resign es se = Finished se' \<and> einv (se_election se')"
  using assms
proof (induction es arbitrary: se)
  case (Cons e es)
  show ?case
  proof (cases e)
    case Tick
    from tick [OF Cons.prems] Cons.IH show ?thesis by (auto simp: Tick)
  next
    case (LivenessCheck now last_req timeout)
    from liveness_check [OF Cons.prems, of now last_req timeout] Cons.IH show ?thesis
      by (auto simp: LivenessCheck)
  next
    case AskLeader
    from is_ok [OF Cons.prems] Cons.IH show ?thesis
      by (fastforce simp: AskLeader elector_IsLeader_def)
  qed
qed simp

end


text \<open>
  A lock server for the examples: the session that holds each lock and the number of the next
  session; a holder that is no session yet counts as none.
\<close>

definition ex_holder :: "(int \<Rightarrow> nat option) \<times> nat \<Rightarrow> int \<Rightarrow> nat option" where
  "ex_holder w i = (case fst w i of Some c \<Rightarrow> if c < snd w then Some c else None | None \<Rightarrow> None)"

definition ex_server :: "((int \<Rightarrow> nat option) \<times> nat, nat) lock_server" where
  "ex_server =
     \<lparr>sv_Connect = (\<lambda>w _. ((ex_holder w, Suc (snd w)), Inr (snd w))),
      sv_Select1 = (\<lambda>w _. (w, None)),
      sv_TryLock = (\<lambda>w c i.
        if c < snd w \<and> (ex_holder w i = None \<or> ex_holder w i = Some c)
        then (((fst w)(i := Some c), snd w), Inr \<lparr>row_scans = [Inr True], rows_err = None\<rparr>)
        else (w, Inr \<lparr>row_scans = [Inr False], rows_err = None\<rparr>)),
      sv_UnlockAll = (\<lambda>w c. ((\<lambda>i. if fst w i = Some c then None else fst w i, snd w), None)),
      sv_Close = (\<lambda>w c. ((\<lambda>i. if fst w i = Some c then None else fst w i, snd w), None)),
      sv_Text = (\<lambda>_. ''error'')\<rparr>"

definition ex_lock :: "nat option \<Rightarrow> nat pg_lock" where
  "ex_lock c = \<lparr>lk_conn = c, lk_connStr = '''', lk_groupLockID = 1, lk_mutex = False, lk_obtained = False\<rparr>"



section \<open>Exclusion\<close>

text \<open>
  What the code relies on in advisory locks, with \<open>holder\<close> the session that holds a lock: a lock is
  granted only when it is free or already held by the session, which then holds it; a new
  connection is a session that holds nothing; connecting and probing take no lock from anyone.
\<close>

definition advisory_ok :: "('w, 'c) lock_server \<Rightarrow> ('w \<Rightarrow> int \<Rightarrow> 'c option) \<Rightarrow> bool" where
  "advisory_ok srv holder \<longleftrightarrow>
     (\<forall>w c i w' rows rs. sv_TryLock srv w c i = (w', Inr rows) \<longrightarrow> row_scans rows = Inr True # rs \<longrightarrow>
        (holder w i = None \<or> holder w i = Some c) \<and> holder w' i = Some c) \<and>
     (\<forall>w str w' c i. sv_Connect srv w str = (w', Inr c) \<longrightarrow>
        holder w' i \<noteq> Some c \<and> holder w' i = holder w i) \<and>
     (\<forall>w c i. holder (fst (sv_Select1 srv w c)) i = holder w i)"

lemma advisory_okD:
  assumes "advisory_ok srv holder"
  shows "sv_TryLock srv w c i = (w', Inr rows) \<Longrightarrow> row_scans rows = Inr True # rs \<Longrightarrow>
      (holder w i = None \<or> holder w i = Some c) \<and> holder w' i = Some c"
    and "sv_Connect srv w str = (w', Inr c) \<Longrightarrow> holder w' i \<noteq> Some c \<and> holder w' i = holder w i"
    and "holder (fst (sv_Select1 srv w c)) i = holder w i"
  using assms unfolding advisory_ok_def by blast+

lemma query_lock_granted:
  assumes "advisory_ok srv holder" and "query_lock srv w l c = ((w', l'), Inr True)"
  shows "(holder w (lk_groupLockID l) = None \<or> holder w (lk_groupLockID l) = Some c) \<and>
    holder w' (lk_groupLockID l) = Some c \<and> l' = l"
proof -
  obtain rows rs where "sv_TryLock srv w c (lk_groupLockID l) = (w', Inr rows)" "row_scans rows = Inr True # rs" "l' = l"
    using assms(2) by (auto simp: query_lock_def split: prod.splits sum.splits list.splits option.splits)
  with advisory_okD(1) [OF assms(1)] show ?thesis by blast
qed

lemma checkConnection_holder:
  "advisory_ok srv holder \<Longrightarrow> checkConnection srv w c = (w', r) \<Longrightarrow> holder w' i = holder w i"
  using advisory_okD(3) [of srv holder w c i]
  by (auto simp: checkConnection_def split: prod.splits option.splits)

lemma getConn_fresh:
  assumes "advisory_ok srv holder" and "getConn srv w str n = (w', Inr c)"
  shows "holder w' i \<noteq> Some c \<and> holder w' i = holder w i"
  using assms(2)
proof (induction n arbitrary: w)
  case (Suc n)
  obtain w1 r where conn: "sv_Connect srv w str = (w1, r)" by force
  from Suc.prems conn obtain d where r: "r = Inr d" by (cases r) auto
  obtain w2 e where check: "checkConnection srv w1 d = (w2, e)" by force
  note c = advisory_okD(2) [OF assms(1) conn [unfolded r], of i] checkConnection_holder [OF assms(1) check, of i]
  show ?case
  proof (cases e)
    case None
    with Suc.prems conn r check c show ?thesis by auto
  next
    case (Some x)
    with Suc.prems conn r check have "getConn srv w2 str n = (w', Inr c)" by simp
    from Suc.IH [OF this] c show ?thesis by metis
  qed
qed simp

lemma TryLock_granted:
  assumes "advisory_ok srv holder" and "TryLock srv (w, l) = Finished ((w', l'), Inr True)"
  shows "\<exists>c. lk_conn l' = Some c \<and> holder w' (lk_groupLockID l) = Some c \<and>
    (holder w (lk_groupLockID l) = None \<or> (holder w (lk_groupLockID l) = Some c \<and> lk_conn l = Some c))"
proof -
  obtain l0 where g: "getAdvisoryLock srv (w, l) = ((w', l0), Inr True)" and l': "l' = l0\<lparr>lk_obtained := True\<rparr>"
    using assms(2) by (auto simp: TryLock_def split: if_splits prod.splits sum.splits bool.splits)
  show ?thesis
  proof (cases "lk_conn l")
    case (Some c)
    with g have "query_lock srv w l c = ((w', l0), Inr True)" by (simp add: getAdvisoryLock_def)
    from query_lock_granted [OF assms(1) this] Some l' show ?thesis by auto
  next
    case None
    with g obtain w1 c where conn: "getConn srv w (lk_connStr l) 10 = (w1, Inr c)"
      and q: "query_lock srv w1 (l\<lparr>lk_conn := Some c\<rparr>) c = ((w', l0), Inr True)"
      by (auto simp: getAdvisoryLock_def split: prod.splits sum.splits)
    from query_lock_granted [OF assms(1) q] getConn_fresh [OF assms(1) conn, of "lk_groupLockID l"] l'
    show ?thesis by auto
  qed
qed

text \<open>
  C11: there is at most one leader.  Once an instance has been told that it leads, the lock of its group
  is held by its session, and another instance of the same group, whose connection is another one or
  yet to be made, is not told so by the next question, whichever way the database answers it.
\<close>
theorem advisory_leader_exclusive:
  assumes "advisory_ok srv holder"
    and "lock_IsLeader srv (w, a) = Finished ((w1, a1), Inr True)"
    and "lk_groupLockID b = lk_groupLockID a" and "lk_conn b \<noteq> lk_conn a1"
    and "lock_IsLeader srv (w1, b) = Finished ((w2, b1), r)"
  shows "holder w1 (lk_groupLockID a) = lk_conn a1 \<and> r \<noteq> Inr True"
proof -
  from TryLock_granted [OF assms(1) assms(2) [unfolded lock_IsLeader_def]] obtain c where
    c: "lk_conn a1 = Some c" "holder w1 (lk_groupLockID a) = Some c" by blast
  moreover have "r \<noteq> Inr True"
  proof
    assume "r = Inr True"
    with assms(5) TryLock_granted [OF assms(1), of w1 b w2 b1] obtain d where
      "holder w1 (lk_groupLockID b) = None \<or> (holder w1 (lk_groupLockID b) = Some d \<and> lk_conn b = Some d)"
      by (auto simp: lock_IsLeader_def)
    with c assms(3,4) show False by auto
  qed
  ultimately show ?thesis by simp
qed

lemma ex_server_ok: "advisory_ok ex_server ex_holder"
  unfolding advisory_ok_def
  by (auto simp: ex_server_def ex_holder_def split: if_splits option.splits)

theorem advisory_leader_exclusive_witness:
  "\<exists>w1 a1 w2 b1 r. lock_IsLeader ex_server ((Map.empty, 0), ex_lock None) = Finished ((w1, a1), Inr True) \<and>
    lock_IsLeader ex_server (w1, ex_lock None) = Finished ((w2, b1), r) \<and> r \<noteq> Inr True \<and>
    ex_holder w1 1 = Some 0"
proof -
  let ?w1 = "([1 \<mapsto> 0], 1) :: (int \<Rightarrow> nat option) \<times> nat"
  have h0: "ex_holder (Map.empty, 0) = Map.empty" by (simp add: ex_holder_def fun_eq_iff)
  have "getConn ex_server (Map.empty, 0) '''' (Suc 9) = ((Map.empty, 1), Inr 0)"
    unfolding getConn.simps by (simp add: checkConnection_def) (simp add: ex_server_def h0)
  then have conn: "getConn ex_server (Map.empty, 0) '''' 10 = ((Map.empty, 1), Inr 0)" by simp
  have granted: "sv_TryLock ex_server (Map.empty, 1) 0 1 = (?w1, Inr \<lparr>row_scans = [Inr True], rows_err = None\<rparr>)"
    by (simp add: ex_server_def ex_holder_def)
  have a: "lock_IsLeader ex_server ((Map.empty, 0), ex_lock None) =
      Finished ((?w1, (ex_lock (Some 0))\<lparr>lk_obtained := True\<rparr>), Inr True)"
    using conn granted by (simp add: lock_IsLeader_def TryLock_def getAdvisoryLock_def ex_lock_def query_lock_def)
  obtain w2 b1 r where b: "lock_IsLeader ex_server (?w1, ex_lock None) = Finished ((w2, b1), r)"
    using pg.is_ok [of "(?w1, ex_lock None)" ex_server] by (auto simp: pg_inv_def ex_lock_def)
  have "ex_holder ?w1 1 = Some 0 \<and> r \<noteq> Inr True"
    using advisory_leader_exclusive [OF ex_server_ok a _ _ b] by (simp add: ex_lock_def)
  with a b show ?thesis by blast
qed

text \<open>
  C38: releasing a lock that is not held wedges the instance.  \<open>Release\<close> reports an error but returns
  with the mutex locked, and from then on every method of the lock waits for ever.
\<close>
theorem release_unheld_deadlocks:
  assumes "\<not> lk_mutex l" and "\<not> lk_obtained l"
  shows "\<exists>s' e. Release srv (w, l) = Finished (s', Some e) \<and>
    lock_IsLeader srv s' = Blocked \<and> lock_BecomeLeader srv s' = Blocked \<and> lock_Resign srv s' = Blocked \<and>
    lock_Close srv s' = Blocked \<and> Locked s' = Blocked"
  using assms
  by (auto simp: Release_def lock_IsLeader_def lock_BecomeLeader_def lock_Resign_def lock_Close_def Locked_def TryLock_def)

theorem release_unheld_deadlocks_witness:
  "\<exists>s' e. Release ex_server ((Map.empty, 0), ex_lock None) = Finished (s', Some e) \<and>
    lock_IsLeader ex_server s' = Blocked"
  using release_unheld_deadlocks [of "ex_lock None" ex_server "(Map.empty, 0)"] by (auto simp: ex_lock_def)

section \<open>The REST handler\<close>

lemma is_digit_iff: "is_digit c \<longleftrightarrow> (\<exists>d < 10. c = digit_char d)"
proof
  assume "is_digit c"
  then have b: "48 \<le> (of_char c :: nat)" "(of_char c :: nat) \<le> 57" by (simp_all add: is_digit_def)
  have "digit_char (of_char c - 48) = char_of (of_char c :: nat)" using b(1) by (simp add: digit_char_def)
  also have "\<dots> = c" by simp
  finally show "\<exists>d < 10. c = digit_char d" using b(2) by (intro exI [of _ "of_char c - 48"]) simp
qed (auto simp: is_digit_def digit_char_def)

lemma is_digit_char: "d < 10 \<Longrightarrow> is_digit (digit_char d)"
  by (auto simp: is_digit_iff)

lemma digit_val_char: "d < 10 \<Longrightarrow> digit_val (digit_char d) = int d"
  by (simp add: digit_val_def digit_char_def)

lemma parse_show_nat: "parse_digits (show_nat n) = int n \<and> list_all is_digit (show_nat n)"
proof (induction n rule: show_nat.induct)
  case (1 n)
  show ?case
  proof (cases "n < 10")
    case True
    then show ?thesis
      by (auto simp: show_nat.simps [of n] parse_digits_def digit_val_char is_digit_char)
  next
    case False
    have "int (n div 10) * 10 + int (n mod 10) = int n"
      by (metis div_mult_mod_eq of_nat_add of_nat_mult of_nat_numeral)
    with False 1 show ?thesis
      by (subst (1 2) show_nat.simps) (auto simp: parse_digits_def digit_val_char is_digit_char)
  qed
qed

lemma is_digit_sign: "is_digit c \<Longrightarrow> c \<noteq> CHR ''-'' \<and> c \<noteq> CHR ''+''"
  by (auto simp: is_digit_def)

lemma Atoi_show_int:
  assumes "in_int64 i"
  shows "Atoi (show_int i) = Inr i"
proof (cases "i < 0")
  case True
  then show ?thesis
    using parse_show_nat [of "nat (- i)"] show_nat_nonempty assms
    by (simp add: Atoi_def show_int_def Let_def)
next
  case False
  obtain c r where cr: "show_nat (nat i) = c # r" using show_nat_nonempty [of "nat i"] by (cases "show_nat (nat i)") auto
  with parse_show_nat [of "nat i"] have "is_digit c" by simp
  with False cr parse_show_nat [of "nat i"] is_digit_sign assms show ?thesis
    by (auto simp: Atoi_def show_int_def Let_def)
qed

text \<open>Over REST, the number 1 makes the instance the leader, 0 makes it resign, and nothing else changes it.\<close>

lemma handleLeader_put:
  assumes "in_int64 i"
  shows "handleLeader r MethodPut (Inr (show_int i)) =
    Finished (if i = 0 then (r\<lparr>re_leader := False\<rparr>, respond_bool True)
              else if i = 1 then (r\<lparr>re_leader := True\<rparr>, respond_bool True)
              else (r, http_Error ''1 or 0 expected in request body'' 400))"
  by (auto simp: handleLeader_def Atoi_show_int [OF assms] rest_Resign_def rest_BecomeLeader_def)

lemma handleLeader_get: "handleLeader r MethodGet body = Finished (r, respond_bool (re_leader r))"
  by (simp add: handleLeader_def rest_IsLeader_def)

end
