(* ===== verification/Go_Float.thy ===== *)
theory Go_Float
  imports Prom_Prelude Complex_Main
begin

text \<open>
  IEEE 754 double precision arithmetic as Go uses it for \<open>float64\<close>, on bit patterns.

  The magnitude bits of the non-negative floats, read as a number \<open>p\<close>, enumerate them in
  order: pattern \<open>p\<close> denotes \<open>mag_units p\<close> times \<open>2\<close> to the \<open>-1074\<close>.  Rounding to nearest
  searches the greatest pattern at or below the argument and decides between it and the next one,
  ties to the even pattern; a result past the largest finite float becomes the pattern of infinity.
\<close>


section \<open>Decoding\<close>

definition exp_bias_pow :: nat where "exp_bias_pow = 2 ^ 1074"

text \<open>The value of magnitude pattern \<open>p\<close> in units of the least positive float.\<close>

definition mag_units :: "nat \<Rightarrow> nat" where
  "mag_units p =
     (let e = p div 2 ^ 52; m = p mod 2 ^ 52
      in if e = 0 then m else (2 ^ 52 + m) * 2 ^ (e - 1))"

definition inf_mag :: nat where "inf_mag = 2047 * 2 ^ 52"

datatype fval = FNaN | FInf bool | FFin bool rat

definition f_sign :: "float64 \<Rightarrow> bool" where
  "f_sign w \<longleftrightarrow> bit w 63"

definition f_mag :: "float64 \<Rightarrow> nat" where
  "f_mag w = unat w mod 2 ^ 63"

definition mag_rat :: "nat \<Rightarrow> rat" where
  "mag_rat p = of_nat (mag_units p) / of_nat exp_bias_pow"

text \<open>Sign and magnitude; the sign of a zero is kept.\<close>

definition f_val :: "float64 \<Rightarrow> fval" where
  "f_val w =
     (if f_mag w < inf_mag then FFin (f_sign w) (mag_rat (f_mag w))
      else if f_mag w = inf_mag then FInf (f_sign w) else FNaN)"

definition f_make :: "bool \<Rightarrow> nat \<Rightarrow> float64" where
  "f_make s p = word_of_nat (p + (if s then 2 ^ 63 else 0))"

text \<open>\<open>math.NaN()\<close>; the payload of the NaN an operation yields is not distinguished from it.\<close>

definition f_nan :: float64 where "f_nan = f_make False (inf_mag + 2 ^ 51 + 1)"
definition f_inf :: "bool \<Rightarrow> float64" where "f_inf s = f_make s inf_mag"
definition f_zero :: "bool \<Rightarrow> float64" where "f_zero s = f_make s 0"


section \<open>Rounding\<close>

text \<open>The greatest pattern below \<open>2 ^ k + p\<close> that keeps \<open>mag_units\<close> at or below \<open>x\<close>, bit by bit.\<close>

fun mag_search :: "rat \<Rightarrow> nat \<Rightarrow> nat \<Rightarrow> nat" where
  "mag_search x 0 p = p"
| "mag_search x (Suc k) p =
     mag_search x k (if of_nat (mag_units (p + 2 ^ k)) \<le> x then p + 2 ^ k else p)"

definition round_mag :: "rat \<Rightarrow> nat" where
  "round_mag v =
     (let x = v * of_nat exp_bias_pow;
          p = mag_search x 63 0
      in if p \<ge> inf_mag then inf_mag
         else let lo = x - of_nat (mag_units p); hi = of_nat (mag_units (p + 1)) - x
              in if lo < hi \<or> (lo = hi \<and> even p) then p else p + 1)"

definition f_round :: "bool \<Rightarrow> rat \<Rightarrow> float64" where
  "f_round s v = f_make s (round_mag v)"

text \<open>A signed rational; \<open>zs\<close> is the sign of a zero result.\<close>

definition f_of_rat :: "bool \<Rightarrow> rat \<Rightarrow> float64" where
  "f_of_rat zs r = (if r = 0 then f_zero zs else f_round (r < 0) (abs r))"

definition f_of_int :: "int \<Rightarrow> float64" where
  "f_of_int i = f_of_rat False (of_int i)"

definition with_sign :: "bool \<Rightarrow> rat \<Rightarrow> rat" where
  "with_sign s v = (if s then - v else v)"


section \<open>Operations\<close>

definition f_neg :: "float64 \<Rightarrow> float64" where
  "f_neg a = f_make (\<not> f_sign a) (f_mag a)"

definition f_abs :: "float64 \<Rightarrow> float64" where
  "f_abs a = f_make False (f_mag a)"

definition f_is_nan :: "float64 \<Rightarrow> bool" where
  "f_is_nan a \<longleftrightarrow> f_mag a > inf_mag"

definition f_add :: "float64 \<Rightarrow> float64 \<Rightarrow> float64" where
  "f_add a b =
     (case (f_val a, f_val b) of
        (FNaN, _) \<Rightarrow> f_nan
      | (_, FNaN) \<Rightarrow> f_nan
      | (FInf s, FInf t) \<Rightarrow> if s = t then f_inf s else f_nan
      | (FInf s, FFin _ _) \<Rightarrow> f_inf s
      | (FFin _ _, FInf t) \<Rightarrow> f_inf t
      | (FFin s x, FFin t y) \<Rightarrow> f_of_rat (s \<and> t) (with_sign s x + with_sign t y))"

definition f_sub :: "float64 \<Rightarrow> float64 \<Rightarrow> float64" where
  "f_sub a b = f_add a (f_neg b)"

definition f_mul :: "float64 \<Rightarrow> float64 \<Rightarrow> float64" where
  "f_mul a b =
     (case (f_val a, f_val b) of
        (FNaN, _) \<Rightarrow> f_nan
      | (_, FNaN) \<Rightarrow> f_nan
      | (FInf s, FInf t) \<Rightarrow> f_inf (s \<noteq> t)
      | (FInf s, FFin t y) \<Rightarrow> if y = 0 then f_nan else f_inf (s \<noteq> t)
      | (FFin s x, FInf t) \<Rightarrow> if x = 0 then f_nan else f_inf (s \<noteq> t)
      | (FFin s x, FFin t y) \<Rightarrow> f_of_rat (s \<noteq> t) (with_sign (s \<noteq> t) (x * y)))"

definition f_div :: "float64 \<Rightarrow> float64 \<Rightarrow> float64" where
  "f_div a b =
     (case (f_val a, f_val b) of
        (FNaN, _) \<Rightarrow> f_nan
      | (_, FNaN) \<Rightarrow> f_nan
      | (FInf s, FInf t) \<Rightarrow> f_nan
      | (FInf s, FFin t y) \<Rightarrow> f_inf (s \<noteq> t)
      | (FFin s x, FInf t) \<Rightarrow> f_zero (s \<noteq> t)
      | (FFin s x, FFin t y) \<Rightarrow>
          if y = 0 then (if x = 0 then f_nan else f_inf (s \<noteq> t))
          else f_of_rat (s \<noteq> t) (with_sign (s \<noteq> t) (x / y)))"

definition f_eq :: "float64 \<Rightarrow> float64 \<Rightarrow> bool" where
  "f_eq a b =
     (case (f_val a, f_val b) of
        (FInf s, FInf t) \<Rightarrow> s = t
      | (FFin s x, FFin t y) \<Rightarrow> with_sign s x = with_sign t y
      | _ \<Rightarrow> False)"

definition f_lt :: "float64 \<Rightarrow> float64 \<Rightarrow> bool" where
  "f_lt a b =
     (case (f_val a, f_val b) of
        (FNaN, _) \<Rightarrow> False
      | (_, FNaN) \<Rightarrow> False
      | (FInf s, FInf t) \<Rightarrow> s \<and> \<not> t
      | (FInf s, FFin _ _) \<Rightarrow> s
      | (FFin _ _, FInf t) \<Rightarrow> \<not> t
      | (FFin s x, FFin t y) \<Rightarrow> with_sign s x < with_sign t y)"

definition f_le :: "float64 \<Rightarrow> float64 \<Rightarrow> bool" where
  "f_le a b \<longleftrightarrow> f_lt a b \<or> f_eq a b"


section \<open>Facts\<close>

lemma mag_units_strict: "p < q \<Longrightarrow> mag_units p < mag_units q"
proof -
  have step: "mag_units p < mag_units (Suc p)" for p
  proof -
    define e m where "e = p div 2 ^ 52" and "m = p mod 2 ^ 52"
    have p: "p = e * 2 ^ 52 + m" and m: "m < 2 ^ 52" by (simp_all add: e_def m_def)
    show ?thesis
    proof (cases "Suc m = 2 ^ 52")
      case True
      then have "Suc p = Suc e * 2 ^ 52" using p by simp
      then have "Suc p div 2 ^ 52 = Suc e" "Suc p mod 2 ^ 52 = 0"
        by (simp_all only: div_mult_self_is_m mod_mult_self2_is_0 zero_less_numeral zero_less_power)
      then have "mag_units (Suc p) = 2 ^ 52 * 2 ^ e" by (simp add: mag_units_def)
      moreover have "mag_units p = (if e = 0 then m else (2 ^ 52 + m) * 2 ^ (e - 1))"
        by (simp add: mag_units_def e_def m_def Let_def)
      moreover have "e \<noteq> 0 \<Longrightarrow> 2 ^ 52 * 2 ^ e = (2 * 2 ^ 52) * (2 :: nat) ^ (e - 1)" by (cases e) simp_all
      moreover have "(2 ^ 52 + m) * (2 :: nat) ^ (e - 1) < (2 * 2 ^ 52) * 2 ^ (e - 1)" using m by simp
      ultimately show ?thesis using m by simp
    next
      case False
      then have "Suc p div 2 ^ 52 = e" "Suc p mod 2 ^ 52 = Suc m"
        using m by (simp_all add: e_def m_def div_Suc mod_Suc)
      then have "mag_units (Suc p) = (if e = 0 then Suc m else (2 ^ 52 + Suc m) * 2 ^ (e - 1))"
        by (simp only: mag_units_def Let_def)
      moreover have "mag_units p = (if e = 0 then m else (2 ^ 52 + m) * 2 ^ (e - 1))"
        by (simp only: mag_units_def e_def m_def Let_def)
      ultimately show ?thesis by simp
    qed
  qed
  show "p < q \<Longrightarrow> mag_units p < mag_units q" using step by (rule lift_Suc_mono_less)
qed

lemma mag_units_less_iff [simp]: "mag_units p < mag_units q \<longleftrightarrow> p < q"
  by (metis mag_units_strict linorder_cases order_less_asym order_less_irrefl)

lemma mag_units_le_iff [simp]: "mag_units p \<le> mag_units q \<longleftrightarrow> p \<le> q"
  by (simp add: linorder_not_less [symmetric])

lemma mag_units_0 [simp]: "mag_units 0 = 0"
  by (simp add: mag_units_def)

text \<open>The search finds the greatest pattern at or below its bound.\<close>

lemma mag_search_spec:
  assumes "of_nat (mag_units p) \<le> x"
  shows "of_nat (mag_units (mag_search x k p)) \<le> x \<and> p \<le> mag_search x k p \<and>
    mag_search x k p < p + 2 ^ k \<and>
    (\<forall>q. q < p + 2 ^ k \<longrightarrow> of_nat (mag_units q) \<le> x \<longrightarrow> q \<le> mag_search x k p)"
  using assms
proof (induction k arbitrary: p)
  case (Suc k)
  show ?case
  proof (cases "of_nat (mag_units (p + 2 ^ k)) \<le> x")
    case True
    from Suc.IH [OF True] True show ?thesis by (auto simp: mult_2 add.assoc)
  next
    case False
    have "q < p + 2 ^ k" if "of_nat (mag_units q) \<le> x" for q
    proof (rule ccontr)
      assume "\<not> q < p + 2 ^ k"
      then have "mag_units (p + 2 ^ k) \<le> mag_units q" by simp
      then have "(of_nat (mag_units (p + 2 ^ k)) :: rat) \<le> of_nat (mag_units q)" by (simp only: of_nat_le_iff)
      with that False show False by linarith
    qed
    with Suc.IH [OF Suc.prems] False show ?thesis by (auto simp: less_le_trans)
  qed
qed simp

lemma exp_bias_pos: "0 < exp_bias_pow"
  by (simp add: exp_bias_pow_def)

text \<open>Rounding leaves every finite float as it is.\<close>

lemma round_mag_exact:
  assumes "p < inf_mag"
  shows "round_mag (mag_rat p) = p"
proof -
  have x: "mag_rat p * of_nat exp_bias_pow = of_nat (mag_units p)"
    using exp_bias_pos by (simp add: mag_rat_def)
  have lt: "p < 2 ^ 63" using assms by (simp add: inf_mag_def)
  have spec: "of_nat (mag_units 0) \<le> (of_nat (mag_units p) :: rat)" by simp
  note s = mag_search_spec [OF spec, of 63]
  have "mag_search (of_nat (mag_units p)) 63 0 = p"
  proof (rule antisym)
    from s have "(of_nat (mag_units (mag_search (of_nat (mag_units p)) 63 0)) :: rat) \<le> of_nat (mag_units p)" by blast
    then show "mag_search (of_nat (mag_units p)) 63 0 \<le> p" by (simp only: of_nat_le_iff mag_units_le_iff)
    show "p \<le> mag_search (of_nat (mag_units p)) 63 0" using s lt by simp
  qed
  moreover have "(of_nat (mag_units p) :: rat) < of_nat (mag_units (p + 1))"
    by (simp only: of_nat_less_iff mag_units_less_iff)
  ultimately show ?thesis using assms by (simp add: round_mag_def x Let_def)
qed

lemma f_make_parts:
  assumes "p < 2 ^ 63"
  shows "f_mag (f_make s p) = p" and "f_sign (f_make s p) = s"
proof -
  have u: "unat (f_make s p) = p + (if s then 2 ^ 63 else 0)"
    unfolding f_make_def by (rule of_nat_inverse [OF refl]) (use assms in simp)
  then show "f_mag (f_make s p) = p" using assms by (simp add: f_mag_def)
  have "f_sign (f_make s p) = bit (unat (f_make s p)) 63"
    by (simp add: f_sign_def bit_unsigned_iff)
  also have "\<dots> = s" unfolding u using assms by (auto simp: bit_iff_odd)
  finally show "f_sign (f_make s p) = s" .
qed

lemma f_make_id: "f_make (f_sign w) (f_mag w) = w"
proof -
  have "unat w < 2 ^ 64" using unsigned_less [of w] by simp
  then have split: "unat w = f_mag w + (if f_sign w then 2 ^ 63 else 0)"
  proof -
    have "unat w div 2 ^ 63 < 2" using \<open>unat w < 2 ^ 64\<close> by (simp add: less_mult_imp_div_less)
    moreover have "f_sign w = bit (unat w) 63" by (simp add: f_sign_def bit_unsigned_iff)
    then have "f_sign w = odd (unat w div 2 ^ 63)" by (simp only: bit_iff_odd)
    ultimately have "unat w div 2 ^ 63 = (if f_sign w then 1 else 0)" by (auto elim!: oddE)
    then show ?thesis using div_mult_mod_eq [of "unat w" "2 ^ 63"]
      by (cases "f_sign w") (simp_all add: f_mag_def)
  qed
  show ?thesis unfolding f_make_def split [symmetric] by simp
qed

lemma f_val_finite: "f_mag w < inf_mag \<Longrightarrow> f_val w = FFin (f_sign w) (mag_rat (f_mag w))"
  by (simp add: f_val_def)

text \<open>Rounding the value of a finite float gives the float back.\<close>

lemma f_round_val:
  assumes "f_mag w < inf_mag"
  shows "f_round (f_sign w) (mag_rat (f_mag w)) = w"
  by (simp add: f_round_def round_mag_exact [OF assms] f_make_id)

lemma f_add_commute: "f_add a b = f_add b a"
  by (auto simp: f_add_def add.commute conj_commute split: fval.splits)

lemma f_lt_irrefl: "\<not> f_lt a a"
  by (simp add: f_lt_def split: fval.splits)

lemma f_lt_trans: "f_lt a b \<Longrightarrow> f_lt b c \<Longrightarrow> f_lt a c"
  by (auto simp: f_lt_def split: fval.splits if_splits)

lemma f_val_nan: "f_val a = FNaN \<longleftrightarrow> f_is_nan a"
  by (auto simp: f_val_def f_is_nan_def)

lemma f_trichotomy: "\<not> f_is_nan a \<Longrightarrow> \<not> f_is_nan b \<Longrightarrow> f_lt a b \<or> f_eq a b \<or> f_lt b a"
  by (auto simp: f_lt_def f_eq_def f_val_nan [symmetric] split: fval.splits)

lemma f_nan_compare: "f_is_nan a \<or> f_is_nan b \<Longrightarrow> \<not> f_lt a b \<and> \<not> f_eq a b \<and> \<not> f_le a b"
  by (auto simp: f_lt_def f_eq_def f_le_def f_val_nan [symmetric] split: fval.splits)

section \<open>Shortest decimal representation\<close>

text \<open>
  \<open>strconv.AppendFloat\<close> with precision \<open>-1\<close>: the least number of digits whose decimal rounds
  to the float, and among those decimals the one closest to it.  A decimal is \<open>c\<close> times ten to the
  \<open>k\<close>; \<open>dec_exp v\<close> is the position of the decimal point before the first digit.
\<close>

definition pow10 :: "int \<Rightarrow> rat" where
  "pow10 k = (if 0 \<le> k then 10 ^ nat k else 1 / 10 ^ nat (- k))"

definition dec_exp :: "rat \<Rightarrow> int" where
  "dec_exp v = (case find (\<lambda>k. v < pow10 k) (map (\<lambda>i. int i - 330) [0..<650]) of Some k \<Rightarrow> k | None \<Rightarrow> 320)"

definition dec_candidates :: "nat \<Rightarrow> rat \<Rightarrow> nat \<Rightarrow> (nat \<times> int) list" where
  "dec_candidates p v n =
     (let k = dec_exp v - int n;
          x = v / pow10 k;
          lo = nat \<lfloor>x\<rfloor>;
          cs = (if x - of_nat lo \<le> 1 / 2 then [lo, lo + 1] else [lo + 1, lo])
      in map (\<lambda>c. (c, k)) (filter (\<lambda>c. round_mag (of_nat c * pow10 k) = p) cs))"

definition shortest_dec :: "nat \<Rightarrow> nat \<times> int" where
  "shortest_dec p =
     (case concat (map (dec_candidates p (mag_rat p)) [1..<18]) of
        c # _ \<Rightarrow> c
      | [] \<Rightarrow> (nat \<lfloor>mag_rat p / pow10 (dec_exp (mag_rat p) - 17)\<rfloor>, dec_exp (mag_rat p) - 17))"

text \<open>The digits without trailing zeros and the position of the decimal point.\<close>

definition dec_digits :: "nat \<Rightarrow> string \<times> int" where
  "dec_digits p =
     (if p = 0 then ([], 0)
      else let (c, k) = shortest_dec p; s = show_nat c
           in (rev (dropWhile (\<lambda>x. x = CHR ''0'') (rev s)), int (length s) + k))"

definition digit_at :: "string \<Rightarrow> int \<Rightarrow> char" where
  "digit_at ds i = (if 0 \<le> i \<and> i < int (length ds) then ds ! nat i else CHR ''0'')"

text \<open>The formats \<open>%f\<close> and \<open>%e\<close> of the digits.\<close>

definition fmt_f :: "string \<Rightarrow> int \<Rightarrow> string" where
  "fmt_f ds dp =
     (if 0 < dp then map (\<lambda>i. digit_at ds (int i)) [0..<nat dp] else ''0'') @
     (let prec = nat (int (length ds) - dp)
      in if 0 < prec then ''.'' @ map (\<lambda>i. digit_at ds (dp + int i)) [0..<prec] else '''')"

definition fmt_e :: "string \<Rightarrow> int \<Rightarrow> string" where
  "fmt_e ds dp =
     (let ex = (if ds = [] then 0 else dp - 1); a = show_nat (nat (abs ex))
      in [digit_at ds 0] @ (if 1 < length ds then ''.'' @ tl ds else '''') @
         ''e'' @ (if ex < 0 then ''-'' else ''+'') @ (if length a < 2 then ''0'' @ a else a))"

definition AppendFloat :: "float64 \<Rightarrow> char \<Rightarrow> string" where
  "AppendFloat f fm =
     (case f_val f of
        FNaN \<Rightarrow> ''NaN''
      | FInf s \<Rightarrow> if s then ''-Inf'' else ''+Inf''
      | FFin s v \<Rightarrow>
          (let (ds, dp) = dec_digits (f_mag f)
           in (if s then ''-'' else '''') @ (if fm = CHR ''e'' then fmt_e ds dp else fmt_f ds dp)))"

text \<open>A decimal that the search finds denotes the float it was found for.\<close>

lemma shortest_dec_rounds:
  assumes "concat (map (dec_candidates p (mag_rat p)) [1..<18]) \<noteq> []"
  shows "round_mag (of_nat (fst (shortest_dec p)) * pow10 (snd (shortest_dec p))) = p"
proof -
  obtain c cs where c: "concat (map (dec_candidates p (mag_rat p)) [1..<18]) = c # cs"
    using assms by (cases "concat (map (dec_candidates p (mag_rat p)) [1..<18])") auto
  then have "c \<in> set (concat (map (dec_candidates p (mag_rat p)) [1..<18]))" by simp
  then obtain n where "c \<in> set (dec_candidates p (mag_rat p) n)" by auto
  then have "round_mag (of_nat (fst c) * pow10 (snd c)) = p"
    by (auto simp: dec_candidates_def Let_def split: if_splits)
  with c show ?thesis by (simp add: shortest_dec_def)
qed

lemma f_zero_parts: "f_mag (f_zero s) = 0" "f_sign (f_zero s) = s" "f_val (f_zero s) = FFin s 0"
proof -
  show m: "f_mag (f_zero s) = 0" and "f_sign (f_zero s) = s" by (simp_all add: f_zero_def f_make_parts)
  then show "f_val (f_zero s) = FFin s 0" by (simp add: f_val_def inf_mag_def mag_rat_def)
qed

lemma AppendFloat_zero: "AppendFloat (f_zero s) CHR ''f'' = (if s then ''-0'' else ''0'')"
  by (simp add: AppendFloat_def f_zero_parts dec_digits_def fmt_f_def)

section \<open>Length of the decimal representation\<close>

lemma pow10_powi: "pow10 k = 10 powi k"
  unfolding pow10_def power_int_def by (simp only: power_one_over inverse_eq_divide)

lemma pow10_pos: "0 < pow10 k"
  by (simp add: pow10_powi)

lemma pow10_less_iff: "pow10 a < pow10 b \<longleftrightarrow> a < b"
proof -
  have "a < b \<Longrightarrow> pow10 a < pow10 b" for a b
    unfolding pow10_powi by (rule power_int_strict_increasing) simp_all
  then show ?thesis by (metis linorder_neqE_linordered_idom order_less_asym)
qed

lemma pow10_diff: "pow10 a / pow10 (a - int n) = 10 ^ n"
proof -
  have "pow10 a = pow10 (a - int n) * 10 ^ n"
    using power_int_add [of "10 :: rat" "a - int n" "int n"] by (simp add: pow10_powi)
  then show ?thesis using pow10_pos [of "a - int n"] by simp
qed

lemma dec_exp_cases:
  obtains (found) "v < pow10 (dec_exp v)" "-330 \<le> dec_exp v" "dec_exp v < 320"
      "\<And>j. -330 \<le> j \<Longrightarrow> j < dec_exp v \<Longrightarrow> pow10 j \<le> v"
    | (large) "dec_exp v = 320" "\<And>j. -330 \<le> j \<Longrightarrow> j < 320 \<Longrightarrow> pow10 j \<le> v"
proof (cases "find (\<lambda>k. v < pow10 k) (map (\<lambda>i. int i - 330) [0..<650])")
  case None
  then have "\<forall>i < 650. \<not> v < pow10 (int i - 330)" by (auto simp: find_None_iff)
  then have "pow10 j \<le> v" if "-330 \<le> j" "j < 320" for j
    using that by (auto dest!: spec [of _ "nat (j + 330)"])
  with None show ?thesis by (intro large) (simp_all add: dec_exp_def)
next
  case (Some k)
  then obtain i where i: "i < 650" "k = int i - 330" "v < pow10 k" "\<forall>j < i. \<not> v < pow10 (int j - 330)"
    by (auto simp: find_Some_iff)
  have "pow10 j \<le> v" if "-330 \<le> j" "j < k" for j
    using that i(2,4) by (auto dest!: spec [of _ "nat (j + 330)"])
  moreover have "dec_exp v = k" by (simp add: dec_exp_def Some)
  ultimately show ?thesis using i by (intro found) simp_all
qed

lemma dec_exp_le: "v < pow10 j \<Longrightarrow> -330 \<le> j \<Longrightarrow> j < 320 \<Longrightarrow> dec_exp v \<le> j"
  by (rule dec_exp_cases [of v]) (metis linorder_not_less not_le_imp_less)+

lemma dec_exp_gt: "pow10 j \<le> v \<Longrightarrow> j < 320 \<Longrightarrow> j < dec_exp v"
  by (rule dec_exp_cases [of v]) (simp_all, metis order_le_less_trans pow10_less_iff)

lemma dec_exp_range: "-330 \<le> dec_exp v \<and> dec_exp v \<le> 320"
  by (rule dec_exp_cases [of v]) simp_all

lemma show_nat_length: "c < 10 ^ n \<Longrightarrow> 0 < n \<Longrightarrow> length (show_nat c) \<le> n"
proof (induction c arbitrary: n rule: show_nat.induct)
  case (1 c)
  show ?case
  proof (cases "c < 10")
    case True
    then show ?thesis using 1 by (subst show_nat.simps) simp
  next
    case False
    with 1 obtain m where m: "n = Suc m" "0 < m" by (cases n; cases "n - 1") auto
    have "c div 10 < 10 ^ m" using "1.prems"(1) m by (simp add: less_mult_imp_div_less mult.commute)
    with "1.IH" False m show ?thesis by (subst show_nat.simps) simp
  qed
qed

lemma mag_rat_less: "p < inf_mag \<Longrightarrow> mag_rat p < pow10 309"
proof -
  assume "p < inf_mag"
  then have "mag_rat p < of_nat (mag_units inf_mag) / of_nat exp_bias_pow"
    unfolding mag_rat_def using exp_bias_pos by (simp add: divide_strict_right_mono)
  also have "\<dots> = 2 ^ 1024" by (simp add: mag_units_def inf_mag_def exp_bias_pow_def)
  also have "\<dots> < pow10 309" by (simp add: pow10_def)
  finally show "mag_rat p < pow10 309" .
qed

text \<open>The search takes at most seventeen digits.\<close>

lemma shortest_dec_bound:
  assumes "p < inf_mag"
  obtains c n where "shortest_dec p = (c, dec_exp (mag_rat p) - int n)" "1 \<le> n" "n \<le> 17" "c \<le> 10 ^ n"
proof -
  let ?v = "mag_rat p"
  have v: "?v < pow10 (dec_exp ?v)"
  proof (rule dec_exp_cases [of ?v])
    assume "dec_exp ?v = 320"
    moreover have "pow10 309 < pow10 320" by (simp only: pow10_less_iff)
    ultimately show ?thesis using mag_rat_less [OF assms] by simp
  qed
  have fl: "nat \<lfloor>?v / pow10 (dec_exp ?v - int n)\<rfloor> < 10 ^ n" for n
  proof -
    have "?v / pow10 (dec_exp ?v - int n) < pow10 (dec_exp ?v) / pow10 (dec_exp ?v - int n)"
      using v pow10_pos by (rule divide_strict_right_mono)
    also have "\<dots> = of_int (10 ^ n)" by (simp add: pow10_diff)
    finally have "\<lfloor>?v / pow10 (dec_exp ?v - int n)\<rfloor> < 10 ^ n" by (simp only: floor_less_iff)
    then show ?thesis by (simp add: nat_less_iff)
  qed
  show ?thesis
  proof (cases "concat (map (dec_candidates p ?v) [1..<18])")
    case Nil
    have "shortest_dec p = (nat \<lfloor>?v / pow10 (dec_exp ?v - int 17)\<rfloor>, dec_exp ?v - int 17)"
      unfolding shortest_dec_def Nil by simp
    then show ?thesis by (rule that) (use less_imp_le [OF fl [of 17]] in simp_all)
  next
    case (Cons d ds)
    then have "d \<in> set (concat (map (dec_candidates p ?v) [1..<18]))" by simp
    then obtain n where n: "1 \<le> n" "n \<le> 17" "d \<in> set (dec_candidates p ?v n)" by auto
    define lo where "lo = nat \<lfloor>?v / pow10 (dec_exp ?v - int n)\<rfloor>"
    have "d = (lo, dec_exp ?v - int n) \<or> d = (Suc lo, dec_exp ?v - int n)"
      using n(3) unfolding lo_def by (auto simp: dec_candidates_def Let_def split: if_splits)
    moreover have "lo < 10 ^ n" unfolding lo_def by (rule fl)
    ultimately have "snd d = dec_exp ?v - int n" "fst d \<le> 10 ^ n" by auto
    moreover have "shortest_dec p = d" unfolding shortest_dec_def Cons by simp
    ultimately show ?thesis using n by (intro that [of "fst d" n]) (simp_all add: prod_eq_iff)
  qed
qed

lemma dec_digits_bound:
  assumes "p < inf_mag" "0 < p"
  obtains ds dp where "dec_digits p = (ds, dp)" "length ds \<le> 18" "dp \<le> dec_exp (mag_rat p) + 1"
    "int (length ds) - dp \<le> 17 - dec_exp (mag_rat p)" "dec_exp (mag_rat p) - 17 < dp"
proof -
  obtain c n where c: "shortest_dec p = (c, dec_exp (mag_rat p) - int n)" "1 \<le> n" "n \<le> 17" "c \<le> 10 ^ n"
    using shortest_dec_bound [OF assms(1)] .
  have "c < 10 ^ Suc n" using c(4) by (rule order_le_less_trans) simp
  then have len: "length (show_nat c) \<le> Suc n" by (rule show_nat_length) simp
  obtain m where pos: "length (show_nat c) = Suc m" using show_nat_nonempty [of c] by (cases "show_nat c") auto
  have strip: "length (dropWhile (\<lambda>x. x = CHR ''0'') (rev (show_nat c))) \<le> length (show_nat c)"
    using length_dropWhile_le [of _ "rev (show_nat c)"] by simp
  show ?thesis
    by (rule that) (use assms(2) c len pos strip in \<open>auto simp: dec_digits_def Let_def\<close>)
qed


lemma fmt_f_length:
  "length (fmt_f ds dp) = (if 0 < dp then nat dp else 1) + (if dp < int (length ds) then 1 + nat (int (length ds) - dp) else 0)"
  by (simp add: fmt_f_def Let_def)

lemma fmt_e_length:
  assumes "length ds \<le> 18" "-400 < dp" "dp < 400"
  shows "length (fmt_e ds dp) \<le> 25"
proof -
  define ex where "ex = (if ds = [] then 0 else dp - 1)"
  have "nat \<bar>ex\<bar> < 10 ^ 3" using assms by (auto simp: ex_def)
  then have "length (show_nat (nat \<bar>ex\<bar>)) \<le> 3" by (rule show_nat_length) simp
  moreover define a where "a = show_nat (nat \<bar>ex\<bar>)"
  ultimately show ?thesis
    using assms(1) unfolding fmt_e_def Let_def ex_def [symmetric] a_def [symmetric] by simp
qed

text \<open>In the exponent format every float takes at most 26 bytes, in the plain one those of moderate size at most 48.\<close>

lemma AppendFloat_length_e: "length (AppendFloat f CHR ''e'') \<le> 26"
proof (cases "f_val f")
  case (FFin s v)
  then have p: "f_mag f < inf_mag" by (auto simp: f_val_def split: if_splits)
  have "length (case dec_digits (f_mag f) of (ds, dp) \<Rightarrow> fmt_e ds dp) \<le> 25"
  proof (cases "f_mag f = 0")
    case True
    then show ?thesis using fmt_e_length [of "[]" 0] by (simp add: dec_digits_def)
  next
    case False
    then obtain ds dp where d: "dec_digits (f_mag f) = (ds, dp)" "length ds \<le> 18"
      "dp \<le> dec_exp (mag_rat (f_mag f)) + 1" "dec_exp (mag_rat (f_mag f)) - 17 < dp"
      using dec_digits_bound [OF p] by (metis neq0_conv)
    then show ?thesis using dec_exp_range [of "mag_rat (f_mag f)"] fmt_e_length [of ds dp] by simp
  qed
  with FFin show ?thesis by (simp add: AppendFloat_def split: prod.splits)
qed (simp_all add: AppendFloat_def)

lemma AppendFloat_length_f:
  assumes "\<And>s v. f_val f = FFin s v \<Longrightarrow> v = 0 \<or> (pow10 (-7) \<le> v \<and> v < pow10 21)"
  shows "length (AppendFloat f CHR ''f'') \<le> 48"
proof (cases "f_val f")
  case (FFin s v)
  then have p: "f_mag f < inf_mag" and v: "v = mag_rat (f_mag f)" by (auto simp: f_val_def split: if_splits)
  have "length (case dec_digits (f_mag f) of (ds, dp) \<Rightarrow> fmt_f ds dp) \<le> 47"
  proof (cases "f_mag f = 0")
    case True
    then show ?thesis by (simp add: dec_digits_def fmt_f_length)
  next
    case False
    then have "0 < mag_units (f_mag f)" using mag_units_less_iff [of 0 "f_mag f"] by simp
    then have "v \<noteq> 0" using exp_bias_pos by (simp add: v mag_rat_def)
    with assms [OF FFin] have "pow10 (-7) \<le> v" "v < pow10 21" by auto
    then have "-7 < dec_exp v" "dec_exp v \<le> 21" by (simp_all add: dec_exp_gt dec_exp_le)
    moreover obtain ds dp where d: "dec_digits (f_mag f) = (ds, dp)" "length ds \<le> 18"
      "dp \<le> dec_exp v + 1" "int (length ds) - dp \<le> 17 - dec_exp v"
      using dec_digits_bound [OF p] False v by (metis neq0_conv)
    ultimately show ?thesis by (simp add: fmt_f_length) arith
  qed
  with FFin show ?thesis by (simp add: AppendFloat_def split: prod.splits)
qed (simp_all add: AppendFloat_def)

lemma AppendFloat_nonempty: "AppendFloat f fm \<noteq> []"
  by (simp add: AppendFloat_def fmt_f_def fmt_e_def Let_def split: fval.split prod.split)

end
