(* ===== verification/Query_Builder.thy ===== *)
theory Query_Builder
  imports Metric_Cache Prom_Labels
begin

text \<open>
  The translation of label matchers and time ranges to SQL, \<open>pkg/pgmodel/query_builder.go\<close>.

  The texts are built as the code builds them.  PostgreSQL is not part of the repository; what
  the eight label clauses select is stated by \<open>clause_selects\<close>, over a label catalog and a
  regular expression matcher of the database, and the theorems compare that with what the
  matchers of the Prometheus library accept.  \<open>sanitize\<close> is \<open>pgx.Identifier.Sanitize\<close>.

  A \<open>time.Time\<close> is its distance from the Unix epoch in nanoseconds, unbounded, and a
  \<open>time.Duration\<close> its number of nanoseconds in 64 bits.
\<close>


section \<open>Parameters of a query\<close>

datatype sql_arg =
    ArgString string
  | ArgTime int
  | ArgDuration int
  | ArgInt int
  | ArgIds "int list"

text \<open>\<open>strings.Count(s, "%d")\<close>\<close>

fun count_verbs :: "string \<Rightarrow> nat" where
  "count_verbs (a # b # s) =
     (if a = CHR ''%'' \<and> b = CHR ''d'' then Suc (count_verbs s) else count_verbs (b # s))"
| "count_verbs _ = 0"

text \<open>
  \<open>fmt.Sprintf\<close> with integer arguments.  A \<open>%d\<close> takes the next argument; what \<open>fmt\<close> prints
  from any other verb on, or from a verb without an argument, is \<open>other rest args\<close>.
\<close>

fun sprintf_d :: "(string \<Rightarrow> nat list \<Rightarrow> string) \<Rightarrow> string \<Rightarrow> nat list \<Rightarrow> string" where
  "sprintf_d other [] [] = []"
| "sprintf_d other [] (n # ns) = other [] (n # ns)"
| "sprintf_d other (c # s) ns =
     (if c = CHR ''%'' then
        (case (s, ns) of
           (CHR ''d'' # s', n # ns') \<Rightarrow> show_nat n @ sprintf_d other s' ns'
         | _ \<Rightarrow> other (c # s) ns)
      else c # sprintf_d other s ns)"

definition invalid_args_msg :: "nat \<Rightarrow> nat \<Rightarrow> string" where
  "invalid_args_msg inSql args =
     ''invalid number of args: in sql '' @ show_nat inSql @ '' vs args '' @ show_nat args"

definition fillInParameters ::
  "(string \<Rightarrow> nat list \<Rightarrow> string) \<Rightarrow> string \<Rightarrow> sql_arg list \<Rightarrow> sql_arg list \<Rightarrow>
   (string \<times> sql_arg list) result" where
  "fillInParameters other query existingArgs newArgs =
     (let argIndex = length existingArgs + 1;
          argCountInClause = count_verbs query
      in if argCountInClause \<noteq> length newArgs
         then Inl (ErrMsg (invalid_args_msg argCountInClause (length newArgs)))
         else Inr (sprintf_d other query [argIndex..<argIndex + argCountInClause],
                   existingArgs @ newArgs))"

record clauseBuilder =
  cb_clauses :: "string list"
  cb_args :: "sql_arg list"

definition addClause ::
  "(string \<Rightarrow> nat list \<Rightarrow> string) \<Rightarrow> clauseBuilder \<Rightarrow> string \<Rightarrow> sql_arg list \<Rightarrow> clauseBuilder result" where
  "addClause other c clause args =
     (case fillInParameters other clause (cb_args c) args of
        Inl e \<Rightarrow> Inl e
      | Inr (clauseWithParameters, newArgs) \<Rightarrow>
          Inr \<lparr>cb_clauses = cb_clauses c @ [clauseWithParameters], cb_args = newArgs\<rparr>)"

definition cb_build :: "clauseBuilder \<Rightarrow> string list \<times> sql_arg list" where
  "cb_build c = (cb_clauses c, cb_args c)"


section \<open>Label clauses\<close>

definition label_clause :: "bool \<Rightarrow> string \<Rightarrow> string" where
  "label_clause negated op =
     (if negated then ''NOT '' else '''') @
     ''labels && (SELECT COALESCE(array_agg(l.id), array[]::int[]) FROM _prom_catalog.label l WHERE l.key = $%d and l.value '' @
     op @ '' $%d)''"

definition subQueryEQ :: string where "subQueryEQ = label_clause False ''=''"
definition subQueryEQMatchEmpty :: string where "subQueryEQMatchEmpty = label_clause True ''!=''"
definition subQueryNEQ :: string where "subQueryNEQ = label_clause False ''!=''"
definition subQueryNEQMatchEmpty :: string where "subQueryNEQMatchEmpty = label_clause True ''=''"
definition subQueryRE :: string where "subQueryRE = label_clause False ''~''"
definition subQueryREMatchEmpty :: string where "subQueryREMatchEmpty = label_clause True ''!~''"
definition subQueryNRE :: string where "subQueryNRE = label_clause False ''!~''"
definition subQueryNREMatchEmpty :: string where "subQueryNREMatchEmpty = label_clause True ''~''"

text \<open>
  A matcher of the Prometheus library: the fields the code reads and the method \<open>Matches\<close>.
\<close>

record matcher =
  mt_Type :: match_type
  mt_Name :: string
  mt_Value :: string
  mt_Matches :: "string \<Rightarrow> bool"

definition anchorValue :: "string \<Rightarrow> string" where
  "anchorValue str =
     (if str = [] then ''^$''
      else if hd str = CHR ''^'' \<and> last str = CHR ''$'' then str
      else if hd str = CHR ''^'' then str @ ''$''
      else if last str = CHR ''$'' then ''^'' @ str
      else ''^'' @ str @ ''$'')"

text \<open>The switch of the loop: the clause and its arguments.\<close>

definition matcher_clause :: "matcher \<Rightarrow> string \<times> sql_arg list" where
  "matcher_clause m =
     (let matchesEmpty = mt_Matches m ''''
      in case mt_Type m of
           MatchEqual \<Rightarrow>
             (if matchesEmpty then subQueryEQMatchEmpty else subQueryEQ,
              [ArgString (mt_Name m), ArgString (mt_Value m)])
         | MatchNotEqual \<Rightarrow>
             (if matchesEmpty then subQueryNEQMatchEmpty else subQueryNEQ,
              [ArgString (mt_Name m), ArgString (mt_Value m)])
         | MatchRegexp \<Rightarrow>
             (if matchesEmpty then subQueryREMatchEmpty else subQueryRE,
              [ArgString (mt_Name m), ArgString (anchorValue (mt_Value m))])
         | MatchNotRegexp \<Rightarrow>
             (if matchesEmpty then subQueryNREMatchEmpty else subQueryNRE,
              [ArgString (mt_Name m), ArgString (anchorValue (mt_Value m))]))"

definition names_metric :: "matcher \<Rightarrow> bool" where
  "names_metric m \<longleftrightarrow> mt_Type m = MatchEqual \<and> mt_Name m = MetricNameLabelName"

fun sub_queries_loop ::
  "(string \<Rightarrow> nat list \<Rightarrow> string) \<Rightarrow> matcher list \<Rightarrow> string \<Rightarrow> nat \<Rightarrow> clauseBuilder \<Rightarrow>
   (string \<times> nat \<times> clauseBuilder) result" where
  "sub_queries_loop other [] metric cnt cb = Inr (metric, cnt, cb)"
| "sub_queries_loop other (m # ms) metric cnt cb =
     (let metric' = (if names_metric m then mt_Value m else metric);
          cnt' = (if names_metric m then cnt + 1 else cnt)
      in case addClause other cb (fst (matcher_clause m)) (snd (matcher_clause m)) of
           Inl e \<Rightarrow> Inl e
         | Inr cb' \<Rightarrow> sub_queries_loop other ms metric' cnt' cb')"

definition buildSubQueries ::
  "(string \<Rightarrow> nat list \<Rightarrow> string) \<Rightarrow> matcher list \<Rightarrow> (string \<times> string list \<times> sql_arg list) result" where
  "buildSubQueries other matchers =
     (case sub_queries_loop other matchers '''' 0 \<lparr>cb_clauses = [], cb_args = []\<rparr> of
        Inl e \<Rightarrow> Inl e
      | Inr (metric, metricMatcherCount, cb) \<Rightarrow>
          (let metric' = (if metricMatcherCount > 1 then '''' else metric);
               (clauses, values) = cb_build cb
           in if clauses = [] then Inl (ErrMsg ''no clauses generated'')
              else Inr (metric', clauses, values)))"


section \<open>Times\<close>

definition UnixNano :: "int \<Rightarrow> int" where
  "UnixNano t = wrap64 t"

definition toMilis :: "int \<Rightarrow> int" where
  "toMilis t = go_quot (UnixNano t) 1000000"

definition minTime :: int where
  "minTime = (go_quot min_int64 1000 + 62135596801) * 1000"

definition maxTime :: int where
  "maxTime = (go_quot max_int64 1000 - 62135596801) * 1000 + 999"

text \<open>
  The calendar of package \<open>time\<close>: the year and the day of the year by cycles of 400, 100, 4
  and 1 years from the first of January of year 1, and the month by the table of days before it.
\<close>

definition leap_year :: "int \<Rightarrow> bool" where
  "leap_year y \<longleftrightarrow> y mod 4 = 0 \<and> (y mod 100 \<noteq> 0 \<or> y mod 400 = 0)"

definition year_yday :: "int \<Rightarrow> int \<times> int" where
  "year_yday days =
     (let n400 = days div 146097; d1 = days mod 146097;
          n100 = min 3 (d1 div 36524); d2 = d1 - 36524 * n100;
          n4 = d2 div 1461; d3 = d2 - 1461 * n4;
          n1 = min 3 (d3 div 365); d4 = d3 - 365 * n1
      in (400 * n400 + 100 * n100 + 4 * n4 + n1 + 1, d4))"

definition days_before :: "int list" where
  "days_before = [0, 31, 59, 90, 120, 151, 181, 212, 243, 273, 304, 334]"

definition days_before_in :: "int \<Rightarrow> nat \<Rightarrow> int" where
  "days_before_in y m = days_before ! (m - 1) + (if leap_year y \<and> 2 < m then 1 else 0)"

text \<open>The last month that starts on or before the day.\<close>

definition month_of :: "int \<Rightarrow> int \<Rightarrow> nat" where
  "month_of y yday = last (filter (\<lambda>m. days_before_in y m \<le> yday) [1..<13])"

definition pad_int :: "nat \<Rightarrow> nat \<Rightarrow> string" where
  "pad_int w n = replicate (w - length (show_nat n)) (CHR ''0'') @ show_nat n"

definition show_year :: "int \<Rightarrow> string" where
  "show_year y = (if y < 0 then CHR ''-'' # pad_int 4 (nat (- y)) else pad_int 4 (nat y))"

definition trim_zeros :: "string \<Rightarrow> string" where
  "trim_zeros s = rev (dropWhile (\<lambda>c. c = CHR ''0'') (rev s))"

record civil =
  c_year :: int
  c_month :: nat
  c_day :: int
  c_sec :: int
  c_nsec :: int

definition civil_of :: "int \<Rightarrow> civil" where
  "civil_of t =
     (let secs = t div 1000000000;
          days = secs div 86400 + 719162;
          (y, yday) = year_yday days;
          m = month_of y yday
      in \<lparr>c_year = y, c_month = m, c_day = yday - days_before_in y m + 1,
          c_sec = secs mod 86400, c_nsec = t mod 1000000000\<rparr>)"

text \<open>\<open>Format(time.RFC3339Nano)\<close> in UTC\<close>

definition format_rfc3339 :: "civil \<Rightarrow> string" where
  "format_rfc3339 c =
     show_year (c_year c) @ ''-'' @ pad_int 2 (c_month c) @ ''-'' @ pad_int 2 (nat (c_day c)) @ ''T'' @
     pad_int 2 (nat (c_sec c div 3600)) @ '':'' @ pad_int 2 (nat (c_sec c div 60 mod 60)) @ '':'' @
     pad_int 2 (nat (c_sec c mod 60)) @
     (if c_nsec c = 0 then '''' else ''.'' @ trim_zeros (pad_int 9 (nat (c_nsec c)))) @ ''Z''"

definition toRFC3339Nano :: "int \<Rightarrow> string" where
  "toRFC3339Nano milliseconds =
     (if milliseconds = minTime then ''-Infinity''
      else if milliseconds = maxTime then ''Infinity''
      else let sec = go_quot milliseconds 1000;
               nsec = (milliseconds - sec * 1000) * 1000000
           in format_rfc3339 (civil_of (sec * 1000000000 + nsec)))"


section \<open>Query texts\<close>

record metricTimeRangeFilter =
  flt_metric :: string
  flt_startTime :: string
  flt_endTime :: string

text \<open>\<open>strings.Join\<close>\<close>

fun str_join :: "string \<Rightarrow> string list \<Rightarrow> string" where
  "str_join sep [] = []"
| "str_join sep [s] = s"
| "str_join sep (s # t # ss) = s @ sep @ str_join sep (t # ss)"

definition nl :: string where "nl = [CHR 0x0A, CHR 0x09]"
definition quoted :: "string \<Rightarrow> string" where "quoted s = [CHR 0x27] @ s @ [CHR 0x27]"

definition metricNameSeriesIDSQLFormat :: "string \<Rightarrow> string" where
  "metricNameSeriesIDSQLFormat cond =
     ''SELECT m.metric_name, array_agg(s.id)'' @ nl @
     ''FROM _prom_catalog.series s'' @ nl @
     ''INNER JOIN _prom_catalog.metric m'' @ nl @
     ''ON (m.id = s.metric_id)'' @ nl @
     ''WHERE '' @ cond @ nl @
     ''GROUP BY m.metric_name'' @ nl @
     ''ORDER BY m.metric_name''"

definition buildMetricNameSeriesIDQuery :: "string list \<Rightarrow> string" where
  "buildMetricNameSeriesIDQuery cases = metricNameSeriesIDSQLFormat (str_join '' AND '' cases)"

definition dataSchema :: string where "dataSchema = ''prom_data''"
definition dataSeriesSchema :: string where "dataSeriesSchema = ''prom_data_series''"

text \<open>The part of the two time series queries from \<open>FROM\<close> on.\<close>

definition series_query_tail :: "(string list \<Rightarrow> string) \<Rightarrow> metricTimeRangeFilter \<Rightarrow> string \<Rightarrow> string" where
  "series_query_tail sanitize filt cond =
     ''FROM '' @ sanitize [dataSchema, flt_metric filt] @ '' m'' @ nl @
     ''INNER JOIN '' @ sanitize [dataSeriesSchema, flt_metric filt] @ '' s'' @ nl @
     ''ON m.series_id = s.id'' @ nl @
     ''WHERE '' @ cond @ nl @
     ''AND time >= '' @ quoted (flt_startTime filt) @ nl @
     ''AND time <= '' @ quoted (flt_endTime filt) @ nl @
     ''GROUP BY s.id''"

definition timeseriesBySeriesIDsSQLFormat ::
  "(string list \<Rightarrow> string) \<Rightarrow> metricTimeRangeFilter \<Rightarrow> string \<Rightarrow> string" where
  "timeseriesBySeriesIDsSQLFormat sanitize filt ids =
     ''SELECT s.labels, array_agg(m.time ORDER BY time), array_agg(m.value ORDER BY time)'' @ nl @
     series_query_tail sanitize filt (''m.series_id IN ('' @ ids @ '')'')"

definition buildTimeseriesBySeriesIDQuery ::
  "(string list \<Rightarrow> string) \<Rightarrow> metricTimeRangeFilter \<Rightarrow> int list \<Rightarrow> string" where
  "buildTimeseriesBySeriesIDQuery sanitize filt series =
     timeseriesBySeriesIDsSQLFormat sanitize filt (str_join '','' (map show_int series))"


section \<open>Pushdown of functions\<close>

text \<open>What the code distinguishes of the parser's nodes.\<close>

datatype node = SubqueryExpr | Call string | OtherNode nat

fun hasSubquery :: "node list \<Rightarrow> bool" where
  "hasSubquery [] = False"
| "hasSubquery (node # path) = (case node of SubqueryExpr \<Rightarrow> True | _ \<Rightarrow> hasSubquery path)"

record selectHints =
  h_Start :: int
  h_End :: int
  h_Step :: int
  h_Range :: int

record queryFinalizer =
  qf_timeClause :: string
  qf_timeParams :: "sql_arg list"
  qf_valueClause :: string
  qf_valueParams :: "sql_arg list"
  qf_restOfQuery :: string
  qf_restOfQueryParams :: "sql_arg list"

definition Finalize ::
  "(string \<Rightarrow> nat list \<Rightarrow> string) \<Rightarrow> queryFinalizer \<Rightarrow> (string \<times> sql_arg list) result" where
  "Finalize other t =
     (let fullQuery = ''SELECT s.labels, '' @ qf_timeClause t @ '', '' @ qf_valueClause t @ qf_restOfQuery t;
          newParams = qf_timeParams t @ qf_valueParams t
      in fillInParameters other fullQuery (qf_restOfQueryParams t) newParams)"

text \<open>\<open>model.Time(ms).Time()\<close>: \<open>time.Unix(ms/1000, (ms%1000)*1e6)\<close>\<close>

definition model_time :: "int \<Rightarrow> int" where
  "model_time ms = ms * 1000000"

definition delta_finalizer :: "string \<Rightarrow> sql_arg list \<Rightarrow> selectHints \<Rightarrow> queryFinalizer outcome" where
  "delta_finalizer otherClauses vals hints =
     (let queryStart = wrap64 (h_Start hints + h_Range hints);
          queryEnd = h_End hints;
          rangeDuration = wrap64 (h_Range hints * 1000000);
          stepDuration = (if h_Step hints > 0 then wrap64 (h_Step hints * 1000000) else 1000000000)
      in if \<not> h_Step hints > 0 \<and> queryStart \<noteq> queryEnd
         then Panic ''query start should equal query end''
         else Return \<lparr>
           qf_timeClause = ''ARRAY(SELECT generate_series($%d::timestamptz, $%d::timestamptz, $%d))'',
           qf_timeParams = [ArgTime (model_time queryStart), ArgTime (model_time queryEnd), ArgDuration stepDuration],
           qf_valueClause = ''prom_delta($%d, $%d,$%d, $%d, time, value ORDER BY time ASC)'',
           qf_valueParams = [ArgTime (model_time (h_Start hints)), ArgTime (model_time queryEnd),
             ArgInt (go_quot stepDuration 1000000), ArgInt (go_quot rangeDuration 1000000)],
           qf_restOfQuery = otherClauses,
           qf_restOfQueryParams = vals\<rparr>)"

definition default_finalizer :: "string \<Rightarrow> sql_arg list \<Rightarrow> queryFinalizer" where
  "default_finalizer otherClauses vals = \<lparr>
     qf_timeClause = ''array_agg(m.time ORDER BY time) as time_array'', qf_timeParams = [],
     qf_valueClause = ''array_agg(m.value ORDER BY time)'', qf_valueParams = [],
     qf_restOfQuery = otherClauses, qf_restOfQueryParams = vals\<rparr>"

text \<open>\<open>ext\<close> is the variable \<open>ExtensionIsInstalled\<close>; a nil path is the empty one.\<close>

definition getQueryFinalizer ::
  "bool \<Rightarrow> string \<Rightarrow> sql_arg list \<Rightarrow> selectHints option \<Rightarrow> node list \<Rightarrow>
   (queryFinalizer \<times> node option) outcome" where
  "getQueryFinalizer ext otherClauses vals hints path =
     (case hints of
        Some h \<Rightarrow>
          (if ext \<and> 2 \<le> length path \<and> \<not> hasSubquery path \<and>
              path ! (length path - 2) = Call ''delta''
           then outcome_bind (delta_finalizer otherClauses vals h) (\<lambda>qf.
                  Return (qf, Some (path ! (length path - 2))))
           else Return (default_finalizer otherClauses vals, None))
      | None \<Rightarrow> Return (default_finalizer otherClauses vals, None))"

definition buildTimeseriesByLabelClausesQuery ::
  "(string list \<Rightarrow> string) \<Rightarrow> (string \<Rightarrow> nat list \<Rightarrow> string) \<Rightarrow> bool \<Rightarrow>
   metricTimeRangeFilter \<Rightarrow> string list \<Rightarrow> sql_arg list \<Rightarrow> selectHints option \<Rightarrow> node list \<Rightarrow>
   (string \<times> sql_arg list \<times> node option) result outcome" where
  "buildTimeseriesByLabelClausesQuery sanitize other ext filt cases vals hints path =
     (let restOfQuery = nl @ series_query_tail sanitize filt (str_join '' AND '' cases)
      in outcome_bind (getQueryFinalizer ext restOfQuery vals hints path) (\<lambda>(qf, node).
           Return (case Finalize other qf of
                     Inl e \<Rightarrow> Inl e
                   | Inr (query, newValues) \<Rightarrow> Inr (query, newValues, node))))"

section \<open>Formats\<close>

lemma sprintf_plain:
  "CHR ''%'' \<notin> set s \<Longrightarrow> sprintf_d other (s @ t) ns = s @ sprintf_d other t ns"
  by (induction s) auto

lemma sprintf_plain_end:
  "CHR ''%'' \<notin> set s \<Longrightarrow> sprintf_d other s [] = s"
  using sprintf_plain [of s other "[]" "[]"] by simp

lemma sprintf_verb: "sprintf_d other (''%d'' @ s) (n # ns) = show_nat n @ sprintf_d other s ns"
  by simp

lemma count_verbs_skip: "c \<noteq> CHR ''%'' \<Longrightarrow> count_verbs (c # s) = count_verbs s"
  by (cases s) auto

lemma count_verbs_plain: "CHR ''%'' \<notin> set s \<Longrightarrow> count_verbs (s @ t) = count_verbs t"
  by (induction s) (auto simp: count_verbs_skip)

lemma count_verbs_plain_end: "CHR ''%'' \<notin> set s \<Longrightarrow> count_verbs s = 0"
  using count_verbs_plain [of s "[]"] by simp

lemma count_verbs_verb: "count_verbs (''%d'' @ s) = Suc (count_verbs s)"
  by simp

lemmas format_simps = sprintf_plain sprintf_plain_end sprintf_verb count_verbs_plain
  count_verbs_plain_end count_verbs_verb

section \<open>What the label clauses select\<close>

text \<open>
  The text of a label clause after its two parameters are numbered, and its meaning: with
  \<open>cat\<close> the rows of the table \<open>_prom_catalog.label\<close>, \<open>re pat s\<close> the operator \<open>~\<close> and
  \<open>args\<close> the parameters, \<open>labels && (SELECT array_agg(l.id) ...)\<close> holds of a series when one of
  its label ids is among the selected ones.  A text that is no such clause holds of no series.
\<close>

definition clause_text :: "bool \<Rightarrow> string \<Rightarrow> nat \<Rightarrow> nat \<Rightarrow> string" where
  "clause_text negated op i j =
     (if negated then ''NOT '' else '''') @
     ''labels && (SELECT COALESCE(array_agg(l.id), array[]::int[]) FROM _prom_catalog.label l WHERE l.key = $'' @
     show_nat i @ '' and l.value '' @ op @ '' $'' @ show_nat j @ '')''"

definition cmp_ops :: "string list" where
  "cmp_ops = [''='', ''!='', ''~'', ''!~'']"

definition sql_cmp :: "(string \<Rightarrow> string \<Rightarrow> bool) \<Rightarrow> string \<Rightarrow> string \<Rightarrow> string \<Rightarrow> bool" where
  "sql_cmp re op x a =
     (if op = ''='' then x = a else if op = ''!='' then x \<noteq> a
      else if op = ''~'' then re a x else \<not> re a x)"

definition overlap ::
  "(string \<Rightarrow> string \<Rightarrow> bool) \<Rightarrow> (int \<rightharpoonup> label) \<Rightarrow> int list \<Rightarrow> string \<Rightarrow> string \<Rightarrow> string \<Rightarrow> bool" where
  "overlap re cat ids op key a \<longleftrightarrow>
     (\<exists>id \<in> set ids. case cat id of
        None \<Rightarrow> False | Some l \<Rightarrow> lbl_name l = key \<and> sql_cmp re op (lbl_value l) a)"

definition clause_selects ::
  "(string \<Rightarrow> string \<Rightarrow> bool) \<Rightarrow> (int \<rightharpoonup> label) \<Rightarrow> int list \<Rightarrow> sql_arg list \<Rightarrow> string \<Rightarrow> bool" where
  "clause_selects re cat ids args txt \<longleftrightarrow>
     (\<exists>negated \<in> {True, False}. \<exists>op \<in> set cmp_ops. \<exists>i < length args. \<exists>j < length args.
        txt = clause_text negated op (Suc i) (Suc j) \<and>
        (case (args ! i, args ! j) of
           (ArgString key, ArgString a) \<Rightarrow> negated \<noteq> overlap re cat ids op key a
         | _ \<Rightarrow> False))"

lemma clause_text_inj:
  assumes "clause_text n op i j = clause_text n' op' i' j'" and "op \<in> set cmp_ops" and "op' \<in> set cmp_ops"
  shows "n = n' \<and> op = op' \<and> i = i' \<and> j = j'"
proof -
  have n: "n = n'" using assms(1) by (cases n; cases n') (simp_all add: clause_text_def)
  with assms(1) have "show_nat i @ CHR '' '' # (''and l.value '' @ op @ '' $'' @ show_nat j @ '')'') =
    show_nat i' @ CHR '' '' # (''and l.value '' @ op' @ '' $'' @ show_nat j' @ '')'')"
    by (simp add: clause_text_def)
  from show_nat_append_inj [OF this] have i: "i = i'"
    and ops: "op @ '' $'' @ show_nat j @ '')'' = op' @ '' $'' @ show_nat j' @ '')''" by auto
  from ops assms(2,3) have op: "op = op'" by (auto simp: cmp_ops_def)
  with ops have "show_nat j @ CHR '')'' # [] = show_nat j' @ CHR '')'' # []" by simp
  from show_nat_append_inj [OF this] n i op show ?thesis by auto
qed

lemma clause_selects_text:
  assumes "op \<in> set cmp_ops" and "i < length args" and "j < length args"
    and "args ! i = ArgString key" and "args ! j = ArgString a"
  shows "clause_selects re cat ids args (clause_text n op (Suc i) (Suc j)) \<longleftrightarrow>
    n \<noteq> overlap re cat ids op key a"
proof
  assume "clause_selects re cat ids args (clause_text n op (Suc i) (Suc j))"
  then obtain n' op' i' j' where eq: "clause_text n op (Suc i) (Suc j) = clause_text n' op' (Suc i') (Suc j')"
    and op': "op' \<in> set cmp_ops" and holds: "case (args ! i', args ! j') of
           (ArgString key, ArgString a) \<Rightarrow> n' \<noteq> overlap re cat ids op' key a | _ \<Rightarrow> False"
    unfolding clause_selects_def by blast
  from clause_text_inj [OF eq assms(1) op'] holds assms(4,5)
  show "n \<noteq> overlap re cat ids op key a" by simp
next
  assume "n \<noteq> overlap re cat ids op key a"
  with assms show "clause_selects re cat ids args (clause_text n op (Suc i) (Suc j))"
    unfolding clause_selects_def
    by (intro bexI [of _ n] bexI [of _ op] exI [of _ i] exI [of _ j]) auto
qed

section \<open>Clauses and matchers\<close>

text \<open>The shape of a matcher's clause: negated or not, the operator, and the second argument.\<close>

definition clause_negated :: "matcher \<Rightarrow> bool" where
  "clause_negated m \<longleftrightarrow> mt_Matches m ''''"

definition clause_op :: "matcher \<Rightarrow> string" where
  "clause_op m =
     (case mt_Type m of
        MatchEqual \<Rightarrow> if mt_Matches m '''' then ''!='' else ''=''
      | MatchNotEqual \<Rightarrow> if mt_Matches m '''' then ''='' else ''!=''
      | MatchRegexp \<Rightarrow> if mt_Matches m '''' then ''!~'' else ''~''
      | MatchNotRegexp \<Rightarrow> if mt_Matches m '''' then ''~'' else ''!~'')"

definition clause_arg :: "matcher \<Rightarrow> string" where
  "clause_arg m =
     (case mt_Type m of
        MatchEqual \<Rightarrow> mt_Value m | MatchNotEqual \<Rightarrow> mt_Value m
      | MatchRegexp \<Rightarrow> anchorValue (mt_Value m) | MatchNotRegexp \<Rightarrow> anchorValue (mt_Value m))"

lemmas clause_parts = clause_negated_def clause_op_def clause_arg_def

lemmas subQuery_defs = subQueryEQ_def subQueryEQMatchEmpty_def subQueryNEQ_def subQueryNEQMatchEmpty_def
  subQueryRE_def subQueryREMatchEmpty_def subQueryNRE_def subQueryNREMatchEmpty_def

lemma matcher_clause_parts:
  "matcher_clause m =
     (label_clause (clause_negated m) (clause_op m), [ArgString (mt_Name m), ArgString (clause_arg m)])"
  by (cases "mt_Type m") (simp_all add: matcher_clause_def clause_parts subQuery_defs Let_def)

lemma clause_op_known: "clause_op m \<in> set cmp_ops"
  by (cases "mt_Type m") (simp_all add: clause_op_def cmp_ops_def)

lemma label_clause_split:
  "label_clause n op = ((if n then ''NOT '' else '''') @
     ''labels && (SELECT COALESCE(array_agg(l.id), array[]::int[]) FROM _prom_catalog.label l WHERE l.key = $'') @
     ''%d'' @ ('' and l.value '' @ op @ '' $'') @ ''%d'' @ '')''"
  by (simp add: label_clause_def)

lemma fill_label_clause:
  assumes "op \<in> set cmp_ops"
  shows "fillInParameters other (label_clause n op) args [x, y] =
    Inr (clause_text n op (Suc (length args)) (Suc (Suc (length args))), args @ [x, y])"
proof -
  have a: "CHR ''%'' \<notin> set ((if n then ''NOT '' else '''') @
     ''labels && (SELECT COALESCE(array_agg(l.id), array[]::int[]) FROM _prom_catalog.label l WHERE l.key = $'')"
    by simp
  have b: "CHR ''%'' \<notin> set ('' and l.value '' @ op @ '' $'')" using assms by (auto simp: cmp_ops_def)
  have c: "CHR ''%'' \<notin> set '')''" by simp
  have "count_verbs (label_clause n op) = 2"
    unfolding label_clause_split
    by (simp only: count_verbs_plain [OF a] count_verbs_verb count_verbs_plain [OF b]
      count_verbs_plain_end [OF c])
  moreover have "sprintf_d other (label_clause n op) [i, j] = clause_text n op i j" for i j
    unfolding label_clause_split clause_text_def
    by (simp only: sprintf_plain [OF a] sprintf_verb sprintf_plain [OF b] sprintf_plain_end [OF c])
      (simp only: append_assoc)
  moreover have "[k..<k + 2] = [k, Suc k]" for k by (simp add: upt_conv_Cons)
  ultimately show ?thesis by (simp add: fillInParameters_def Let_def)
qed

fun clause_texts :: "nat \<Rightarrow> matcher list \<Rightarrow> string list" where
  "clause_texts k [] = []"
| "clause_texts k (m # ms) =
     clause_text (clause_negated m) (clause_op m) (Suc k) (Suc (Suc k)) # clause_texts (k + 2) ms"

fun clause_args :: "matcher list \<Rightarrow> sql_arg list" where
  "clause_args [] = []"
| "clause_args (m # ms) = ArgString (mt_Name m) # ArgString (clause_arg m) # clause_args ms"

lemma sub_queries_loop_eq:
  "sub_queries_loop other ms metric cnt cb =
     Inr (fold (\<lambda>m x. if names_metric m then mt_Value m else x) ms metric,
          cnt + length (filter names_metric ms),
          \<lparr>cb_clauses = cb_clauses cb @ clause_texts (length (cb_args cb)) ms,
           cb_args = cb_args cb @ clause_args ms\<rparr>)"
proof (induction ms arbitrary: metric cnt cb)
  case (Cons m ms)
  have "addClause other cb (fst (matcher_clause m)) (snd (matcher_clause m)) =
    Inr \<lparr>cb_clauses = cb_clauses cb @ [clause_text (clause_negated m) (clause_op m)
           (Suc (length (cb_args cb))) (Suc (Suc (length (cb_args cb))))],
         cb_args = cb_args cb @ [ArgString (mt_Name m), ArgString (clause_arg m)]\<rparr>"
    by (simp add: addClause_def matcher_clause_parts fill_label_clause [OF clause_op_known])
  then show ?case by (simp add: Let_def Cons.IH)
qed simp

definition single_metric :: "matcher list \<Rightarrow> string" where
  "single_metric ms = (case filter names_metric ms of [m] \<Rightarrow> mt_Value m | _ \<Rightarrow> '''')"

lemma fold_metric:
  "fold (\<lambda>m x. if names_metric m then mt_Value m else x) ms x =
    (if filter names_metric ms = [] then x else mt_Value (last (filter names_metric ms)))"
  by (induction ms arbitrary: x) auto

lemma clause_texts_nonempty: "clause_texts k ms = [] \<longleftrightarrow> ms = []"
  by (cases ms) auto

lemma buildSubQueries_eq:
  "buildSubQueries other ms =
     (if ms = [] then Inl (ErrMsg ''no clauses generated'')
      else Inr (single_metric ms, clause_texts 0 ms, clause_args ms))"
proof -
  have "(if 1 < length (filter names_metric ms) then ''''
         else if filter names_metric ms = [] then '''' else mt_Value (last (filter names_metric ms))) =
        single_metric ms"
    by (auto simp: single_metric_def split: list.splits)
  then show ?thesis
    by (simp add: buildSubQueries_def sub_queries_loop_eq cb_build_def Let_def fold_metric
      clause_texts_nonempty)
qed

text \<open>The labels of a series and the value of one of them, empty when the series does not have it.\<close>

definition series_labels :: "(int \<rightharpoonup> label) \<Rightarrow> int list \<Rightarrow> label list" where
  "series_labels cat ids = List.map_filter cat ids"

definition label_get :: "label list \<Rightarrow> string \<Rightarrow> string" where
  "label_get ls name =
     (case filter (\<lambda>l. lbl_name l = name) ls of [] \<Rightarrow> '''' | l # _ \<Rightarrow> lbl_value l)"

text \<open>
  What the library promises of a matcher, with \<open>re\<close> the regular expression operator of the
  database: the two must agree on the anchored pattern.
\<close>

definition matcher_ok :: "(string \<Rightarrow> string \<Rightarrow> bool) \<Rightarrow> matcher \<Rightarrow> bool" where
  "matcher_ok re m \<longleftrightarrow>
     mt_Matches m = (case mt_Type m of
        MatchEqual \<Rightarrow> (\<lambda>s. s = mt_Value m) | MatchNotEqual \<Rightarrow> (\<lambda>s. s \<noteq> mt_Value m)
      | MatchRegexp \<Rightarrow> re (anchorValue (mt_Value m)) | MatchNotRegexp \<Rightarrow> (\<lambda>s. \<not> re (anchorValue (mt_Value m)) s))"

lemma overlap_labels:
  "overlap re cat ids op key a \<longleftrightarrow>
    (\<exists>l \<in> set (series_labels cat ids). lbl_name l = key \<and> sql_cmp re op (lbl_value l) a)"
proof -
  have "set (series_labels cat ids) = {l. \<exists>i \<in> set ids. cat i = Some l}"
    by (force simp: series_labels_def List.map_filter_def image_iff)
  then show ?thesis by (fastforce simp: overlap_def split: option.splits)
qed

lemma label_get_present:
  assumes "distinct (map lbl_name ls)" and "l \<in> set ls"
  shows "label_get ls (lbl_name l) = lbl_value l"
proof -
  have "filter (\<lambda>x. lbl_name x = lbl_name l) ls = [l]"
    using assms by (induction ls) (auto simp: filter_empty_conv image_iff)
  then show ?thesis by (simp add: label_get_def)
qed

lemma label_get_absent: "name \<notin> lbl_name ` set ls \<Longrightarrow> label_get ls name = ''''"
  by (auto simp: label_get_def filter_empty_conv split: list.splits dest: filter_eq_ConsD)

lemma matcher_clause_correct:
  assumes "matcher_ok re m" and "distinct (map lbl_name (series_labels cat ids))"
  shows "clause_negated m \<noteq> overlap re cat ids (clause_op m) (mt_Name m) (clause_arg m) \<longleftrightarrow>
    mt_Matches m (label_get (series_labels cat ids) (mt_Name m))"
proof -
  let ?ls = "series_labels cat ids"
  have meaning: "sql_cmp re (clause_op m) s (clause_arg m) \<longleftrightarrow> mt_Matches m s \<noteq> mt_Matches m ''''" for s
    using assms(1)
    by (cases "mt_Type m") (auto simp: matcher_ok_def clause_op_def clause_arg_def sql_cmp_def)
  show ?thesis
  proof (cases "mt_Name m \<in> lbl_name ` set ?ls")
    case True
    then obtain l where l: "l \<in> set ?ls" "lbl_name l = mt_Name m" by auto
    have uniq: "l' = l" if "l' \<in> set ?ls" "lbl_name l' = mt_Name m" for l'
      using that l assms(2) by (metis distinct_map inj_on_contraD)
    have "overlap re cat ids (clause_op m) (mt_Name m) (clause_arg m) \<longleftrightarrow>
      mt_Matches m (lbl_value l) \<noteq> mt_Matches m ''''"
      unfolding overlap_labels meaning using l uniq by metis
    moreover have "label_get ?ls (mt_Name m) = lbl_value l"
      using label_get_present [OF assms(2) l(1)] l(2) by simp
    ultimately show ?thesis by (auto simp: clause_negated_def)
  next
    case False
    then have "\<not> overlap re cat ids (clause_op m) (mt_Name m) (clause_arg m)"
      unfolding overlap_labels by force
    with False show ?thesis by (simp add: clause_negated_def label_get_absent)
  qed
qed

lemma clause_texts_select:
  assumes "\<forall>m \<in> set ms. matcher_ok re m" and "distinct (map lbl_name (series_labels cat ids))"
  shows "(\<forall>txt \<in> set (clause_texts (length pre) ms). clause_selects re cat ids (pre @ clause_args ms) txt) \<longleftrightarrow>
    (\<forall>m \<in> set ms. mt_Matches m (label_get (series_labels cat ids) (mt_Name m)))"
  using assms(1)
proof (induction ms arbitrary: pre)
  case (Cons m ms)
  let ?args = "pre @ clause_args (m # ms)"
  have "clause_selects re cat ids ?args
      (clause_text (clause_negated m) (clause_op m) (Suc (length pre)) (Suc (Suc (length pre)))) \<longleftrightarrow>
    clause_negated m \<noteq> overlap re cat ids (clause_op m) (mt_Name m) (clause_arg m)"
    by (rule clause_selects_text [OF clause_op_known]) (simp_all add: nth_append)
  moreover have "clause_negated m \<noteq> overlap re cat ids (clause_op m) (mt_Name m) (clause_arg m) \<longleftrightarrow>
    mt_Matches m (label_get (series_labels cat ids) (mt_Name m))"
    using Cons.prems by (intro matcher_clause_correct [OF _ assms(2)]) simp
  moreover note Cons.IH [of "pre @ [ArgString (mt_Name m), ArgString (clause_arg m)]"] Cons.prems
  ultimately show ?case by simp
qed simp


definition ex_matchers :: "matcher list" where
  "ex_matchers =
     [\<lparr>mt_Type = MatchEqual, mt_Name = ''__name__'', mt_Value = ''cpu'', mt_Matches = (\<lambda>s. s = ''cpu'')\<rparr>,
      \<lparr>mt_Type = MatchNotRegexp, mt_Name = ''host'', mt_Value = ''a'', mt_Matches = (\<lambda>s. s \<noteq> ''a'')\<rparr>]"

definition ex_catalog :: "int \<rightharpoonup> label" where
  "ex_catalog = [1 \<mapsto> \<lparr>lbl_name = ''__name__'', lbl_value = ''cpu''\<rparr>, 2 \<mapsto> \<lparr>lbl_name = ''host'', lbl_value = ''b''\<rparr>]"



section \<open>The calendar\<close>

text \<open>The day number of a date, day 0 being the first of January of year 1, by the Gregorian rule.\<close>

definition day_number :: "int \<Rightarrow> nat \<Rightarrow> int \<Rightarrow> int" where
  "day_number y m d =
     365 * (y - 1) + (y - 1) div 4 - (y - 1) div 100 + (y - 1) div 400 + days_before_in y m + d - 1"

definition days_in_month :: "int \<Rightarrow> nat \<Rightarrow> int" where
  "days_in_month y m =
     (if m = 12 then 31 else days_before_in y (Suc m) - days_before_in y m)"

definition civil_ns :: "civil \<Rightarrow> int" where
  "civil_ns c =
     ((day_number (c_year c) (c_month c) (c_day c) - 719162) * 86400 + c_sec c) * 1000000000 + c_nsec c"

definition valid_civil :: "civil \<Rightarrow> bool" where
  "valid_civil c \<longleftrightarrow>
     1 \<le> c_month c \<and> c_month c \<le> 12 \<and> 1 \<le> c_day c \<and> c_day c \<le> days_in_month (c_year c) (c_month c) \<and>
     0 \<le> c_sec c \<and> c_sec c < 86400 \<and> 0 \<le> c_nsec c \<and> c_nsec c < 1000000000"

lemma capped_quot:
  fixes d k :: int
  assumes "0 \<le> d" and "0 < k" and "d \<le> 4 * k"
  shows "0 \<le> d - k * min 3 (d div k) \<and> d - k * min 3 (d div k) \<le> k \<and>
    (d - k * min 3 (d div k) = k \<longrightarrow> min 3 (d div k) = 3 \<and> d = 4 * k)"
proof (cases "d div k \<le> 3")
  case True
  then have "min 3 (d div k) = d div k" by simp
  moreover have "d - k * (d div k) = d mod k" by (simp add: minus_mult_div_eq_mod)
  moreover have "0 \<le> d mod k" "d mod k < k" using assms(2) by simp_all
  ultimately show ?thesis by simp
next
  case False
  then have "4 * k \<le> d div k * k" using assms(2) by (intro mult_right_mono) auto
  moreover have "d div k * k \<le> d" 
    using div_mult_mod_eq [of d k] pos_mod_sign [OF assms(2), of d] by linarith
  ultimately have "d = 4 * k" using assms(3) by linarith
  moreover have "min 3 (d div k) = 3" using False by simp
  ultimately show ?thesis using assms(2) by simp
qed

lemma year_yday_cycles:
  fixes days :: int
  defines "a \<equiv> days div 146097" and "d1 \<equiv> days mod 146097"
  defines "b \<equiv> min 3 (d1 div 36524)"
  defines "d2 \<equiv> d1 - 36524 * b"
  defines "c \<equiv> d2 div 1461"
  defines "d3 \<equiv> d2 - 1461 * c"
  defines "n \<equiv> min 3 (d3 div 365)"
  shows "0 \<le> b" "b \<le> 3" "0 \<le> c" "c \<le> 24" "0 \<le> n" "n \<le> 3"
    and "0 \<le> d3 - 365 * n" and "d3 - 365 * n \<le> 365"
    and "d3 - 365 * n = 365 \<Longrightarrow> n = 3 \<and> (c = 24 \<longrightarrow> b = 3)"
    and "days = 146097 * a + 36524 * b + 1461 * c + 365 * n + (d3 - 365 * n)"
proof -
  have d1: "0 \<le> d1" "d1 < 146097" by (simp_all add: d1_def)
  show b: "0 \<le> b" "b \<le> 3" using d1 by (simp_all add: b_def)
  have d2: "0 \<le> d2" "d2 \<le> 36524" "d2 = 36524 \<Longrightarrow> b = 3"
    using capped_quot [of d1 36524] d1 by (auto simp: d2_def b_def)
  have d2c: "d2 = 1461 * c + d3" by (simp add: d3_def)
  have d3: "0 \<le> d3" "d3 < 1461"
    by (simp_all add: d3_def c_def minus_mult_div_eq_mod [symmetric] flip: minus_mult_div_eq_mod)
  show c: "0 \<le> c" "c \<le> 24" using d2 d3 d2c by linarith+
  show n: "0 \<le> n" "n \<le> 3" using d3 by (simp_all add: n_def)
  show "0 \<le> d3 - 365 * n" "d3 - 365 * n \<le> 365"
    using capped_quot [of d3 365] d3 by (auto simp: n_def)
  show "n = 3 \<and> (c = 24 \<longrightarrow> b = 3)" if "d3 - 365 * n = 365"
  proof -
    have n3: "n = 3" "d3 = 1460" using that capped_quot [of d3 365] d3 by (auto simp: n_def)
    moreover have "c = 24 \<Longrightarrow> d2 = 36524" using n3 by (simp add: d3_def)
    ultimately show ?thesis using d2(3) by blast
  qed
  show "days = 146097 * a + 36524 * b + 1461 * c + 365 * n + (d3 - 365 * n)"
    by (simp add: d3_def d2_def d1_def a_def)
qed

lemma cycle_year:
  fixes a b c n :: int
  assumes "0 \<le> b" "b \<le> 3" "0 \<le> c" "c \<le> 24" "0 \<le> n" "n \<le> 3"
  shows "(400 * a + 100 * b + 4 * c + n) div 4 = 100 * a + 25 * b + c"
    and "(400 * a + 100 * b + 4 * c + n) div 100 = 4 * a + b"
    and "(400 * a + 100 * b + 4 * c + n) div 400 = a"
proof -
  show "(400 * a + 100 * b + 4 * c + n) div 4 = 100 * a + 25 * b + c"
    by (rule int_div_pos_eq [where r = n]) (use assms in simp_all)
  show "(400 * a + 100 * b + 4 * c + n) div 100 = 4 * a + b"
    by (rule int_div_pos_eq [where r = "4 * c + n"]) (use assms in simp_all)
  show "(400 * a + 100 * b + 4 * c + n) div 400 = a"
    by (rule int_div_pos_eq [where r = "100 * b + 4 * c + n"]) (use assms in simp_all)
qed

lemma cycle_leap:
  fixes a b c :: int
  assumes "0 \<le> b" "b \<le> 3" "0 \<le> c" "c \<le> 24" "c = 24 \<longrightarrow> b = 3"
  shows "leap_year (400 * a + 100 * b + 4 * c + 3 + 1)"
proof (cases "c = 24")
  case True
  with assms(5) have "400 * a + 100 * b + 4 * c + 3 + 1 = 400 * (a + 1)" by simp
  then show ?thesis by (simp only: leap_year_def) simp
next
  case False
  have "(400 * a + 100 * b + 4 * c + 3 + 1) mod 100 = 4 * c + 4"
    by (rule int_mod_pos_eq [where q = "4 * a + b"]) (use assms False in simp_all)
  moreover have "(400 * a + 100 * b + 4 * c + 3 + 1) mod 4 = 0"
    by (rule int_mod_pos_eq [where q = "100 * a + 25 * b + c + 1"]) (use assms False in simp_all)
  ultimately show ?thesis unfolding leap_year_def using assms(3) by linarith
qed

lemma year_yday_spec:
  assumes "year_yday days = (y, yday)"
  shows "days = 365 * (y - 1) + (y - 1) div 4 - (y - 1) div 100 + (y - 1) div 400 + yday"
    and "0 \<le> yday" and "yday < 365 + (if leap_year y then 1 else 0)"
proof -
  define a where "a = days div 146097"
  define b where "b = min 3 (days mod 146097 div 36524)"
  define c where "c = (days mod 146097 - 36524 * b) div 1461"
  define d3 where "d3 = days mod 146097 - 36524 * b - 1461 * c"
  define n where "n = min 3 (d3 div 365)"
  note cyc = year_yday_cycles [of days, folded a_def b_def, folded c_def, folded d3_def, folded n_def]
  have y: "y = 400 * a + 100 * b + 4 * c + n + 1" and yday: "yday = d3 - 365 * n"
    using assms unfolding year_yday_def Let_def n_def d3_def c_def b_def a_def
    by (auto simp only: prod.inject)
  have y1: "y - 1 = 400 * a + 100 * b + 4 * c + n" using y by simp
  show "days = 365 * (y - 1) + (y - 1) div 4 - (y - 1) div 100 + (y - 1) div 400 + yday"
    unfolding y1 cycle_year [OF cyc(1-6)] yday using cyc(10) by simp
  show "0 \<le> yday" using cyc(7) yday by simp
  show "yday < 365 + (if leap_year y then 1 else 0)"
  proof (cases "yday = 365")
    case True
    with cyc(9) yday have "n = 3" "c = 24 \<longrightarrow> b = 3" by auto
    with cycle_leap [OF cyc(1-4)] y True show ?thesis by simp
  next
    case False
    with cyc(8) yday show ?thesis by simp
  qed
qed

lemma sorted_le_last: "sorted xs \<Longrightarrow> x \<in> set xs \<Longrightarrow> x \<le> last xs"
  by (induction xs rule: rev_induct) (auto simp: sorted_append)

lemma month_of_spec:
  assumes "0 \<le> yday" and "yday < 365 + (if leap_year y then 1 else 0)"
  shows "1 \<le> month_of y yday \<and> month_of y yday \<le> 12 \<and>
    days_before_in y (month_of y yday) \<le> yday \<and>
    yday < days_before_in y (month_of y yday) + days_in_month y (month_of y yday)"
proof -
  let ?ms = "filter (\<lambda>m. days_before_in y m \<le> yday) [1..<13]"
  let ?m = "month_of y yday"
  have "1 \<in> set ?ms" using assms(1) by (simp add: days_before_in_def days_before_def)
  then have "?ms \<noteq> []" by (metis empty_iff empty_set)
  then have in_ms: "?m \<in> set ?ms" unfolding month_of_def by (rule last_in_set)
  have greatest: "k \<le> ?m" if "k \<in> set ?ms" for k
  proof -
    have "sorted ?ms" by (intro sorted_wrt_filter sorted_upt)
    then show ?thesis using that unfolding month_of_def
      by (rule sorted_le_last)
  qed
  have "yday < days_before_in y ?m + days_in_month y ?m"
  proof (cases "?m = 12")
    case True
    then show ?thesis using assms(2)
      by (simp add: days_in_month_def days_before_in_def days_before_def)
  next
    case False
    with in_ms greatest [of "Suc ?m"] have "yday < days_before_in y (Suc ?m)" by fastforce
    with False show ?thesis by (simp add: days_in_month_def)
  qed
  with in_ms show ?thesis by auto
qed


section \<open>Finalizing a query\<close>

lemma fillInParameters_eq:
  assumes "count_verbs q = n" and "length newArgs = n"
  shows "fillInParameters other q existing newArgs =
    Inr (sprintf_d other q [length existing + 1..<length existing + 1 + n], existing @ newArgs)"
  using assms by (simp add: fillInParameters_def Let_def)

lemma Finalize_default:
  assumes "CHR ''%'' \<notin> set rest_q"
  shows "Finalize other (default_finalizer rest_q vals) =
    Inr (''SELECT s.labels, array_agg(m.time ORDER BY time) as time_array, array_agg(m.value ORDER BY time)''
           @ rest_q, vals)"
proof -
  let ?q = "''SELECT s.labels, array_agg(m.time ORDER BY time) as time_array, array_agg(m.value ORDER BY time)'' @ rest_q"
  have "CHR ''%'' \<notin> set ?q" using assms by simp
  then have "count_verbs ?q = 0" "sprintf_d other ?q [] = ?q"
    by (rule count_verbs_plain_end, rule sprintf_plain_end)
  then show ?thesis by (simp add: Finalize_def default_finalizer_def fillInParameters_def Let_def)
qed

text \<open>The text of a pushed down \<open>delta\<close> whose parameters start at number \<open>k\<close>.\<close>

definition delta_text :: "nat \<Rightarrow> string \<Rightarrow> string" where
  "delta_text k rest_q =
     ''SELECT s.labels, ARRAY(SELECT generate_series($'' @ show_nat k @ ''::timestamptz, $'' @ show_nat (k + 1) @
     ''::timestamptz, $'' @ show_nat (k + 2) @ '')), prom_delta($'' @ show_nat (k + 3) @ '', $'' @ show_nat (k + 4) @
     '',$'' @ show_nat (k + 5) @ '', $'' @ show_nat (k + 6) @ '', time, value ORDER BY time ASC)'' @ rest_q"

lemma Finalize_delta:
  assumes "CHR ''%'' \<notin> set rest_q" and "delta_finalizer rest_q vals h = Return qf"
  shows "Finalize other qf =
    Inr (delta_text (length vals + 1) rest_q, vals @ qf_timeParams qf @ qf_valueParams qf)"
proof -
  let ?pre = "''SELECT s.labels, ARRAY(SELECT generate_series($''"
  let ?q = "?pre @ ''%d'' @ ''::timestamptz, $'' @ ''%d'' @ ''::timestamptz, $'' @ ''%d'' @ '')), prom_delta($''
    @ ''%d'' @ '', $'' @ ''%d'' @ '',$'' @ ''%d'' @ '', $'' @ ''%d'' @
    ('', time, value ORDER BY time ASC)'' @ rest_q)"
  have plain: "CHR ''%'' \<notin> set ?pre" "CHR ''%'' \<notin> set ''::timestamptz, $''"
    "CHR ''%'' \<notin> set '')), prom_delta($''" "CHR ''%'' \<notin> set '', $''" "CHR ''%'' \<notin> set '',$''"
    "CHR ''%'' \<notin> set ('', time, value ORDER BY time ASC)'' @ rest_q)"
    using assms(1) by simp_all
  note fmt = plain [THEN sprintf_plain] plain(6) [THEN sprintf_plain_end] sprintf_verb
  note cnt = plain [THEN count_verbs_plain] plain(6) [THEN count_verbs_plain_end] count_verbs_verb
  from assms(2) have qf: "''SELECT s.labels, '' @ qf_timeClause qf @ '', '' @ qf_valueClause qf @ qf_restOfQuery qf = ?q"
    and params: "length (qf_timeParams qf @ qf_valueParams qf) = 7" "qf_restOfQueryParams qf = vals"
    by (auto simp: delta_finalizer_def Let_def split: if_splits)
  have count: "count_verbs ?q = 7" by (simp only: cnt)
  have filled: "sprintf_d other ?q [k, k + 1, k + 2, k + 3, k + 4, k + 5, k + 6] = delta_text k rest_q" for k
    unfolding delta_text_def by (simp only: fmt)
  have "[k..<k + 7] = [k, k + 1, k + 2, k + 3, k + 4, k + 5, k + 6]" for k by (simp add: upt_conv_Cons)
  then have "sprintf_d other ?q [length vals + 1..<length vals + 1 + 7] = delta_text (length vals + 1) rest_q"
    by (simp only: filled)
  then show ?thesis
    using fillInParameters_eq [OF count params(1), of other vals]
    unfolding Finalize_def Let_def qf params(2) by (simp only: append_assoc)
qed

lemma str_join_set: "set (str_join sep ss) \<subseteq> set sep \<union> \<Union> (set ` set ss)"
  by (induction sep ss rule: str_join.induct) auto

definition no_verb :: "string \<Rightarrow> bool" where
  "no_verb s \<longleftrightarrow> CHR ''%'' \<notin> set s"

lemma no_verb_tail:
  assumes "no_verb (sanitize [dataSchema, flt_metric filt])" "no_verb (sanitize [dataSeriesSchema, flt_metric filt])"
    and "no_verb (flt_startTime filt)" "no_verb (flt_endTime filt)" and "\<forall>s \<in> set cases. no_verb s"
  shows "CHR ''%'' \<notin> set (nl @ series_query_tail sanitize filt (str_join '' AND '' cases))"
proof -
  have "CHR ''%'' \<notin> set (str_join '' AND '' cases)"
    using str_join_set [of "'' AND ''" cases] assms(5) by (auto simp: no_verb_def)
  with assms(1-4) show ?thesis by (simp add: series_query_tail_def nl_def quoted_def no_verb_def)
qed

text \<open>
  the pushdown of \<open>delta\<close>.  With the extension installed, hints whose range, step and bounds
  are in range, and a path whose grandparent is a call of \<open>delta\<close> outside any subquery, the query
  refers to seven new parameters, numbered after those of the label clauses and bound in the order
  of the text: start, end and step of the series of times, then the extended start, end, step and
  range of \<open>prom_delta\<close>, all with the values of the hints.  It does not panic provided an instant
  query starts where it ends.
\<close>
theorem delta_pushdown_query:
  assumes "no_verb (sanitize [dataSchema, flt_metric filt])" "no_verb (sanitize [dataSeriesSchema, flt_metric filt])"
    and "no_verb (flt_startTime filt)" "no_verb (flt_endTime filt)" and "\<forall>s \<in> set cases. no_verb s"
    and "2 \<le> length path" "path ! (length path - 2) = Call ''delta''" "\<not> hasSubquery path"
    and "in_int64 (h_Start h + h_Range h)" "in_int64 (h_Step h * 1000000)" "in_int64 (h_Range h * 1000000)"
    and "h_Step h > 0 \<or> h_Start h + h_Range h = h_End h"
  shows "buildTimeseriesByLabelClausesQuery sanitize other True filt cases vals (Some h) path =
    Return (Inr (delta_text (length vals + 1) (nl @ series_query_tail sanitize filt (str_join '' AND '' cases)),
      vals @ [ArgTime (model_time (h_Start h + h_Range h)), ArgTime (model_time (h_End h)),
              ArgDuration (if h_Step h > 0 then h_Step h * 1000000 else 1000000000),
              ArgTime (model_time (h_Start h)), ArgTime (model_time (h_End h)),
              ArgInt (if h_Step h > 0 then h_Step h else 1000), ArgInt (h_Range h)],
      Some (Call ''delta'')))"
proof -
  let ?rest = "nl @ series_query_tail sanitize filt (str_join '' AND '' cases)"
  have quot: "go_quot (x * 1000000) 1000000 = x" for x by (auto simp: go_quot_def Let_def)
  obtain qf where qf: "delta_finalizer ?rest vals h = Return qf"
    using assms(9,12) by (simp add: delta_finalizer_def Let_def wrap64_id)
  then have "qf_timeParams qf @ qf_valueParams qf =
    [ArgTime (model_time (h_Start h + h_Range h)), ArgTime (model_time (h_End h)),
     ArgDuration (if h_Step h > 0 then h_Step h * 1000000 else 1000000000),
     ArgTime (model_time (h_Start h)), ArgTime (model_time (h_End h)),
     ArgInt (if h_Step h > 0 then h_Step h else 1000), ArgInt (h_Range h)]"
    using assms(9-11) quot [of "h_Step h"] quot [of 1000]
    by (auto simp: delta_finalizer_def Let_def wrap64_id quot split: if_splits)
  with Finalize_delta [OF no_verb_tail [OF assms(1-5)] qf, of other] assms(6-8) qf show ?thesis
    by (simp add: buildTimeseriesByLabelClausesQuery_def getQueryFinalizer_def Let_def)
qed

theorem delta_pushdown_query_witness:
  "\<exists>txt. buildTimeseriesByLabelClausesQuery (\<lambda>is. str_join ''.'' is) (\<lambda>s ns. s) True
      \<lparr>flt_metric = ''cpu'', flt_startTime = ''a'', flt_endTime = ''b''\<rparr> [''c''] [ArgString ''x''] 
      (Some \<lparr>h_Start = 1000, h_End = 61000, h_Step = 0, h_Range = 60000\<rparr>) [Call ''delta'', OtherNode 0] =
    Return (Inr (txt, [ArgString ''x'', ArgTime 61000000000, ArgTime 61000000000, ArgDuration 1000000000,
      ArgTime 1000000000, ArgTime 61000000000, ArgInt 1000, ArgInt 60000], Some (Call ''delta'')))"
  by (subst delta_pushdown_query)
    (auto simp: no_verb_def dataSchema_def dataSeriesSchema_def in_int64_def model_time_def)

lemma count_verbs_append: "count_verbs a + count_verbs b \<le> count_verbs (a @ b)"
proof (induction a rule: count_verbs.induct, goal_cases)
  case (3 v)
  then show ?case by (cases b) (auto simp: count_verbs_skip)
qed auto

text \<open>
  A table name with a percent sign is not data to the final formatting.  When the quoted table
  name contains \<open>%d\<close> and no function is pushed down, the query is refused with an argument count
  error, since the finished text is passed through \<open>fmt.Sprintf\<close> once more.
\<close>
theorem percent_table_refused:
  assumes "0 < count_verbs (sanitize [dataSchema, flt_metric filt])"
  shows "\<exists>n > 0. buildTimeseriesByLabelClausesQuery sanitize other ext filt cases vals None path =
    Return (Inl (ErrMsg (invalid_args_msg n 0)))"
proof -
  let ?rest = "nl @ series_query_tail sanitize filt (str_join '' AND '' cases)"
  let ?q = "''SELECT s.labels, '' @ qf_timeClause (default_finalizer ?rest vals) @ '', '' @
    qf_valueClause (default_finalizer ?rest vals) @ ?rest"
  obtain pre post where "?q = pre @ sanitize [dataSchema, flt_metric filt] @ post"
  proof
    show "?q = (''SELECT s.labels, '' @ qf_timeClause (default_finalizer ?rest vals) @ '', '' @
      qf_valueClause (default_finalizer ?rest vals) @ nl @ ''FROM '') @ sanitize [dataSchema, flt_metric filt] @
      '' m'' @ nl @ ''INNER JOIN '' @ sanitize [dataSeriesSchema, flt_metric filt] @ '' s'' @ nl @
      ''ON m.series_id = s.id'' @ nl @ ''WHERE '' @ str_join '' AND '' cases @ nl @
      ''AND time >= '' @ quoted (flt_startTime filt) @ nl @
      ''AND time <= '' @ quoted (flt_endTime filt) @ nl @ ''GROUP BY s.id''"
      by (simp only: series_query_tail_def append_assoc)
  qed
  then have "0 < count_verbs ?q"
    using assms count_verbs_append [of pre "sanitize [dataSchema, flt_metric filt] @ post"]
      count_verbs_append [of "sanitize [dataSchema, flt_metric filt]" post] by (simp del: append_assoc)
  moreover have "buildTimeseriesByLabelClausesQuery sanitize other ext filt cases vals None path =
    Return (Inl (ErrMsg (invalid_args_msg (count_verbs ?q) 0)))" if "0 < count_verbs ?q"
    using that unfolding buildTimeseriesByLabelClausesQuery_def getQueryFinalizer_def Finalize_def fillInParameters_def
    by (simp add: Let_def default_finalizer_def)
  ultimately show ?thesis by blast
qed

theorem percent_table_refused_witness:
  "\<exists>n > 0. buildTimeseriesByLabelClausesQuery (\<lambda>is. str_join ''.'' is) (\<lambda>s ns. s) False
      \<lparr>flt_metric = ''load%d'', flt_startTime = ''a'', flt_endTime = ''b''\<rparr> [''c''] [] None [] =
    Return (Inl (ErrMsg (invalid_args_msg n 0)))"
  by (rule percent_table_refused) (simp add: dataSchema_def)

end
