(* ===== verification/Promql_Value.thy ===== *)
theory Promql_Value
  imports Go_Float Prom_Labels Query_Builder
begin

text \<open>
  The values of PromQL, \<open>pkg/promql/value.go\<close>: vectors, matrices, scalars and strings, query
  results, and the iterator that presents a computed series as a stored one.

  \<open>hash\<close> is \<open>labels.Labels.Hash\<close>, \<open>showLabels\<close> its method \<open>String\<close> and \<open>compareLabels\<close> the function
  \<open>labels.Compare\<close> of the Prometheus library.
\<close>


section \<open>Values\<close>

record point =
  pt_T :: int
  pt_V :: float64

record psample =
  sm_Point :: point
  sm_Metric :: "label list"

record series =
  sr_Metric :: "label list"
  sr_Points :: "point list"

type_synonym vector = "psample list"
type_synonym matrix = "series list"

datatype pvalue =
    VMatrix matrix
  | VVector vector
  | VScalar int float64
  | VString int string
  | VSeriesList "label list list"
  | VLabels "string list"

text \<open>The last two are the values that the API layer wraps in a result, with \<open>ValueTypeNone\<close>.\<close>

definition value_Type :: "pvalue \<Rightarrow> string" where
  "value_Type v =
     (case v of VMatrix _ \<Rightarrow> ''matrix'' | VVector _ \<Rightarrow> ''vector'' | VScalar _ _ \<Rightarrow> ''scalar''
      | VString _ _ \<Rightarrow> ''string'' | VSeriesList _ \<Rightarrow> ''none'' | VLabels _ \<Rightarrow> ''none'')"


section \<open>Printing\<close>

definition newline :: string where "newline = [CHR 0x0A]"

definition point_String :: "point \<Rightarrow> string" where
  "point_String p = AppendFloat (pt_V p) CHR ''f'' @ '' @['' @ show_int (pt_T p) @ '']''"

definition scalar_String :: "int \<Rightarrow> float64 \<Rightarrow> string" where
  "scalar_String t v = ''scalar: '' @ AppendFloat v CHR ''f'' @ '' @['' @ show_int t @ '']''"

definition series_String :: "(label list \<Rightarrow> string) \<Rightarrow> series \<Rightarrow> string" where
  "series_String showLabels s =
     showLabels (sr_Metric s) @ '' =>'' @ newline @ str_join newline (map point_String (sr_Points s))"

definition sample_String :: "(label list \<Rightarrow> string) \<Rightarrow> psample \<Rightarrow> string" where
  "sample_String showLabels s = showLabels (sm_Metric s) @ '' => '' @ point_String (sm_Point s)"

definition vector_String :: "(label list \<Rightarrow> string) \<Rightarrow> vector \<Rightarrow> string" where
  "vector_String showLabels vec = str_join newline (map (sample_String showLabels) vec)"

definition matrix_String :: "(label list \<Rightarrow> string) \<Rightarrow> matrix \<Rightarrow> string" where
  "matrix_String showLabels m = str_join newline (map (series_String showLabels) m)"

definition value_String :: "(label list \<Rightarrow> string) \<Rightarrow> pvalue \<Rightarrow> string" where
  "value_String showLabels v =
     (case v of
        VMatrix m \<Rightarrow> matrix_String showLabels m
      | VVector vec \<Rightarrow> vector_String showLabels vec
      | VScalar t x \<Rightarrow> scalar_String t x
      | VString t s \<Rightarrow> s
      | VSeriesList ls \<Rightarrow> concat (map showLabels ls)
      | VLabels ls \<Rightarrow> str_join newline ls)"


section \<open>Duplicate label sets\<close>

text \<open>The loops of the two \<open>ContainsSameLabelset\<close>, with the map of the hashes seen.\<close>

fun same_labelset_loop :: "(label list \<Rightarrow> 64 word) \<Rightarrow> 64 word set \<Rightarrow> label list list \<Rightarrow> bool" where
  "same_labelset_loop hash seen [] = False"
| "same_labelset_loop hash seen (l # ls) =
     (if hash l \<in> seen then True else same_labelset_loop hash (insert (hash l) seen) ls)"

definition vector_ContainsSameLabelset :: "(label list \<Rightarrow> 64 word) \<Rightarrow> vector \<Rightarrow> bool" where
  "vector_ContainsSameLabelset hash vec = same_labelset_loop hash {} (map sm_Metric vec)"

definition matrix_ContainsSameLabelset :: "(label list \<Rightarrow> 64 word) \<Rightarrow> matrix \<Rightarrow> bool" where
  "matrix_ContainsSameLabelset hash m = same_labelset_loop hash {} (map sr_Metric m)"

lemma same_labelset_loop_iff:
  "same_labelset_loop hash seen ls \<longleftrightarrow> \<not> distinct (map hash ls) \<or> hash ` set ls \<inter> seen \<noteq> {}"
  by (induction ls arbitrary: seen) auto


section \<open>Matrices\<close>

definition TotalSamples :: "matrix \<Rightarrow> nat" where
  "TotalSamples m = fold (\<lambda>s n. n + length (sr_Points s)) m 0"

definition matrix_Len :: "matrix \<Rightarrow> nat" where
  "matrix_Len m = length m"

definition matrix_Less :: "(label list \<Rightarrow> label list \<Rightarrow> int) \<Rightarrow> matrix \<Rightarrow> nat \<Rightarrow> nat \<Rightarrow> bool" where
  "matrix_Less compareLabels m i j \<longleftrightarrow> compareLabels (sr_Metric (m ! i)) (sr_Metric (m ! j)) < 0"

definition matrix_Swap :: "matrix \<Rightarrow> nat \<Rightarrow> nat \<Rightarrow> matrix" where
  "matrix_Swap m i j = m[i := m ! j, j := m ! i]"


section \<open>Results\<close>

record presult =
  res_Err :: "go_error option"
  res_Value :: "pvalue option"
  res_Warnings :: "string list"

definition result_Vector :: "presult \<Rightarrow> vector result" where
  "result_Vector r =
     (case res_Err r of
        Some e \<Rightarrow> Inl e
      | None \<Rightarrow> (case res_Value r of Some (VVector v) \<Rightarrow> Inr v
                 | _ \<Rightarrow> Inl (ErrMsg ''query result is not a Vector'')))"

definition result_Matrix :: "presult \<Rightarrow> matrix result" where
  "result_Matrix r =
     (case res_Err r of
        Some e \<Rightarrow> Inl e
      | None \<Rightarrow> (case res_Value r of Some (VMatrix v) \<Rightarrow> Inr v
                 | _ \<Rightarrow> Inl (ErrMsg ''query result is not a range Vector'')))"

definition result_Scalar :: "presult \<Rightarrow> (int \<times> float64) result" where
  "result_Scalar r =
     (case res_Err r of
        Some e \<Rightarrow> Inl e
      | None \<Rightarrow> (case res_Value r of Some (VScalar t v) \<Rightarrow> Inr (t, v)
                 | _ \<Rightarrow> Inl (ErrMsg ''query result is not a Scalar'')))"

definition result_String :: "(label list \<Rightarrow> string) \<Rightarrow> (go_error \<Rightarrow> string) \<Rightarrow> presult \<Rightarrow> string" where
  "result_String showLabels errText r =
     (case res_Err r of
        Some e \<Rightarrow> errText e
      | None \<Rightarrow> (case res_Value r of None \<Rightarrow> '''' | Some v \<Rightarrow> value_String showLabels v))"


section \<open>The iterator over a computed series\<close>

record storageSeriesIterator =
  ssi_points :: "point list"
  ssi_curr :: int

definition newStorageSeriesIterator :: "series \<Rightarrow> storageSeriesIterator" where
  "newStorageSeriesIterator s = \<lparr>ssi_points = sr_Points s, ssi_curr = -1\<rparr>"

definition storage_Labels :: "series \<Rightarrow> label list" where
  "storage_Labels s = sr_Metric s"

function ssi_seek_loop :: "int \<Rightarrow> storageSeriesIterator \<Rightarrow> nat \<Rightarrow> storageSeriesIterator \<times> bool" where
  "ssi_seek_loop t ssi i =
     (if i < length (ssi_points ssi) then
        (if pt_T (ssi_points ssi ! i) \<ge> t then (ssi\<lparr>ssi_curr := int i\<rparr>, True)
         else ssi_seek_loop t ssi (i + 1))
      else (ssi\<lparr>ssi_curr := int (length (ssi_points ssi)) - 1\<rparr>, False))"
  by pat_completeness auto
termination
  by (relation "measure (\<lambda>(t, ssi, i). length (ssi_points ssi) - i)") auto

declare ssi_seek_loop.simps [simp del]

definition ssi_Seek :: "int \<Rightarrow> storageSeriesIterator \<Rightarrow> storageSeriesIterator \<times> bool" where
  "ssi_Seek t ssi = ssi_seek_loop t ssi (nat (ssi_curr ssi))"

definition ssi_At :: "storageSeriesIterator \<Rightarrow> (int \<times> float64) outcome" where
  "ssi_At ssi =
     (if 0 \<le> ssi_curr ssi \<and> ssi_curr ssi < int (length (ssi_points ssi))
      then Return (pt_T (ssi_points ssi ! nat (ssi_curr ssi)), pt_V (ssi_points ssi ! nat (ssi_curr ssi)))
      else Panic ''index out of range'')"

definition ssi_Next :: "storageSeriesIterator \<Rightarrow> storageSeriesIterator \<times> bool" where
  "ssi_Next ssi =
     (let c = ssi_curr ssi + 1 in (ssi\<lparr>ssi_curr := c\<rparr>, c < int (length (ssi_points ssi))))"

definition ssi_Err :: "storageSeriesIterator \<Rightarrow> go_error option" where
  "ssi_Err ssi = None"

text \<open>The seek finds the first point at or after \<open>t\<close> from the current position on.\<close>

lemma ssi_seek_loop_spec:
  "ssi_seek_loop t ssi i =
     (case filter (\<lambda>j. t \<le> pt_T (ssi_points ssi ! j)) [i..<length (ssi_points ssi)] of
        [] \<Rightarrow> (ssi\<lparr>ssi_curr := int (length (ssi_points ssi)) - 1\<rparr>, False)
      | j # _ \<Rightarrow> (ssi\<lparr>ssi_curr := int j\<rparr>, True))"
proof (induction t ssi i rule: ssi_seek_loop.induct)
  case (1 t ssi i)
  show ?case
    by (subst ssi_seek_loop.simps) (use 1 in \<open>auto simp: upt_conv_Cons\<close>)
qed

end
