(* ===== verification/Json_Escape.thy ===== *)
theory Json_Escape
  imports Promql_Value
begin

text \<open>
  JSON string escaping, \<open>pkg/api/marshal.go\<close>, and the writer it writes through.

  A writer is a state \<open>w\<close> with \<open>wr w s\<close>, its new state and the error, if any, of writing \<open>s\<close>.
  \<open>errorWrapper\<close> remembers the first error and then writes nothing more.  The first section is the
  part of package \<open>unicode/utf8\<close> that the escaping uses; a rune is a number.
\<close>


section \<open>UTF-8\<close>

definition byte_in :: "nat \<Rightarrow> nat \<Rightarrow> char \<Rightarrow> bool" where
  "byte_in lo hi b \<longleftrightarrow> lo \<le> of_char b \<and> (of_char b :: nat) \<le> hi"

definition tail_bits :: "char \<Rightarrow> nat" where
  "tail_bits b = of_char b - 0x80"

definition rune_error :: nat where "rune_error = 0xFFFD"

text \<open>\<open>utf8.DecodeRuneInString\<close>: the rune and the number of bytes it takes, one for an invalid byte.\<close>

definition decode_rune :: "string \<Rightarrow> nat \<times> nat" where
  "decode_rune s =
     (case s of
        [] \<Rightarrow> (rune_error, 0)
      | b0 # r \<Rightarrow>
          let x = (of_char b0 :: nat) in
          if x < 0x80 then (x, 1)
          else if 0xC2 \<le> x \<and> x \<le> 0xDF then
            (case r of
               b1 # _ \<Rightarrow>
                 if byte_in 0x80 0xBF b1 then ((x - 0xC0) * 64 + tail_bits b1, 2) else (rune_error, 1)
             | _ \<Rightarrow> (rune_error, 1))
          else if 0xE0 \<le> x \<and> x \<le> 0xEF then
            (case r of
               b1 # b2 # _ \<Rightarrow>
                 if byte_in (if x = 0xE0 then 0xA0 else 0x80) (if x = 0xED then 0x9F else 0xBF) b1 \<and>
                    byte_in 0x80 0xBF b2
                 then ((x - 0xE0) * 4096 + tail_bits b1 * 64 + tail_bits b2, 3) else (rune_error, 1)
             | _ \<Rightarrow> (rune_error, 1))
          else if 0xF0 \<le> x \<and> x \<le> 0xF4 then
            (case r of
               b1 # b2 # b3 # _ \<Rightarrow>
                 if byte_in (if x = 0xF0 then 0x90 else 0x80) (if x = 0xF4 then 0x8F else 0xBF) b1 \<and>
                    byte_in 0x80 0xBF b2 \<and> byte_in 0x80 0xBF b3
                 then ((x - 0xF0) * 262144 + tail_bits b1 * 4096 + tail_bits b2 * 64 + tail_bits b3, 4)
                 else (rune_error, 1)
             | _ \<Rightarrow> (rune_error, 1))
          else (rune_error, 1))"

lemma decode_rune_size: "s \<noteq> [] \<Longrightarrow> 0 < snd (decode_rune s) \<and> snd (decode_rune s) \<le> length s"
  by (simp add: decode_rune_def Let_def split: list.splits if_splits)

lemma decode_rune_sizeD: "decode_rune (b # r) = (c, n) \<Longrightarrow> 0 < n \<and> n \<le> Suc (length r)"
  using decode_rune_size [of "b # r"] by simp


section \<open>The writer\<close>

record 'w errorWrapper =
  ew_err :: "go_error option"
  ew_writer :: 'w
  ew_jsonScratch :: string
  ew_floatScratch :: string

type_synonym 'w write_fun = "'w \<Rightarrow> string \<Rightarrow> 'w \<times> go_error option"

definition new_errorWrapper :: "'w \<Rightarrow> 'w errorWrapper" where
  "new_errorWrapper w =
     \<lparr>ew_err = None, ew_writer = w, ew_jsonScratch = replicate 64 (CHR 0x00), ew_floatScratch = []\<rparr>"

fun write_strings_loop :: "'w write_fun \<Rightarrow> 'w errorWrapper \<Rightarrow> string list \<Rightarrow> 'w errorWrapper" where
  "write_strings_loop wr ew [] = ew"
| "write_strings_loop wr ew (s # ss) =
     (case wr (ew_writer ew) s of
        (w, None) \<Rightarrow> write_strings_loop wr (ew\<lparr>ew_writer := w\<rparr>) ss
      | (w, Some e) \<Rightarrow> ew\<lparr>ew_writer := w, ew_err := Some e\<rparr>)"

definition WriteStrings :: "'w write_fun \<Rightarrow> string list \<Rightarrow> 'w errorWrapper \<Rightarrow> 'w errorWrapper" where
  "WriteStrings wr ss ew = (if ew_err ew \<noteq> None then ew else write_strings_loop wr ew ss)"

definition WriteBytes :: "'w write_fun \<Rightarrow> string \<Rightarrow> 'w errorWrapper \<Rightarrow> 'w errorWrapper" where
  "WriteBytes wr b ew =
     (if ew_err ew \<noteq> None then ew
      else case wr (ew_writer ew) b of
             (w, None) \<Rightarrow> ew\<lparr>ew_writer := w\<rparr>
           | (w, Some e) \<Rightarrow> ew\<lparr>ew_writer := w, ew_err := Some e\<rparr>)"


section \<open>Escaping\<close>

text \<open>The tables list the characters whose entry is true.\<close>

definition safe_table :: string where
  \<open>safe_table =
     '' !#$%&'' @ [CHR 0x27] @ ''()*+,-./'' @ ''0123456789'' @ '':;<=>?@'' @
     ''ABCDEFGHIJKLMNOPQRSTUVWXYZ'' @ ''[]^_'' @ [CHR 0x60] @ ''abcdefghijklmnopqrstuvwxyz'' @
     ''{|}~'' @ [CHR 0x7F]\<close>

definition html_safe_table :: string where
  \<open>html_safe_table =
     '' !#$%'' @ [CHR 0x27] @ ''()*+,-./'' @ ''0123456789'' @ '':;=?@'' @
     ''ABCDEFGHIJKLMNOPQRSTUVWXYZ'' @ ''[]^_'' @ [CHR 0x60] @ ''abcdefghijklmnopqrstuvwxyz'' @
     ''{|}~'' @ [CHR 0x7F]\<close>

definition safeSet :: "char \<Rightarrow> bool" where
  "safeSet b \<longleftrightarrow> b \<in> set safe_table"

definition htmlSafeSet :: "char \<Rightarrow> bool" where
  "htmlSafeSet b \<longleftrightarrow> b \<in> set html_safe_table"

definition hex :: string where "hex = ''0123456789abcdef''"

definition backslash :: char where "backslash = CHR 0x5C"
definition dquote :: char where "dquote = CHR 0x22"

definition write_escape :: "'w write_fun \<Rightarrow> char \<Rightarrow> 'w errorWrapper \<Rightarrow> 'w errorWrapper" where
  "write_escape wr b ew =
     (if b = backslash then WriteStrings wr [[backslash, backslash]] ew
      else if b = dquote then WriteStrings wr [[backslash, dquote]] ew
      else if b = CHR 0x0A then WriteStrings wr [[backslash, CHR ''n'']] ew
      else if b = CHR 0x0D then WriteStrings wr [[backslash, CHR ''r'']] ew
      else if b = CHR 0x09 then WriteStrings wr [[backslash, CHR ''t'']] ew
      else WriteBytes wr [hex ! (of_char b div 16), hex ! (of_char b mod 16)]
             (WriteStrings wr [backslash # ''u00''] ew))"

text \<open>The text \<open>s[start:i]\<close> that has been read and not yet written.\<close>

definition write_pending :: "'w write_fun \<Rightarrow> string \<Rightarrow> 'w errorWrapper \<Rightarrow> 'w errorWrapper" where
  "write_pending wr pending ew = (if pending \<noteq> [] then WriteStrings wr [pending] ew else ew)"

function escape_loop ::
  "'w write_fun \<Rightarrow> bool \<Rightarrow> string \<Rightarrow> string \<Rightarrow> 'w errorWrapper \<Rightarrow> 'w errorWrapper" where
  "escape_loop wr escapeHTML pending [] ew = write_pending wr pending ew"
| "escape_loop wr escapeHTML pending (b # r) ew =
     (if of_char b < (0x80 :: nat) then
        if htmlSafeSet b \<or> (\<not> escapeHTML \<and> safeSet b)
        then escape_loop wr escapeHTML (pending @ [b]) r ew
        else escape_loop wr escapeHTML [] r (write_escape wr b (write_pending wr pending ew))
      else case decode_rune (b # r) of (c, n) \<Rightarrow>
        if c = rune_error \<and> n = 1
        then escape_loop wr escapeHTML [] (drop n (b # r))
               (WriteStrings wr [backslash # ''ufffd''] (write_pending wr pending ew))
        else if c = 0x2028 \<or> c = 0x2029
        then escape_loop wr escapeHTML [] (drop n (b # r))
               (WriteBytes wr [hex ! (c mod 16)]
                 (WriteStrings wr [backslash # ''u202''] (write_pending wr pending ew)))
        else escape_loop wr escapeHTML (pending @ take n (b # r)) (drop n (b # r)) ew)"
  by pat_completeness auto
termination
  by (relation "measure (\<lambda>(wr, h, p, s, ew). length s)") (auto dest!: decode_rune_sizeD [OF sym])

definition WriteEscapedString :: "'w write_fun \<Rightarrow> string \<Rightarrow> bool \<Rightarrow> 'w errorWrapper \<Rightarrow> 'w errorWrapper" where
  "WriteEscapedString wr s escapeHTML ew =
     (if ew_err ew \<noteq> None then ew else escape_loop wr escapeHTML [] s ew)"


section \<open>The escaped text\<close>

definition escape_char :: "char \<Rightarrow> string" where
  "escape_char b =
     (if b = backslash then [backslash, backslash]
      else if b = dquote then [backslash, dquote]
      else if b = CHR 0x0A then [backslash, CHR ''n'']
      else if b = CHR 0x0D then [backslash, CHR ''r'']
      else if b = CHR 0x09 then [backslash, CHR ''t'']
      else backslash # ''u00'' @ [hex ! (of_char b div 16), hex ! (of_char b mod 16)])"

text \<open>The escaped form of a string, rune by rune, and the string with every invalid byte replaced by U+FFFD.\<close>

definition escape_rune :: "bool \<Rightarrow> char \<Rightarrow> string \<Rightarrow> string" where
  "escape_rune html b r =
     (if of_char b < (0x80 :: nat) then
        if htmlSafeSet b \<or> (\<not> html \<and> safeSet b) then [b] else escape_char b
      else case decode_rune (b # r) of (c, n) \<Rightarrow>
        if c = rune_error \<and> n = 1 then backslash # ''ufffd''
        else if c = 0x2028 \<or> c = 0x2029 then backslash # ''u202'' @ [hex ! (c mod 16)]
        else take n (b # r))"

function json_escape :: "bool \<Rightarrow> string \<Rightarrow> string" where
  "json_escape html [] = []"
| "json_escape html (b # r) =
     escape_rune html b r @ json_escape html (drop (snd (decode_rune (b # r))) (b # r))"
  by pat_completeness auto
termination
  by (relation "measure (\<lambda>(h, s). length s)")
    (auto intro: diff_less simp: Suc_diff_Suc diff_Suc_less decode_rune_size split: nat.splits)

function to_valid_utf8 :: "string \<Rightarrow> string" where
  "to_valid_utf8 [] = []"
| "to_valid_utf8 (b # r) =
     (case decode_rune (b # r) of (c, n) \<Rightarrow>
        (if c = rune_error \<and> n = 1 then [CHR 0xEF, CHR 0xBF, CHR 0xBD] else take n (b # r)) @
        to_valid_utf8 (drop n (b # r)))"
  by pat_completeness auto
termination
  by (relation "measure length") (auto dest!: decode_rune_sizeD [OF sym])


section \<open>What the writers write\<close>

text \<open>
  \<open>emits wr F t\<close>: \<open>F\<close> writes the text \<open>t\<close>, in one or more pieces, and stops at the first error.
\<close>

definition ew_core :: "'w errorWrapper \<Rightarrow> go_error option \<times> 'w" where
  "ew_core ew = (ew_err ew, ew_writer ew)"

definition emits :: "'w write_fun \<Rightarrow> ('w errorWrapper \<Rightarrow> 'w errorWrapper) \<Rightarrow> string \<Rightarrow> bool" where
  "emits wr F t \<longleftrightarrow> (\<exists>cs. concat cs = t \<and> (\<forall>ew. ew_core (F ew) = ew_core (fold (WriteBytes wr) cs ew)))"

lemma WriteBytes_err: "ew_err ew \<noteq> None \<Longrightarrow> WriteBytes wr s ew = ew"
  by (simp add: WriteBytes_def)

lemma WriteBytes_step:
  "ew_err ew = None \<Longrightarrow> wr (ew_writer ew) s = (w, e) \<Longrightarrow>
   WriteBytes wr s ew = (case e of None \<Rightarrow> ew\<lparr>ew_writer := w\<rparr> | Some x \<Rightarrow> ew\<lparr>ew_writer := w, ew_err := Some x\<rparr>)"
  by (simp add: WriteBytes_def)

lemma fold_WriteBytes_err: "ew_err ew \<noteq> None \<Longrightarrow> fold (WriteBytes wr) cs ew = ew"
  by (induction cs) (simp_all add: WriteBytes_err)

lemma WriteStrings_fold: "WriteStrings wr ss ew = fold (WriteBytes wr) ss ew"
proof (induction ss arbitrary: ew)
  case (Cons s ss)
  show ?case
  proof (cases "ew_err ew")
    case None
    obtain w e where w: "wr (ew_writer ew) s = (w, e)" by fastforce
    show ?thesis
      using None Cons.IH [of "ew\<lparr>ew_writer := w\<rparr>"]
      by (cases e) (simp_all add: WriteStrings_def WriteBytes_step [of ew wr s w e, OF None w] w fold_WriteBytes_err)
  qed (simp add: WriteStrings_def fold_WriteBytes_err WriteBytes_err)
qed (simp add: WriteStrings_def)

lemma core_WriteBytes_cong:
  assumes "ew_core a = ew_core b" shows "ew_core (WriteBytes wr s a) = ew_core (WriteBytes wr s b)"
proof -
  have ab: "ew_err a = ew_err b" "ew_writer a = ew_writer b" using assms by (simp_all add: ew_core_def)
  show ?thesis unfolding WriteBytes_def ab using assms
    by (simp add: ew_core_def split: prod.split option.split)
qed

lemma core_fold_cong:
  "ew_core a = ew_core b \<Longrightarrow> ew_core (fold (WriteBytes wr) cs a) = ew_core (fold (WriteBytes wr) cs b)"
proof (induction cs arbitrary: a b)
  case (Cons s cs)
  show ?case unfolding fold_simps by (rule Cons.IH [OF core_WriteBytes_cong [OF Cons.prems]])
qed simp

lemma jsonScratch_WriteBytes [simp]: "ew_jsonScratch (WriteBytes wr s ew) = ew_jsonScratch ew"
  by (simp add: WriteBytes_def split: prod.split option.split)

lemma jsonScratch_fold [simp]: "ew_jsonScratch (fold (WriteBytes wr) cs ew) = ew_jsonScratch ew"
  by (induction cs arbitrary: ew) simp_all

lemma jsonScratch_WriteStrings [simp]: "ew_jsonScratch (WriteStrings wr ss ew) = ew_jsonScratch ew"
  by (simp add: WriteStrings_fold)

lemma emits_id: "emits wr (\<lambda>ew. ew) []"
  unfolding emits_def by (rule exI [of _ "[]"]) simp

lemma emits_WriteStrings: "emits wr (WriteStrings wr ss) (concat ss)"
  unfolding emits_def by (rule exI [of _ ss]) (simp add: WriteStrings_fold)

lemma emits_WriteString: "emits wr (WriteStrings wr [s]) s"
  using emits_WriteStrings [of wr "[s]"] by simp

lemma emits_WriteBytes: "emits wr (WriteBytes wr s) s"
  unfolding emits_def by (rule exI [of _ "[s]"]) simp

lemma emits_comp:
  assumes "emits wr F s" and "emits wr G t" shows "emits wr (\<lambda>ew. G (F ew)) (s @ t)"
proof -
  obtain cs ds where c: "concat cs = s" "\<And>ew. ew_core (F ew) = ew_core (fold (WriteBytes wr) cs ew)"
    and d: "concat ds = t" "\<And>ew. ew_core (G ew) = ew_core (fold (WriteBytes wr) ds ew)"
    using assms unfolding emits_def by blast
  have "ew_core (G (F ew)) = ew_core (fold (WriteBytes wr) (cs @ ds) ew)" for ew
    using d(2) [of "F ew"] core_fold_cong [OF c(2)] by simp
  with c(1) d(1) show ?thesis unfolding emits_def by (intro exI [of _ "cs @ ds"]) simp
qed

lemma emits_comp': "emits wr F s \<Longrightarrow> emits wr G t \<Longrightarrow> u = s @ t \<Longrightarrow> emits wr (\<lambda>ew. G (F ew)) u"
  by (simp add: emits_comp)

lemma emits_write_pending: "emits wr (write_pending wr p) p"
  by (cases "p = []") (simp_all add: write_pending_def [abs_def] emits_id emits_WriteString)

lemma emits_write_escape: "emits wr (write_escape wr b) (escape_char b)"
  unfolding write_escape_def [abs_def] escape_char_def
  by (auto intro: emits_WriteString emits_comp' [OF emits_WriteString emits_WriteBytes])

lemma json_escape_Cons:
  assumes "decode_rune (b # r) = (c, n)"
  shows "json_escape html (b # r) = escape_rune html b r @ json_escape html (drop n (b # r))"
  using assms by simp

lemma decode_rune_ascii: "of_char b < (0x80 :: nat) \<Longrightarrow> decode_rune (b # r) = (of_char b, 1)"
  by (simp add: decode_rune_def Let_def)

lemma emits_escape_loop: "emits wr (escape_loop wr html p s) (p @ json_escape html s)"
proof (induction s arbitrary: p rule: measure_induct_rule [of length])
  case (less s)
  show ?case
  proof (cases s)
    case Nil
    then show ?thesis by (simp add: escape_loop.simps(1) [abs_def] emits_write_pending)
  next
    case (Cons b r)
    obtain c n where cn: "decode_rune (b # r) = (c, n)" by fastforce
    have "length (drop n (b # r)) < length s" using decode_rune_sizeD [OF cn] Cons by auto
    note IH = less.IH [OF this]
    show ?thesis
    proof (cases "of_char b < (0x80 :: nat)")
      case True
      with cn have n: "n = 1" "c = of_char b" by (simp_all add: decode_rune_ascii)
      note IH' = IH [unfolded n, simplified]
      have safe: "emits wr (escape_loop wr html (p @ [b]) r) (p @ [b] @ json_escape html r)"
        using IH' [of "p @ [b]"] by simp
      have esc: "emits wr (\<lambda>ew. escape_loop wr html [] r (write_escape wr b (write_pending wr p ew)))
          (p @ escape_char b @ json_escape html r)"
        using emits_comp [OF emits_comp [OF emits_write_pending emits_write_escape] IH' [of "[]"]] by simp
      show ?thesis
        unfolding Cons json_escape_Cons [OF cn] n escape_rune_def using True safe esc
        by (cases "htmlSafeSet b \<or> (\<not> html \<and> safeSet b)") (simp_all only: escape_loop.simps(2) [abs_def] if_True if_False, simp_all)
    next
      case False
      note plain = IH [of "p @ take n (b # r)"]
      have bad: "emits wr (\<lambda>ew. escape_loop wr html [] (drop n (b # r))
            (WriteStrings wr [t] (write_pending wr p ew))) (p @ t @ json_escape html (drop n (b # r)))" for t
        using emits_comp [OF emits_comp [OF emits_write_pending emits_WriteString] IH [of "[]"]] by simp
      have sep: "emits wr (\<lambda>ew. escape_loop wr html [] (drop n (b # r))
            (WriteBytes wr u (WriteStrings wr [t] (write_pending wr p ew))))
          (p @ (t @ u) @ json_escape html (drop n (b # r)))" for t u
        using emits_comp [OF emits_comp [OF emits_comp [OF emits_write_pending emits_WriteString] emits_WriteBytes] IH [of "[]"]]
        by simp
      show ?thesis
        unfolding Cons json_escape_Cons [OF cn] escape_rune_def escape_loop.simps(2) [abs_def] cn prod.case
        using False plain bad [of "backslash # ''ufffd''"] sep [of "[hex ! (c mod 16)]" "backslash # ''u202''"]
        unfolding if_not_P [OF False]
        by (cases "c = rune_error \<and> n = 1"; cases "c = 0x2028 \<or> c = 0x2029")
          (simp_all only: if_True if_False append.assoc append_Cons append_Nil simp_thms)
    qed
  qed
qed

lemma emits_WriteEscapedString: "emits wr (WriteEscapedString wr s html) (json_escape html s)"
proof -
  obtain cs where cs: "concat cs = json_escape html s"
    "\<And>ew. ew_core (escape_loop wr html [] s ew) = ew_core (fold (WriteBytes wr) cs ew)"
    using emits_escape_loop [of wr html "[]" s] unfolding emits_def by auto
  have "ew_core (WriteEscapedString wr s html ew) = ew_core (fold (WriteBytes wr) cs ew)" for ew
    by (cases "ew_err ew = None") (simp_all add: WriteEscapedString_def cs(2) fold_WriteBytes_err)
  with cs(1) show ?thesis unfolding emits_def by blast
qed

lemma jsonScratch_write_pending [simp]: "ew_jsonScratch (write_pending wr p ew) = ew_jsonScratch ew"
  by (simp add: write_pending_def)

lemma jsonScratch_write_escape [simp]: "ew_jsonScratch (write_escape wr b ew) = ew_jsonScratch ew"
  by (simp add: write_escape_def)

lemma jsonScratch_escape_loop [simp]: "ew_jsonScratch (escape_loop wr html p s ew) = ew_jsonScratch ew"
proof (induction s arbitrary: p ew rule: measure_induct_rule [of length])
  case (less s)
  show ?case
  proof (cases s)
    case (Cons b r)
    obtain c n where cn: "decode_rune (b # r) = (c, n)" by fastforce
    have "length (drop n (b # r)) < length s" using decode_rune_sizeD [OF cn] Cons by auto
    note IH = less.IH [OF this]
    show ?thesis
    proof (cases "of_char b < (0x80 :: nat)")
      case True
      with cn have "n = 1" by (simp add: decode_rune_ascii)
      with True IH show ?thesis unfolding Cons by simp
    next
      case False
      then show ?thesis unfolding Cons escape_loop.simps(2) cn prod.case
        by (simp only: IH if_False jsonScratch_WriteStrings jsonScratch_WriteBytes jsonScratch_write_pending if_cancel
            if_distrib [of ew_jsonScratch])
    qed
  qed simp
qed

lemma jsonScratch_WriteEscapedString [simp]:
  "ew_jsonScratch (WriteEscapedString wr s html ew) = ew_jsonScratch ew"
  by (simp add: WriteEscapedString_def)


section \<open>Reading the escaped text back\<close>

text \<open>A reader of JSON strings, from after the opening quote: the string and the text after the closing quote.\<close>

definition unhex :: "char \<Rightarrow> nat option" where
  "unhex c =
     (let x = of_char c in
      if 48 \<le> x \<and> x \<le> 57 then Some (x - 48) else if 97 \<le> x \<and> x \<le> 102 then Some (x - 87)
      else if 65 \<le> x \<and> x \<le> 70 then Some (x - 55) else None)"

definition hex4 :: "string \<Rightarrow> nat option" where
  "hex4 s =
     (case s of
        a # b # c # d # _ \<Rightarrow>
          (case (unhex a, unhex b, unhex c, unhex d) of
             (Some w, Some x, Some y, Some z) \<Rightarrow> Some (((w * 16 + x) * 16 + y) * 16 + z)
           | _ \<Rightarrow> None)
      | _ \<Rightarrow> None)"

definition encode_rune :: "nat \<Rightarrow> string" where
  "encode_rune n =
     (if n < 0x80 then [char_of n]
      else if n < 0x800 then [char_of (0xC0 + n div 64), char_of (0x80 + n mod 64)]
      else [char_of (0xE0 + n div 4096), char_of (0x80 + n div 64 mod 64), char_of (0x80 + n mod 64)])"

definition simple_escape :: "char \<Rightarrow> char option" where
  "simple_escape c =
     (if c = backslash \<or> c = dquote then Some c
      else if c = CHR ''n'' then Some (CHR 0x0A) else if c = CHR ''r'' then Some (CHR 0x0D)
      else if c = CHR ''t'' then Some (CHR 0x09) else None)"

definition prepend :: "string \<Rightarrow> (string \<times> string) option \<Rightarrow> (string \<times> string) option" where
  "prepend p = map_option (apfst ((@) p))"

function json_unquote :: "string \<Rightarrow> (string \<times> string) option" where
  "json_unquote [] = None"
| "json_unquote (b # r) =
     (if b = dquote then Some ([], r)
      else if b = backslash then
        (case r of
           [] \<Rightarrow> None
         | c # r' \<Rightarrow>
             if c = CHR ''u''
             then case hex4 r' of None \<Rightarrow> None | Some n \<Rightarrow> prepend (encode_rune n) (json_unquote (drop 4 r'))
             else case simple_escape c of None \<Rightarrow> None | Some d \<Rightarrow> prepend [d] (json_unquote r'))
      else if of_char b < (0x20 :: nat) then None
      else prepend [b] (json_unquote r))"
  by pat_completeness auto
termination
  by (relation "measure length") auto

lemma prepend_simps [simp]: "prepend [] x = x" "prepend p (prepend q x) = prepend (p @ q) x"
  "prepend p (Some (t, z)) = Some (p @ t, z)"
  by (cases x; simp add: prepend_def apfst_def map_prod_def split: prod.splits)+

definition plain_byte :: "char \<Rightarrow> bool" where
  "plain_byte b \<longleftrightarrow> (0x20 :: nat) \<le> of_char b \<and> b \<noteq> dquote \<and> b \<noteq> backslash"

lemma unquote_plain: "\<forall>b \<in> set p. plain_byte b \<Longrightarrow> json_unquote (p @ z) = prepend p (json_unquote z)"
  by (induction p) (simp_all add: plain_byte_def)

lemma safe_plain: "htmlSafeSet b \<or> safeSet b \<Longrightarrow> plain_byte b"
proof -
  have "\<forall>b \<in> set safe_table. plain_byte b" "\<forall>b \<in> set html_safe_table. plain_byte b"
    unfolding safe_table_def html_safe_table_def plain_byte_def dquote_def backslash_def by simp_all
  then show "htmlSafeSet b \<or> safeSet b \<Longrightarrow> plain_byte b" unfolding htmlSafeSet_def safeSet_def by blast
qed

lemma unhex_hex: "k < 16 \<Longrightarrow> unhex (hex ! k) = Some k"
proof -
  have "\<forall>k < Suc (Suc (Suc (Suc (Suc (Suc (Suc (Suc (Suc (Suc (Suc (Suc (Suc (Suc (Suc (Suc 0))))))))))))))).
      unhex (hex ! k) = Some k"
    unfolding hex_def unhex_def by (simp only: All_less_Suc) (simp add: Let_def)
  then show "k < 16 \<Longrightarrow> unhex (hex ! k) = Some k" by (simp add: eval_nat_numeral)
qed

lemma unquote_u: "hex4 s = Some n \<Longrightarrow> json_unquote (backslash # CHR ''u'' # s) = prepend (encode_rune n) (json_unquote (drop 4 s))"
  by (simp add: backslash_def dquote_def)

lemma unquote_simple:
  "simple_escape c = Some d \<Longrightarrow> json_unquote (backslash # c # z) = prepend [d] (json_unquote z)"
  by (auto simp: simple_escape_def backslash_def dquote_def split: if_splits)

lemma unhex_digits: "unhex CHR ''0'' = Some 0" "unhex CHR ''2'' = Some 2" "unhex CHR ''f'' = Some 15" "unhex CHR ''d'' = Some 13"
  by (simp_all add: unhex_def)

lemma simple_escape_simps:
  "simple_escape backslash = Some backslash" "simple_escape dquote = Some dquote"
  "simple_escape CHR ''n'' = Some (CHR 0x0A)" "simple_escape CHR ''r'' = Some (CHR 0x0D)"
  "simple_escape CHR ''t'' = Some (CHR 0x09)"
  by (simp_all add: simple_escape_def backslash_def dquote_def)

lemma unquote_escape_char:
  assumes "of_char b < (0x80 :: nat)"
  shows "json_unquote (escape_char b @ z) = prepend [b] (json_unquote z)"
proof -
  have h: "unhex (hex ! (of_char b div 16)) = Some (of_char b div 16)"
    "unhex (hex ! (of_char b mod 16)) = Some (of_char b mod 16)"
    by (rule unhex_hex, use assms in simp)+
  have "hex4 (CHR ''0'' # CHR ''0'' # hex ! (of_char b div 16) # hex ! (of_char b mod 16) # z) = Some (of_char b)"
    unfolding hex4_def by (simp add: h unhex_digits)
  from unquote_u [OF this] have
    "json_unquote (backslash # ''u00'' @ [hex ! (of_char b div 16), hex ! (of_char b mod 16)] @ z) = prepend [b] (json_unquote z)"
    using assms by (simp add: encode_rune_def)
  then show ?thesis
    by (simp add: escape_char_def unquote_simple [OF simple_escape_simps(1)] unquote_simple [OF simple_escape_simps(2)]
        unquote_simple [OF simple_escape_simps(3)] unquote_simple [OF simple_escape_simps(4)]
        unquote_simple [OF simple_escape_simps(5)] del: json_unquote.simps)
qed

lemma decode_rune_multi:
  assumes "decode_rune (b # r) = (c, n)" "\<not> of_char b < (0x80 :: nat)" "\<not> (c = rune_error \<and> n = 1)"
  shows "\<forall>x \<in> set (take n (b # r)). (0x80 :: nat) \<le> of_char x"
  using assms by (auto simp: decode_rune_def Let_def byte_in_def split: list.splits if_splits)

lemma char_eqI: "of_char a = (of_char b :: nat) \<Longrightarrow> a = b"
  by (metis char_of_char)

lemma decode_rune_separator:
  assumes "decode_rune (b # r) = (c, n)" "\<not> of_char b < (0x80 :: nat)" "c = 0x2028 \<or> c = 0x2029"
  shows "take n (b # r) = encode_rune c"
proof -
  obtain b1 b2 r' where r: "r = b1 # b2 # r'" and n: "n = 3"
    and c: "c = (of_char b - 0xE0) * 4096 + tail_bits b1 * 64 + tail_bits b2"
    and bounds: "0xE0 \<le> (of_char b :: nat)" "0x80 \<le> (of_char b1 :: nat)" "of_char b1 \<le> (0xBF :: nat)"
      "0x80 \<le> (of_char b2 :: nat)" "of_char b2 \<le> (0xBF :: nat)"
    using assms by (auto simp: decode_rune_def Let_def byte_in_def tail_bits_def rune_error_def
        split: list.splits if_splits)
  have "of_char b = (0xE2 :: nat) \<and> of_char b1 = (0x80 :: nat) \<and> of_char b2 = 0x80 + c mod 64"
  proof -
    define x y z :: nat where "x = of_char b - 0xE0" and "y = of_char b1 - 0x80" and "z = of_char b2 - 0x80"
    with c bounds have xyz: "of_char b = 0xE0 + x" "of_char b1 = 0x80 + y" "of_char b2 = 0x80 + z"
      and "c = x * 4096 + (y * 64 + z)" "y * 64 + z < 4096" "z < 64"
      by (simp_all add: tail_bits_def add.assoc)
    then have "x = c div 4096" "y = c mod 4096 div 64" "c = (x * 64 + y) * 64 + z" "z < 64" by simp_all
    moreover then have "z = c mod 64" by (metis mod_less mod_mult_self3)
    ultimately have "x = c div 4096" "y = c mod 4096 div 64" "z = c mod 64" by blast+
    with assms(3) xyz show ?thesis by auto
  qed
  then have "b = char_of (0xE2 :: nat) \<and> b1 = char_of (0x80 :: nat) \<and> b2 = char_of (0x80 + c mod 64)"
    by (metis char_of_char)
  then show ?thesis using assms(3) r n by (auto simp: encode_rune_def)
qed

lemma unquote_escape_rune:
  assumes "decode_rune (b # r) = (c, n)"
  shows "json_unquote (escape_rune html b r @ z) =
    prepend (if c = rune_error \<and> n = 1 then [CHR 0xEF, CHR 0xBF, CHR 0xBD] else take n (b # r)) (json_unquote z)"
proof (cases "of_char b < (0x80 :: nat)")
  case True
  with assms have "c = of_char b" "n = 1" by (simp_all add: decode_rune_ascii)
  then show ?thesis
    using True unquote_escape_char [OF True] unquote_plain [of "[b]"] safe_plain [of b]
    by (auto simp: escape_rune_def rune_error_def simp del: json_unquote.simps)
next
  case False
  have bad: "json_unquote ((backslash # ''ufffd'') @ z) = prepend [CHR 0xEF, CHR 0xBF, CHR 0xBD] (json_unquote z)"
    using unquote_u [of "''fffd'' @ z" "0xFFFD"] by (simp add: hex4_def unhex_digits encode_rune_def char_of_def bit_iff_odd del: json_unquote.simps)
  have sep: "json_unquote ((backslash # ''u202'' @ [hex ! (c mod 16)]) @ z) = prepend (encode_rune c) (json_unquote z)"
    if "c = 0x2028 \<or> c = 0x2029"
  proof -
    have "unhex (hex ! (c mod 16)) = Some (c mod 16)" by (rule unhex_hex) simp
    with that have "hex4 (''202'' @ [hex ! (c mod 16)] @ z) = Some c" by (auto simp: hex4_def unhex_digits)
    from unquote_u [OF this] show ?thesis by (simp del: json_unquote.simps)
  qed
  have plain: "json_unquote (take n (b # r) @ z) = prepend (take n (b # r)) (json_unquote z)"
    if "\<not> (c = rune_error \<and> n = 1)"
  proof (rule unquote_plain)
    from decode_rune_multi [OF assms False that]
    show "\<forall>x \<in> set (take n (b # r)). plain_byte x"
      by (auto simp: plain_byte_def dquote_def backslash_def dest!: bspec)
  qed
  show ?thesis
    unfolding escape_rune_def assms prod.case if_not_P [OF False]
    using bad sep plain decode_rune_separator [OF assms False]
    by (cases "c = rune_error \<and> n = 1"; cases "c = 0x2028 \<or> c = 0x2029")
      (simp_all only: if_True if_False simp_thms)
qed

lemma unquote_json_escape:
  "json_unquote (json_escape html s @ [dquote] @ z) = Some (to_valid_utf8 s, z)"
proof (induction s rule: measure_induct_rule [of length])
  case (less s)
  show ?case
  proof (cases s)
    case (Cons b r)
    obtain c n where cn: "decode_rune (b # r) = (c, n)" by fastforce
    have "length (drop n (b # r)) < length s" using decode_rune_sizeD [OF cn] Cons by auto
    note IH = less.IH [OF this]
    show ?thesis
      unfolding Cons json_escape_Cons [OF cn] append.assoc unquote_escape_rune [OF cn] IH to_valid_utf8.simps(2) cn prod.case
      by (simp only: prepend_simps)
  qed (simp add: dquote_def)
qed

text \<open>Valid UTF-8 is kept as it is.\<close>

function valid_utf8 :: "string \<Rightarrow> bool" where
  "valid_utf8 [] = True"
| "valid_utf8 (b # r) =
     (case decode_rune (b # r) of (c, n) \<Rightarrow> \<not> (c = rune_error \<and> n = 1) \<and> valid_utf8 (drop n (b # r)))"
  by pat_completeness auto
termination
  by (relation "measure length") (auto dest!: decode_rune_sizeD [OF sym])

lemma to_valid_utf8_id: "valid_utf8 s \<Longrightarrow> to_valid_utf8 s = s"
  by (induction s rule: valid_utf8.induct)
    (auto simp del: drop_Suc_Cons take_Suc_Cons split: prod.splits)


text \<open>With \<open>escapeHTML\<close> set, the characters that HTML gives a meaning to are escaped.\<close>

definition html_chars :: "char set" where
  "html_chars = {CHR ''<'', CHR ''>'', CHR ''&''}"

lemma hex_no_html: "k < 16 \<Longrightarrow> hex ! k \<notin> html_chars"
proof -
  have "set hex \<inter> html_chars = {}" by (simp add: hex_def html_chars_def)
  moreover have "length hex = 16" by (simp add: hex_def)
  ultimately show "k < 16 \<Longrightarrow> hex ! k \<notin> html_chars" by (metis disjoint_iff nth_mem)
qed

lemma escape_char_no_html:
  assumes "of_char b < (0x80 :: nat)" shows "set (escape_char b) \<inter> html_chars = {}"
proof -
  have "hex ! (of_char b div 16) \<notin> html_chars" "hex ! (of_char b mod 16) \<notin> html_chars"
    by (rule hex_no_html, use assms in simp)+
  then show ?thesis by (auto simp: escape_char_def html_chars_def backslash_def dquote_def)
qed

lemma escape_rune_no_html: "set (escape_rune True b r) \<inter> html_chars = {}"
proof (cases "of_char b < (0x80 :: nat)")
  case True
  have "\<forall>c \<in> set html_safe_table. c \<notin> html_chars" by (simp add: html_safe_table_def html_chars_def)
  then have "htmlSafeSet b \<Longrightarrow> b \<notin> html_chars" by (simp add: htmlSafeSet_def)
  with True escape_char_no_html [OF True] show ?thesis by (simp add: escape_rune_def)
next
  case False
  obtain c n where cn: "decode_rune (b # r) = (c, n)" by fastforce
  have sep: "hex ! (c mod 16) \<notin> html_chars" by (rule hex_no_html) simp
  have "\<forall>x \<in> html_chars. \<not> (0x80 :: nat) \<le> of_char x" by (simp add: html_chars_def)
  then have plain: "\<not> (c = rune_error \<and> n = 1) \<Longrightarrow> set (take n (b # r)) \<inter> html_chars = {}"
    using decode_rune_multi [OF cn False] by blast
  have "set (backslash # ''ufffd'') \<inter> html_chars = {}" "set (backslash # ''u202'' @ [hex ! (c mod 16)]) \<inter> html_chars = {}"
    using sep by (auto simp: html_chars_def backslash_def)
  with plain show ?thesis
    unfolding escape_rune_def if_not_P [OF False] cn prod.case by (simp only: split: if_split) blast
qed

lemma json_escape_no_html: "set (json_escape True s) \<inter> html_chars = {}"
proof (induction s rule: measure_induct_rule [of length])
  case (less s)
  show ?case
  proof (cases s)
    case (Cons b r)
    obtain c n where cn: "decode_rune (b # r) = (c, n)" by fastforce
    have "length (drop n (b # r)) < length s" using decode_rune_sizeD [OF cn] Cons by auto
    from less.IH [OF this] escape_rune_no_html [of b r] show ?thesis
      unfolding Cons json_escape_Cons [OF cn] set_append by blast
  qed simp
qed

text \<open>
  C18: escaped strings are read back.  What \<open>WriteEscapedString\<close> writes between quotes is a JSON
  string that denotes the original string, with every byte that is not valid UTF-8 replaced by
  U+FFFD: whatever follows, no quote or backslash of a label value ends the string early.  It
  has no character that HTML gives a meaning to, and writing stops at the first error of the writer.
\<close>
theorem escaped_string_roundtrip:
  "\<exists>t. emits wr (WriteEscapedString wr s True) t \<and> set t \<inter> html_chars = {} \<and>
     (\<forall>z. json_unquote (t @ [dquote] @ z) = Some (to_valid_utf8 s, z))"
  using emits_WriteEscapedString unquote_json_escape json_escape_no_html by blast

end
