(* ===== verification/Promql_Quantile.thy ===== *)
theory Promql_Quantile
  imports Promql_Value
begin

text \<open>
  Quantiles, \<open>pkg/promql/quantile.go\<close>: the quantile of a histogram by interpolation within a
  bucket, and the quantile of a list of samples.  \<open>sort.Sort\<close> is insertion sort by the given
  order, which is what every sorting algorithm yields up to the order of equal elements when no
  value is NaN; \<open>sort.Search\<close> is the binary search of package \<open>sort\<close>.
\<close>


section \<open>Sorting and searching\<close>

fun insert_by :: "('a \<Rightarrow> 'a \<Rightarrow> bool) \<Rightarrow> 'a \<Rightarrow> 'a list \<Rightarrow> 'a list" where
  "insert_by lt x [] = [x]"
| "insert_by lt x (y # ys) = (if lt x y then x # y # ys else y # insert_by lt x ys)"

definition sort_by :: "('a \<Rightarrow> 'a \<Rightarrow> bool) \<Rightarrow> 'a list \<Rightarrow> 'a list" where
  "sort_by lt xs = fold (insert_by lt) xs []"

function search_loop :: "(nat \<Rightarrow> bool) \<Rightarrow> nat \<Rightarrow> nat \<Rightarrow> nat" where
  "search_loop f i j =
     (if i < j then
        let h = (i + j) div 2
        in if \<not> f h then search_loop f (h + 1) j else search_loop f i h
      else i)"
  by pat_completeness auto
termination
  by (relation "measure (\<lambda>(f, i, j). j - i)") auto

declare search_loop.simps [simp del]

definition sort_Search :: "nat \<Rightarrow> (nat \<Rightarrow> bool) \<Rightarrow> nat" where
  "sort_Search n f = search_loop f 0 n"


section \<open>Buckets\<close>

record bucket =
  bk_upperBound :: float64
  bk_count :: float64

definition bucket_Less :: "bucket \<Rightarrow> bucket \<Rightarrow> bool" where
  "bucket_Less a b = f_lt (bk_upperBound a) (bk_upperBound b)"

text \<open>
  \<open>coalesceBuckets\<close> writes the merged buckets to the front of the slice; \<open>acc\<close> is that front.
  Indexing the empty slice panics.
\<close>

fun coalesce_loop :: "bucket \<Rightarrow> bucket list \<Rightarrow> bucket list \<Rightarrow> bucket list" where
  "coalesce_loop prev [] acc = acc @ [prev]"
| "coalesce_loop prev (b # bs) acc =
     (if f_eq (bk_upperBound b) (bk_upperBound prev)
      then coalesce_loop (prev\<lparr>bk_count := f_add (bk_count prev) (bk_count b)\<rparr>) bs acc
      else coalesce_loop b bs (acc @ [prev]))"

definition coalesceBuckets :: "bucket list \<Rightarrow> bucket list outcome" where
  "coalesceBuckets bs =
     (case bs of [] \<Rightarrow> Panic ''index out of range'' | b # rest_bs \<Rightarrow> Return (coalesce_loop b rest_bs []))"

text \<open>\<open>for i := range buckets[1:]\<close> runs over the indices of the shorter slice, that is over all but the last.\<close>

fun monotonic_loop :: "float64 \<Rightarrow> bucket list \<Rightarrow> bucket list" where
  "monotonic_loop mx [] = []"
| "monotonic_loop mx (b # bs) =
     (if f_lt mx (bk_count b) then b # monotonic_loop (bk_count b) bs
      else if f_lt (bk_count b) mx then b\<lparr>bk_count := mx\<rparr> # monotonic_loop mx bs
      else b # monotonic_loop mx bs)"

definition ensureMonotonic :: "bucket list \<Rightarrow> bucket list outcome" where
  "ensureMonotonic bs =
     (case bs of
        [] \<Rightarrow> Panic ''index out of range''
      | b # _ \<Rightarrow> Return (monotonic_loop (bk_count b) (butlast bs) @ [last bs]))"

definition f_one :: float64 where "f_one = f_of_int 1"

definition is_pos_inf :: "float64 \<Rightarrow> bool" where
  "is_pos_inf f \<longleftrightarrow> f_val f = FInf False"

text \<open>The interpolation at the bucket \<open>b\<close> that was found.\<close>

definition interpolate :: "bucket list \<Rightarrow> nat \<Rightarrow> float64 \<Rightarrow> float64" where
  "interpolate bs b rank =
     (if b = length bs - 1 then bk_upperBound (bs ! (length bs - 2))
      else if b = 0 \<and> f_le (bk_upperBound (bs ! 0)) (f_zero False) then bk_upperBound (bs ! 0)
      else
        let bucketEnd = bk_upperBound (bs ! b);
            (bucketStart, count, rank') =
              (if b > 0 then (bk_upperBound (bs ! (b - 1)), f_sub (bk_count (bs ! b)) (bk_count (bs ! (b - 1))),
                              f_sub rank (bk_count (bs ! (b - 1))))
               else (f_zero False, bk_count (bs ! b), rank))
        in f_add bucketStart (f_mul (f_sub bucketEnd bucketStart) (f_div rank' count)))"

definition bucketQuantile :: "float64 \<Rightarrow> bucket list \<Rightarrow> float64 outcome" where
  "bucketQuantile q bs0 =
     (if f_lt q (f_zero False) then Return (f_inf True)
      else if f_lt f_one q then Return (f_inf False)
      else let bs1 = sort_by bucket_Less bs0
           in if bs1 = [] then Panic ''index out of range''
              else if \<not> is_pos_inf (bk_upperBound (last bs1)) then Return f_nan
              else outcome_bind (coalesceBuckets bs1) (\<lambda>bs2. outcome_bind (ensureMonotonic bs2) (\<lambda>bs.
                if length bs < 2 then Return f_nan
                else let rank = f_mul q (bk_count (last bs));
                         b = sort_Search (length bs - 1) (\<lambda>i. f_le rank (bk_count (bs ! i)))
                     in Return (interpolate bs b rank))))"


section \<open>Quantiles of samples\<close>

text \<open>\<open>vectorByValueHeap.Less\<close>: NaN comes first.\<close>

definition value_Less :: "float64 \<Rightarrow> float64 \<Rightarrow> bool" where
  "value_Less a b = (if f_is_nan a then True else f_lt a b)"

definition f_floor :: "float64 \<Rightarrow> float64" where
  "f_floor a =
     (case f_val a of
        FFin s v \<Rightarrow> if v = 0 then a else f_of_rat s (of_int \<lfloor>with_sign s v\<rfloor>)
      | _ \<Rightarrow> a)"

text \<open>\<open>math.Max\<close> and \<open>math.Min\<close>\<close>

definition f_max :: "float64 \<Rightarrow> float64 \<Rightarrow> float64" where
  "f_max a b =
     (if is_pos_inf a \<or> is_pos_inf b then f_inf False
      else if f_is_nan a \<or> f_is_nan b then f_nan
      else if f_val a = FFin True 0 \<and> f_val b = FFin False 0 then b
      else if f_lt b a \<or> f_eq a b then a else b)"

definition f_min :: "float64 \<Rightarrow> float64 \<Rightarrow> float64" where
  "f_min a b =
     (if f_val a = FInf True \<or> f_val b = FInf True then f_inf True
      else if f_is_nan a \<or> f_is_nan b then f_nan
      else if f_val a = FFin False 0 \<and> f_val b = FFin True 0 then b
      else if f_lt a b \<or> f_eq a b then a else b)"

text \<open>
  The conversion \<open>int(f)\<close> truncates; for NaN and out of range values Go leaves the result to
  the implementation, which is the parameter \<open>conv\<close>.
\<close>

definition f_to_int :: "(float64 \<Rightarrow> int) \<Rightarrow> float64 \<Rightarrow> int" where
  "f_to_int conv a =
     (case f_val a of
        FFin s v \<Rightarrow>
          (let i = (if s then - \<lfloor>v\<rfloor> else \<lfloor>v\<rfloor>) in if in_int64 i then i else conv a)
      | _ \<Rightarrow> conv a)"

definition nth_value :: "float64 list \<Rightarrow> int \<Rightarrow> float64 outcome" where
  "nth_value vs i =
     (if 0 \<le> i \<and> i < int (length vs) then Return (vs ! nat i) else Panic ''index out of range'')"

definition quantile :: "(float64 \<Rightarrow> int) \<Rightarrow> float64 \<Rightarrow> float64 list \<Rightarrow> float64 outcome" where
  "quantile conv q vs0 =
     (if vs0 = [] then Return f_nan
      else if f_lt q (f_zero False) then Return (f_inf True)
      else if f_lt f_one q then Return (f_inf False)
      else
        let vs = sort_by value_Less vs0;
            n = f_of_int (int (length vs));
            rank = f_mul q (f_sub n f_one);
            lowerIndex = f_max (f_zero False) (f_floor rank);
            upperIndex = f_min (f_sub n f_one) (f_add lowerIndex f_one);
            weight = f_sub rank (f_floor rank)
        in outcome_bind (nth_value vs (f_to_int conv lowerIndex)) (\<lambda>lo.
           outcome_bind (nth_value vs (f_to_int conv upperIndex)) (\<lambda>hi.
             Return (f_add (f_mul lo (f_sub f_one weight)) (f_mul hi weight)))))"


section \<open>The binary search\<close>

text \<open>On a monotone predicate the search finds the first index where it holds.\<close>

lemma search_loop_spec:
  assumes "\<forall>a b. a \<le> b \<longrightarrow> b < n \<longrightarrow> f a \<longrightarrow> f b"
    and "j \<le> n" "i \<le> j" "\<forall>k < i. \<not> f k" "\<forall>k. j \<le> k \<longrightarrow> k < n \<longrightarrow> f k"
  shows "search_loop f i j \<le> n \<and> (\<forall>k < search_loop f i j. \<not> f k) \<and>
    (\<forall>k. search_loop f i j \<le> k \<longrightarrow> k < n \<longrightarrow> f k)"
  using assms
proof (induction f i j rule: search_loop.induct)
  case (1 f i j)
  define h where "h = (i + j) div 2"
  show ?case
  proof (cases "i < j")
    case False
    then have "search_loop f i j = i" by (subst search_loop.simps) simp
    with False "1.prems" show ?thesis by auto
  next
    case True
    then have h: "i \<le> h" "h < j" by (auto simp: h_def)
    show ?thesis
    proof (cases "f h")
      case fh: True
      have up: "\<forall>k. h \<le> k \<longrightarrow> k < n \<longrightarrow> f k" using "1.prems"(1) fh by blast
      have "search_loop f i j = search_loop f i h"
        using True fh by (subst search_loop.simps) (simp add: h_def)
      moreover have "search_loop f i h \<le> n \<and> (\<forall>k < search_loop f i h. \<not> f k) \<and>
          (\<forall>k. search_loop f i h \<le> k \<longrightarrow> k < n \<longrightarrow> f k)"
        using "1.IH"(2) [OF True h_def] fh "1.prems" h up by simp
      ultimately show ?thesis by simp
    next
      case nfh: False
      have low: "\<forall>k < h + 1. \<not> f k"
      proof (intro allI impI)
        fix k assume "k < h + 1"
        then have "k \<le> h" "h < n" using h "1.prems"(2) by auto
        then show "\<not> f k" using "1.prems"(1) nfh by blast
      qed
      have "search_loop f i j = search_loop f (h + 1) j"
        using True nfh by (subst search_loop.simps) (simp add: h_def)
      moreover have "search_loop f (h + 1) j \<le> n \<and> (\<forall>k < search_loop f (h + 1) j. \<not> f k) \<and>
          (\<forall>k. search_loop f (h + 1) j \<le> k \<longrightarrow> k < n \<longrightarrow> f k)"
        using "1.IH"(1) [OF True h_def] nfh "1.prems" h low by simp
      ultimately show ?thesis by simp
    qed
  qed
qed

lemma sort_Search_least:
  assumes "\<forall>a b. a \<le> b \<longrightarrow> b < n \<longrightarrow> f a \<longrightarrow> f b"
  shows "sort_Search n f = length (takeWhile (\<lambda>i. \<not> f i) [0..<n])"
proof -
  have s: "sort_Search n f \<le> n" "\<forall>k < sort_Search n f. \<not> f k" "sort_Search n f < n \<Longrightarrow> f (sort_Search n f)"
    using search_loop_spec [OF assms le_refl le0] by (auto simp: sort_Search_def)
  have "[0..<n] = [0..<sort_Search n f] @ [sort_Search n f..<n]"
    using s(1) by (metis le0 le_add_diff_inverse upt_add_eq_append)
  moreover have "takeWhile (\<lambda>i. \<not> f i) [sort_Search n f..<n] = []"
    using s(3) by (cases "sort_Search n f < n") (auto simp: upt_conv_Cons)
  ultimately have "takeWhile (\<lambda>i. \<not> f i) [0..<n] = [0..<sort_Search n f]"
    using s(2) takeWhile_append2 [of "[0..<sort_Search n f]" "\<lambda>i. \<not> f i"] by simp
  then show ?thesis by simp
qed


section \<open>Monotonic buckets\<close>

lemma f_le_trans: "f_le a b \<Longrightarrow> f_le b c \<Longrightarrow> f_le a c"
  by (auto simp: f_le_def f_lt_def f_eq_def split: fval.splits if_splits)

lemma f_not_lt: "\<not> f_is_nan a \<Longrightarrow> \<not> f_is_nan b \<Longrightarrow> \<not> f_lt a b \<Longrightarrow> f_le b a"
  using f_trichotomy [of a b] by (auto simp: f_le_def f_eq_def split: fval.splits)

lemma f_le_refl: "\<not> f_is_nan a \<Longrightarrow> f_le a a"
  by (auto simp: f_le_def f_eq_def f_val_nan [symmetric] split: fval.splits)

definition counts_ok :: "bucket list \<Rightarrow> bool" where
  "counts_ok bs \<longleftrightarrow> (\<forall>b \<in> set bs. \<not> f_is_nan (bk_count b))"

lemma monotonic_loop_spec:
  assumes "counts_ok bs" and "\<not> f_is_nan mx"
  shows "sorted_wrt (\<lambda>a b. f_le (bk_count a) (bk_count b)) (monotonic_loop mx bs) \<and>
    (\<forall>b \<in> set (monotonic_loop mx bs). f_le mx (bk_count b) \<and> \<not> f_is_nan (bk_count b)) \<and>
    map bk_upperBound (monotonic_loop mx bs) = map bk_upperBound bs"
  using assms
proof (induction bs arbitrary: mx)
  case (Cons b bs)
  have b: "\<not> f_is_nan (bk_count b)" and bs: "counts_ok bs" using Cons.prems(1) by (auto simp: counts_ok_def)
  consider (up) "f_lt mx (bk_count b)" | (down) "\<not> f_lt mx (bk_count b)" "f_lt (bk_count b) mx"
    | (same) "\<not> f_lt mx (bk_count b)" "\<not> f_lt (bk_count b) mx" by blast
  then show ?case
  proof cases
    case up
    then have "f_le mx (bk_count b)" by (simp add: f_le_def)
    with up Cons.IH [OF bs b] b show ?thesis by (auto intro: f_le_trans)
  next
    case down
    with Cons.IH [OF bs Cons.prems(2)] Cons.prems(2) show ?thesis by (auto intro: f_le_refl)
  next
    case same
    with f_not_lt [OF Cons.prems(2) b] f_not_lt [OF b Cons.prems(2)]
    have "f_le (bk_count b) mx" "f_le mx (bk_count b)" by auto
    with same Cons.IH [OF bs Cons.prems(2)] b show ?thesis by (auto intro: f_le_trans)
  qed
qed simp

lemma ensureMonotonic_spec:
  assumes "bs \<noteq> []" and "counts_ok bs"
  obtains bs' where "ensureMonotonic bs = Return bs'" "last bs' = last bs" "length bs' = length bs"
    "map bk_upperBound bs' = map bk_upperBound bs"
    "sorted_wrt (\<lambda>a b. f_le (bk_count a) (bk_count b)) (butlast bs')"
proof -
  obtain b cs where bs: "bs = b # cs" using assms(1) by (cases bs) auto
  have "counts_ok (butlast bs)" "\<not> f_is_nan (bk_count b)"
    using assms(2) bs by (auto simp: counts_ok_def dest: in_set_butlastD)
  note spec = monotonic_loop_spec [OF this]
  have m: "map bk_upperBound (butlast bs) @ [bk_upperBound (last bs)] = map bk_upperBound bs"
    using assms(1) by (metis append_butlast_last_id list.simps(8,9) map_append)
  show ?thesis
  proof (rule that)
    show "ensureMonotonic bs = Return (monotonic_loop (bk_count b) (butlast bs) @ [last bs])"
      using bs by (simp add: ensureMonotonic_def)
    show "map bk_upperBound (monotonic_loop (bk_count b) (butlast bs) @ [last bs]) = map bk_upperBound bs"
      using spec m by simp
    then show "length (monotonic_loop (bk_count b) (butlast bs) @ [last bs]) = length bs"
      by (metis length_map)
  qed (use spec in simp_all)
qed

text \<open>
  C39: what \<open>ensureMonotonic\<close> ensures.  On counts that are numbers it neither panics nor changes a bound,
  and the counts of all buckets but the last increase; but the last bucket is left as it is, so the
  whole list is increasing only if its count already was at least that of the others.
\<close>
theorem ensure_monotonic_all_but_last:
  assumes "bs \<noteq> []" and "counts_ok bs"
  shows "\<exists>bs'. ensureMonotonic bs = Return bs' \<and>
    map bk_upperBound bs' = map bk_upperBound bs \<and>
    sorted_wrt (\<lambda>a b. f_le (bk_count a) (bk_count b)) (butlast bs') \<and> last bs' = last bs"
  by (rule ensureMonotonic_spec [OF assms]) auto

theorem ensure_monotonic_all_but_last_witness:
  "\<exists>bs'. ensureMonotonic
      [\<lparr>bk_upperBound = f_one, bk_count = f_inf False\<rparr>, \<lparr>bk_upperBound = f_inf False, bk_count = f_zero False\<rparr>] = Return bs' \<and>
    last bs' = \<lparr>bk_upperBound = f_inf False, bk_count = f_zero False\<rparr>"
proof -
  let ?bs = "[\<lparr>bk_upperBound = f_one, bk_count = f_inf False\<rparr>, \<lparr>bk_upperBound = f_inf False, bk_count = f_zero False\<rparr>]"
  have "f_mag (f_inf False) = inf_mag" unfolding f_inf_def by (rule f_make_parts) (simp add: inf_mag_def)
  then have "counts_ok ?bs" by (simp add: counts_ok_def f_is_nan_def f_zero_parts)
  from ensure_monotonic_all_but_last [OF _ this] show ?thesis by auto
qed


section \<open>The quantile of a histogram\<close>

text \<open>The first bucket whose count reaches \<open>rank\<close>, by a scan from the left.\<close>

definition first_bucket :: "float64 \<Rightarrow> bucket list \<Rightarrow> nat" where
  "first_bucket rank bs = length (takeWhile (\<lambda>b. \<not> f_le rank (bk_count b)) bs)"

lemma takeWhile_nth_upt:
  "length (takeWhile P (map g xs)) = length (takeWhile (\<lambda>i. P (g i)) xs)"
  by (simp add: takeWhile_map comp_def)

lemma search_first_bucket:
  assumes "sorted_wrt (\<lambda>a b. f_le (bk_count a) (bk_count b)) (butlast bs)"
  shows "sort_Search (length bs - 1) (\<lambda>i. f_le rank (bk_count (bs ! i))) = first_bucket rank (butlast bs)"
proof -
  have mono: "\<forall>a b. a \<le> b \<longrightarrow> b < length bs - 1 \<longrightarrow> f_le rank (bk_count (bs ! a)) \<longrightarrow> f_le rank (bk_count (bs ! b))"
  proof (intro allI impI)
    fix a b assume ab: "a \<le> b" "b < length bs - 1" "f_le rank (bk_count (bs ! a))"
    show "f_le rank (bk_count (bs ! b))"
    proof (cases "a = b")
      case False
      with ab sorted_wrt_nth_less [OF assms, of a b] have "f_le (bk_count (bs ! a)) (bk_count (bs ! b))"
        by (simp add: nth_butlast)
      with ab(3) show ?thesis by (rule f_le_trans)
    qed (use ab in simp)
  qed
  have "butlast bs = map ((!) bs) [0..<length bs - 1]"
    by (intro nth_equalityI) (auto simp: nth_butlast)
  then show ?thesis
    unfolding sort_Search_least [OF mono] first_bucket_def by (simp only: takeWhile_nth_upt)
qed

text \<open>
  C29: the quantile of a histogram.  For \<open>q\<close> between 0 and 1 and at least two distinct bounds, the
  highest of them \<open>+Inf\<close>, \<open>bucketQuantile\<close> interpolates in the first bucket whose cumulative
  count reaches \<open>q\<close> times the total: its binary search finds the bucket a scan would find,
  because \<open>ensureMonotonic\<close> has made the buckets it searches increasing.
\<close>
theorem bucket_quantile_first_bucket:
  assumes "\<not> f_lt q (f_zero False)" and "\<not> f_lt f_one q"
    and "coalesceBuckets (sort_by bucket_Less bs0) = Return bs2"
    and "is_pos_inf (bk_upperBound (last (sort_by bucket_Less bs0)))"
    and "2 \<le> length bs2" and "counts_ok bs2"
  shows "\<exists>bs. ensureMonotonic bs2 = Return bs \<and>
    bucketQuantile q bs0 =
      (let rank = f_mul q (bk_count (last bs2))
       in Return (interpolate bs (first_bucket rank (butlast bs)) rank))"
proof -
  have ne: "bs2 \<noteq> []" using assms(5) by auto
  have ne1: "sort_by bucket_Less bs0 \<noteq> []" using assms(3) by (auto simp: coalesceBuckets_def)
  obtain bs where bs: "ensureMonotonic bs2 = Return bs" "last bs = last bs2" "length bs = length bs2"
    "sorted_wrt (\<lambda>a b. f_le (bk_count a) (bk_count b)) (butlast bs)"
    using ensureMonotonic_spec [OF ne assms(6)] by metis
  from assms ne1 bs show ?thesis
    by (simp add: bucketQuantile_def Let_def search_first_bucket [OF bs(4), unfolded bs(3) One_nat_def])
qed

lemma f_one_val: "f_one = f_make False (1023 * 2 ^ 52)" "f_val f_one = FFin False 1"
proof -
  have p: "(1023 :: nat) * 2 ^ 52 < inf_mag" by (simp add: inf_mag_def)
  have m: "mag_rat (1023 * 2 ^ 52) = 1"
    by (simp add: mag_rat_def mag_units_def exp_bias_pow_def)
  show one: "f_one = f_make False (1023 * 2 ^ 52)"
    using round_mag_exact [OF p] m by (simp add: f_one_def f_of_int_def f_of_rat_def f_round_def)
  have "(1023 :: nat) * 2 ^ 52 < 2 ^ 63" by simp
  note parts = f_make_parts [OF this, of False]
  show "f_val f_one = FFin False 1"
    unfolding one f_val_def parts using p m by simp
qed

lemma f_inf_val: "f_mag (f_inf s) = inf_mag" "f_val (f_inf s) = FInf s"
proof -
  have "inf_mag < 2 ^ 63" by (simp add: inf_mag_def)
  note parts = f_make_parts [OF this, of s]
  show "f_mag (f_inf s) = inf_mag" "f_val (f_inf s) = FInf s"
    unfolding f_inf_def f_val_def parts by simp_all
qed

theorem bucket_quantile_first_bucket_witness:
  "bucketQuantile (f_zero False)
     [\<lparr>bk_upperBound = f_inf False, bk_count = f_one\<rparr>, \<lparr>bk_upperBound = f_zero False, bk_count = f_one\<rparr>] =
   Return (f_zero False)"
proof -
  let ?lo = "\<lparr>bk_upperBound = f_zero False, bk_count = f_one\<rparr>"
  let ?hi = "\<lparr>bk_upperBound = f_inf False, bk_count = f_one\<rparr>"
  note vals = f_one_val(2) f_inf_val(2) f_zero_parts(3)
  have sorted: "sort_by bucket_Less [?hi, ?lo] = [?lo, ?hi]"
    by (simp add: sort_by_def bucket_Less_def f_lt_def vals)
  have co: "coalesceBuckets (sort_by bucket_Less [?hi, ?lo]) = Return [?lo, ?hi]"
    unfolding sorted by (simp add: coalesceBuckets_def f_eq_def vals)
  have ok: "counts_ok [?lo, ?hi]" by (simp add: counts_ok_def f_val_nan [symmetric] vals)
  have inf: "is_pos_inf (bk_upperBound (last (sort_by bucket_Less [?hi, ?lo])))"
    unfolding sorted by (simp add: is_pos_inf_def vals)
  have q: "\<not> f_lt (f_zero False) (f_zero False)" "\<not> f_lt f_one (f_zero False)"
    by (simp_all add: f_lt_def vals with_sign_def)
  have mono: "ensureMonotonic [?lo, ?hi] = Return [?lo, ?hi]"
    by (simp add: ensureMonotonic_def f_lt_irrefl)
  have rank: "f_mul (f_zero False) f_one = f_zero False"
    by (simp add: f_mul_def vals f_of_rat_def with_sign_def)
  have le: "f_le (f_zero False) f_one" "f_le (f_zero False) (f_zero False)"
    by (simp_all add: f_le_def f_lt_def f_eq_def vals with_sign_def)
  from bucket_quantile_first_bucket [OF q co inf _ ok] show ?thesis
    unfolding mono by (simp add: rank first_bucket_def interpolate_def le)
qed

end
