(* ===== verification/Api_Marshal.thy ===== *)
theory Api_Marshal
  imports Json_Escape Promql_Quantile
begin

text \<open>
  Query responses, \<open>pkg/api/marshal.go\<close> and \<open>marshalMatrixResponse\<close> of \<open>pkg/api/common.go\<close>: the
  hand written JSON of vectors and matrices, with the time stamp of a vector formatted once and
  then taken from the scratch array of the \<open>errorWrapper\<close>.
\<close>


section \<open>Numbers\<close>

definition writeFloat :: "'w write_fun \<Rightarrow> float64 \<Rightarrow> 'w errorWrapper \<Rightarrow> 'w errorWrapper" where
  "writeFloat wr f ew =
     (let b = AppendFloat f CHR ''f'' in WriteBytes wr b (ew\<lparr>ew_floatScratch := b\<rparr>))"

text \<open>The floats nearest to \<open>1e-6\<close> and \<open>1e21\<close>.\<close>

definition f_1e_6 :: float64 where "f_1e_6 = f_make False 0x3EB0C6F7A0B5ED8D"
definition f_1e21 :: float64 where "f_1e21 = f_make False 0x444B1AE4D6E2EF50"

definition json_format :: "float64 \<Rightarrow> char" where
  "json_format f =
     (let a = f_abs f
      in if \<not> f_eq a (f_zero False) \<and> (f_lt a f_1e_6 \<or> f_le f_1e21 a) then CHR ''e'' else CHR ''f'')"

text \<open>Whether the exponent of \<open>b\<close> is a negative one padded to two digits.\<close>

definition padded_exponent :: "string \<Rightarrow> bool" where
  "padded_exponent b \<longleftrightarrow>
     (let n = length b
      in 4 \<le> n \<and> b ! (n - 4) = CHR ''e'' \<and> b ! (n - 3) = CHR ''-'' \<and> b ! (n - 2) = CHR ''0'')"

text \<open>
  The bytes are appended in place, \<open>b := self.jsonScratch[:0]\<close>, so they overwrite the front of the
  array, and dropping the padding changes the array too.  They always fit (\<open>json_text_fits\<close>).
\<close>

definition writeJsonFloat :: "'w write_fun \<Rightarrow> float64 \<Rightarrow> 'w errorWrapper \<Rightarrow> 'w errorWrapper \<times> nat" where
  "writeJsonFloat wr f ew =
     (let fm = json_format f;
          b = AppendFloat f fm;
          n = length b;
          arr = b @ drop n (ew_jsonScratch ew);
          (arr', len) =
            (if fm = CHR ''e'' \<and> padded_exponent b then (arr[n - 2 := b ! (n - 1)], n - 1) else (arr, n))
      in (WriteBytes wr (take len arr') (ew\<lparr>ew_jsonScratch := take 64 arr'\<rparr>), len))"

definition writeCachedJsonFloat :: "'w write_fun \<Rightarrow> nat \<Rightarrow> 'w errorWrapper \<Rightarrow> 'w errorWrapper outcome" where
  "writeCachedJsonFloat wr len ew =
     (if len \<le> length (ew_jsonScratch ew) then Return (WriteBytes wr (take len (ew_jsonScratch ew)) ew)
      else Panic ''slice bounds out of range'')"

definition seconds_of :: "int \<Rightarrow> float64" where
  "seconds_of t = f_div (f_of_int t) (f_of_int 1000)"


section \<open>Labels and samples\<close>

definition open_with :: "nat \<Rightarrow> string \<Rightarrow> string" where
  "open_with i open_text = (if i = 0 then tl open_text else open_text)"

definition comma_quote :: string where \<open>comma_quote = '',"''\<close>

fun labels_loop :: "'w write_fun \<Rightarrow> nat \<Rightarrow> label list \<Rightarrow> 'w errorWrapper \<Rightarrow> 'w errorWrapper" where
  "labels_loop wr i [] ew = ew"
| "labels_loop wr i (l # ls) ew =
     labels_loop wr (Suc i) ls
       (WriteStrings wr [[dquote]]
         (WriteEscapedString wr (lbl_value l) True
           (WriteStrings wr [[dquote] @ '':'' @ [dquote]]
             (WriteEscapedString wr (lbl_name l) True
               (WriteStrings wr [open_with i comma_quote] ew)))))"

definition marshalLabels :: "'w write_fun \<Rightarrow> label list \<Rightarrow> 'w errorWrapper \<Rightarrow> 'w errorWrapper" where
  "marshalLabels wr ls ew = labels_loop wr 0 ls ew"

definition marshalCommonHeader :: "'w write_fun \<Rightarrow> 'w errorWrapper \<Rightarrow> 'w errorWrapper" where
  \<open>marshalCommonHeader wr ew = WriteStrings wr [''{"status":"success","data":''] ew\<close>

fun warnings_loop :: "'w write_fun \<Rightarrow> nat \<Rightarrow> string list \<Rightarrow> 'w errorWrapper \<Rightarrow> 'w errorWrapper" where
  "warnings_loop wr i [] ew = ew"
| "warnings_loop wr i (w # ws) ew =
     warnings_loop wr (Suc i) ws
       (WriteStrings wr [[dquote]]
         (WriteEscapedString wr w True (WriteStrings wr [open_with i comma_quote] ew)))"

definition marshalCommonFooter :: "'w write_fun \<Rightarrow> string list \<Rightarrow> 'w errorWrapper \<Rightarrow> 'w errorWrapper" where
  \<open>marshalCommonFooter wr warnings ew =
     WriteStrings wr [''}'' @ newline]
       (if length warnings \<noteq> 0
        then WriteStrings wr ['']''] (warnings_loop wr 0 warnings (WriteStrings wr ['',"warnings":[''] ew))
        else ew)\<close>

definition open_metric :: string where \<open>open_metric = '',{"metric":{''\<close>

fun points_loop :: "'w write_fun \<Rightarrow> nat \<Rightarrow> point list \<Rightarrow> 'w errorWrapper \<Rightarrow> 'w errorWrapper" where
  "points_loop wr i [] ew = ew"
| "points_loop wr i (p # ps) ew =
     points_loop wr (Suc i) ps
       (WriteStrings wr [[dquote] @ '']'']
         (writeFloat wr (pt_V p)
           (WriteStrings wr [comma_quote]
             (fst (writeJsonFloat wr (seconds_of (pt_T p)) (WriteStrings wr [open_with i '',[''] ew))))))"

fun matrix_loop :: "'w write_fun \<Rightarrow> nat \<Rightarrow> matrix \<Rightarrow> 'w errorWrapper \<Rightarrow> 'w errorWrapper" where
  "matrix_loop wr i [] ew = ew"
| \<open>matrix_loop wr i (s # ss) ew =
     matrix_loop wr (Suc i) ss
       (WriteStrings wr ['']}'']
         (points_loop wr 0 (sr_Points s)
           (WriteStrings wr [''},"values":['']
             (marshalLabels wr (sr_Metric s) (WriteStrings wr [open_with i open_metric] ew)))))\<close>

definition marshalMatrixData :: "'w write_fun \<Rightarrow> matrix \<Rightarrow> 'w errorWrapper \<Rightarrow> 'w errorWrapper" where
  \<open>marshalMatrixData wr data ew =
     WriteStrings wr ['']}'']
       (matrix_loop wr 0 data (WriteStrings wr [''{"resultType":"'', ''matrix'', ''","result":[''] ew))\<close>

definition write_time :: "'w write_fun \<Rightarrow> nat \<Rightarrow> int \<Rightarrow> 'w errorWrapper \<Rightarrow> ('w errorWrapper \<times> nat) outcome" where
  "write_time wr floatLen t ew =
     (if floatLen = 0 then Return (writeJsonFloat wr (seconds_of t) ew)
      else outcome_bind (writeCachedJsonFloat wr floatLen ew) (\<lambda>ew'. Return (ew', floatLen)))"

fun vector_loop :: "'w write_fun \<Rightarrow> nat \<Rightarrow> nat \<Rightarrow> vector \<Rightarrow> 'w errorWrapper \<Rightarrow> 'w errorWrapper outcome" where
  "vector_loop wr floatLen i [] ew = Return ew"
| \<open>vector_loop wr floatLen i (s # ss) ew =
     outcome_bind
       (write_time wr floatLen (pt_T (sm_Point s))
         (WriteStrings wr [''},"value":['']
           (marshalLabels wr (sm_Metric s) (WriteStrings wr [open_with i open_metric] ew))))
       (\<lambda>(ew1, floatLen'). vector_loop wr floatLen' (Suc i) ss
         (WriteStrings wr ['']}'']
           (WriteStrings wr [[dquote]]
             (writeFloat wr (pt_V (sm_Point s)) (WriteStrings wr [comma_quote] ew1)))))\<close>

definition marshalVectorData :: "'w write_fun \<Rightarrow> vector \<Rightarrow> 'w errorWrapper \<Rightarrow> 'w errorWrapper outcome" where
  \<open>marshalVectorData wr data ew =
     outcome_bind
       (vector_loop wr 0 0 data (WriteStrings wr [''{"resultType":"'', ''vector'', ''","result":[''] ew))
       (\<lambda>ew'. Return (WriteStrings wr ['']}''] ew'))\<close>

definition marshalVectorResponse ::
  "'w write_fun \<Rightarrow> 'w \<Rightarrow> vector \<Rightarrow> string list \<Rightarrow> ('w \<times> go_error option) outcome" where
  "marshalVectorResponse wr w data warnings =
     outcome_bind (marshalVectorData wr data (marshalCommonHeader wr (new_errorWrapper w))) (\<lambda>out.
       let out' = marshalCommonFooter wr warnings out in Return (ew_writer out', ew_err out'))"

definition marshalMatrixResponse ::
  "'w write_fun \<Rightarrow> 'w \<Rightarrow> matrix \<Rightarrow> string list \<Rightarrow> 'w \<times> go_error option" where
  "marshalMatrixResponse wr w data warnings =
     (let out = marshalCommonFooter wr warnings
                  (marshalMatrixData wr data (marshalCommonHeader wr (new_errorWrapper w)))
      in (ew_writer out, ew_err out))"


section \<open>The text of a response\<close>

text \<open>JSON written compositionally, with the separators between the elements.\<close>

definition json_time :: "int \<Rightarrow> string" where
  "json_time t =
     (let f = seconds_of t; b = AppendFloat f (json_format f); n = length b
      in if json_format f = CHR ''e'' \<and> padded_exponent b then take (n - 2) b @ [b ! (n - 1)] else b)"

definition json_string :: "string \<Rightarrow> string" where
  "json_string s = [dquote] @ json_escape True s @ [dquote]"

definition json_list :: "string list \<Rightarrow> string" where
  "json_list xs = ''['' @ str_join '','' xs @ '']''"

definition json_object :: "(string \<times> string) list \<Rightarrow> string" where
  "json_object kvs = ''{'' @ str_join '','' (map (\<lambda>(k, v). json_string k @ '':'' @ v) kvs) @ ''}''"

definition json_number_string :: "float64 \<Rightarrow> string" where
  "json_number_string v = [dquote] @ AppendFloat v CHR ''f'' @ [dquote]"

definition json_point :: "int \<Rightarrow> float64 \<Rightarrow> string" where
  "json_point t v = json_list [json_time t, json_number_string v]"

definition json_metric :: "label list \<Rightarrow> string" where
  "json_metric ls = json_object (map (\<lambda>l. (lbl_name l, json_string (lbl_value l))) ls)"

definition json_vector :: "int \<Rightarrow> vector \<Rightarrow> string" where
  "json_vector t vec = json_list (map (\<lambda>s. json_object
     [(''metric'', json_metric (sm_Metric s)), (''value'', json_point t (pt_V (sm_Point s)))]) vec)"

definition json_matrix :: "matrix \<Rightarrow> string" where
  "json_matrix m = json_list (map (\<lambda>s. json_object
     [(''metric'', json_metric (sr_Metric s)),
      (''values'', json_list (map (\<lambda>p. json_point (pt_T p) (pt_V p)) (sr_Points s)))]) m)"

definition json_response :: "string \<Rightarrow> string \<Rightarrow> string list \<Rightarrow> string" where
  "json_response kind res warnings =
     json_object ([(''status'', json_string ''success''),
        (''data'', json_object [(''resultType'', json_string kind), (''result'', res)])] @
       (if warnings = [] then [] else [(''warnings'', json_list (map json_string warnings))])) @ newline"

fun write_all :: "'w write_fun \<Rightarrow> 'w \<Rightarrow> string list \<Rightarrow> 'w \<times> go_error option" where
  "write_all wr w [] = (w, None)"
| "write_all wr w (c # cs) =
     (case wr w c of (w', None) \<Rightarrow> write_all wr w' cs | (w', Some e) \<Rightarrow> (w', Some e))"

section \<open>Numbers fit the scratch array\<close>

lemma f_abs_val: "f_val f = FFin s v \<Longrightarrow> f_val (f_abs f) = FFin False v"
proof -
  assume f: "f_val f = FFin s v"
  have "f_mag f < 2 ^ 63" by (simp add: f_mag_def)
  note parts = f_make_parts [OF this, of False]
  from f show "f_val (f_abs f) = FFin False v" unfolding f_abs_def f_val_def parts by (auto split: if_splits)
qed

lemma f_1e_6_val: "f_val f_1e_6 = FFin False (4722366482869645 / 4722366482869645213696)"
proof -
  have "(0x3EB0C6F7A0B5ED8D :: nat) < 2 ^ 63" by simp
  note parts = f_make_parts [OF this, of False]
  show ?thesis unfolding f_1e_6_def f_val_def parts
    by (simp add: inf_mag_def mag_rat_def mag_units_def exp_bias_pow_def)
qed

lemma f_1e21_val: "f_val f_1e21 = FFin False (pow10 21)"
proof -
  have "(0x444B1AE4D6E2EF50 :: nat) < 2 ^ 63" by simp
  note parts = f_make_parts [OF this, of False]
  show ?thesis unfolding f_1e21_def f_val_def parts
    by (simp add: inf_mag_def mag_rat_def mag_units_def exp_bias_pow_def pow10_def)
qed

lemma json_text_fits: "length (AppendFloat f (json_format f)) \<le> 48"
proof (cases "json_format f = CHR ''e''")
  case True
  then show ?thesis using AppendFloat_length_e [of f] by simp
next
  case False
  then have fm: "json_format f = CHR ''f''" by (simp add: json_format_def Let_def split: if_splits)
  have "v = 0 \<or> (pow10 (-7) \<le> v \<and> v < pow10 21)" if v: "f_val f = FFin s v" for s v
    using False unfolding json_format_def Let_def
    by (auto simp: f_le_def f_lt_def f_eq_def f_abs_val [OF v] f_1e_6_val f_1e21_val f_zero_parts(3) with_sign_def pow10_def
        split: if_splits)
  from AppendFloat_length_f [OF this] show ?thesis unfolding fm by simp
qed

text \<open>The number is written, and stays in the front of the scratch array.\<close>

lemma writeJsonFloat_spec:
  obtains arr where "writeJsonFloat wr (seconds_of t) ew = (WriteBytes wr (json_time t) (ew\<lparr>ew_jsonScratch := arr\<rparr>), length (json_time t))"
    "take (length (json_time t)) arr = json_time t"
proof -
  define f where "f = seconds_of t"
  define b where "b = AppendFloat f (json_format f)"
  define n where "n = length b"
  define arr where "arr = b @ drop n (ew_jsonScratch ew)"
  have n: "n \<le> 48" "n \<le> length arr" using json_text_fits [of f] by (simp_all add: n_def b_def arr_def)
  then have mn: "min (n - 1) 64 = n - 1" "min n 64 = n" by simp_all
  show ?thesis
  proof (cases "json_format f = CHR ''e'' \<and> padded_exponent b")
    case True
    then have four: "4 \<le> n" by (simp add: padded_exponent_def Let_def n_def)
    have jt: "json_time t = take (n - 2) b @ [b ! (n - 1)]"
      unfolding json_time_def Let_def unfolding f_def [symmetric] unfolding b_def [symmetric]
      unfolding n_def [symmetric] if_P [OF True] ..
    have tk: "take (n - 1) (arr[n - 2 := b ! (n - 1)]) = json_time t"
    proof -
      have "n - 1 = Suc (n - 2)" using four by simp
      then have "take (n - 1) (arr[n - 2 := b ! (n - 1)]) = take (n - 2) arr @ [b ! (n - 1)]"
        using four n by (simp add: take_Suc_conv_app_nth)
      then show ?thesis by (simp add: jt arr_def n_def)
    qed
    have len: "length (json_time t) = n - 1" using four by (simp add: jt n_def)
    have eq: "writeJsonFloat wr (seconds_of t) ew =
        (WriteBytes wr (json_time t) (ew\<lparr>ew_jsonScratch := take 64 (arr[n - 2 := b ! (n - 1)])\<rparr>), length (json_time t))"
      unfolding writeJsonFloat_def Let_def unfolding f_def [symmetric] unfolding b_def [symmetric]
      unfolding n_def [symmetric] unfolding arr_def [symmetric] if_P [OF True] using tk len by simp
    show ?thesis by (rule that [OF eq]) (use mn tk len in simp)
  next
    case False
    then have jt: "json_time t = b"
      unfolding json_time_def Let_def unfolding f_def [symmetric] unfolding b_def [symmetric] by (rule if_not_P)
    have eq: "writeJsonFloat wr (seconds_of t) ew =
        (WriteBytes wr (json_time t) (ew\<lparr>ew_jsonScratch := take 64 arr\<rparr>), length (json_time t))"
      unfolding writeJsonFloat_def Let_def unfolding f_def [symmetric] unfolding b_def [symmetric]
      unfolding n_def [symmetric] unfolding arr_def [symmetric] if_not_P [OF False]
      by (simp add: jt arr_def n_def)
    show ?thesis by (rule that [OF eq]) (use mn jt in \<open>simp add: arr_def n_def\<close>)
  qed
qed

lemma json_time_nonempty: "json_time t \<noteq> []"
  unfolding json_time_def Let_def by (simp add: AppendFloat_nonempty)


section \<open>What the marshalling functions write\<close>

lemma jsonScratch_writeFloat [simp]: "ew_jsonScratch (writeFloat wr f ew) = ew_jsonScratch ew"
  by (simp add: writeFloat_def Let_def)

lemma jsonScratch_labels_loop [simp]: "ew_jsonScratch (labels_loop wr i ls ew) = ew_jsonScratch ew"
  by (induction ls arbitrary: i ew) simp_all

lemma jsonScratch_marshalLabels [simp]: "ew_jsonScratch (marshalLabels wr ls ew) = ew_jsonScratch ew"
  by (simp add: marshalLabels_def)

text \<open>A step that differs from another only in the scratch fields writes the same.\<close>

lemma emits_core:
  assumes "emits wr F t" and "\<And>ew. ew_core (G ew) = ew_core (F ew)" shows "emits wr G t"
  using assms unfolding emits_def by auto

lemma core_scratch [simp]: "ew_core (ew\<lparr>ew_floatScratch := b\<rparr>) = ew_core ew" "ew_core (ew\<lparr>ew_jsonScratch := b\<rparr>) = ew_core ew"
  by (simp_all add: ew_core_def)

lemma emits_writeFloat: "emits wr (writeFloat wr f) (AppendFloat f CHR ''f'')"
  by (rule emits_core [OF emits_WriteBytes])
    (simp add: writeFloat_def Let_def core_WriteBytes_cong [OF core_scratch(1)])

text \<open>Elements opened with a comma, but for the first, are joined by commas.\<close>

definition joined :: "nat \<Rightarrow> string list \<Rightarrow> string" where
  "joined i xs = (if i = 0 \<or> xs = [] then [] else '','') @ str_join '','' xs"

lemma joined_simps [simp]:
  "joined i [] = []"
  "joined i (x # xs) = (if i = 0 then [] else '','') @ x @ joined (Suc i) xs"
  by (simp_all add: joined_def, cases xs, simp_all)

lemma joined_0: "joined 0 xs = str_join '','' xs"
  by (simp add: joined_def)

lemma open_with_comma: "open_with i (CHR '','' # t) = (if i = 0 then [] else '','') @ t"
  by (simp add: open_with_def)

lemma emits_eq: "emits wr F t \<Longrightarrow> t = u \<Longrightarrow> emits wr F u"
  by simp

lemma emits_cong: "emits wr F t \<Longrightarrow> ew_core a = ew_core b \<Longrightarrow> ew_core (F a) = ew_core (F b)"
  unfolding emits_def using core_fold_cong by metis

lemma emits_labels_loop:
  "emits wr (labels_loop wr i ls) (joined i (map (\<lambda>l. json_string (lbl_name l) @ '':'' @ json_string (lbl_value l)) ls))"
proof (induction ls arbitrary: i)
  case Nil
  then show ?case by (simp add: labels_loop.simps(1) [abs_def] emits_id)
next
  case (Cons l ls)
  show ?case
    unfolding labels_loop.simps(2) [abs_def]
    by (rule emits_eq [OF emits_comp [OF emits_comp [OF emits_comp [OF emits_comp [OF emits_comp [OF emits_WriteString
          emits_WriteEscapedString] emits_WriteString] emits_WriteEscapedString] emits_WriteString] Cons.IH]])
      (simp add: json_string_def comma_quote_def open_with_comma dquote_def)
qed

lemma emits_marshalLabels: "emits wr (marshalLabels wr ls) (str_join '','' (map (\<lambda>l. json_string (lbl_name l) @ '':'' @ json_string (lbl_value l)) ls))"
  using emits_labels_loop [of wr 0 ls] by (simp add: marshalLabels_def [abs_def] joined_0)

lemma emits_warnings_loop: "emits wr (warnings_loop wr i ws) (joined i (map json_string ws))"
proof (induction ws arbitrary: i)
  case Nil
  then show ?case by (simp add: warnings_loop.simps(1) [abs_def] emits_id)
next
  case (Cons w ws)
  show ?case
    unfolding warnings_loop.simps(2) [abs_def]
    by (rule emits_eq [OF emits_comp [OF emits_comp [OF emits_comp [OF emits_WriteString
          emits_WriteEscapedString] emits_WriteString] Cons.IH]])
      (simp add: json_string_def comma_quote_def open_with_comma dquote_def)
qed

lemma json_escape_plain: "\<forall>c \<in> set s. htmlSafeSet c \<and> of_char c < (0x80 :: nat) \<Longrightarrow> json_escape True s = s"
  by (induction s) (simp_all add: escape_rune_def decode_rune_ascii)

lemma json_keywords:
  "json_escape True ''status'' = ''status''" "json_escape True ''success'' = ''success''"
  "json_escape True ''data'' = ''data''" "json_escape True ''resultType'' = ''resultType''"
  "json_escape True ''result'' = ''result''" "json_escape True ''warnings'' = ''warnings''"
  "json_escape True ''metric'' = ''metric''" "json_escape True ''value'' = ''value''"
  "json_escape True ''values'' = ''values''" "json_escape True ''vector'' = ''vector''"
  "json_escape True ''matrix'' = ''matrix''"
  by (rule json_escape_plain, simp add: htmlSafeSet_def html_safe_table_def)+

lemma emits_writeJsonFloat: "emits wr (\<lambda>ew. fst (writeJsonFloat wr (seconds_of t) ew)) (json_time t)"
proof (rule emits_core [OF emits_WriteBytes])
  show "ew_core (fst (writeJsonFloat wr (seconds_of t) ew)) = ew_core (WriteBytes wr (json_time t) ew)" for ew
    by (rule writeJsonFloat_spec [of wr t ew]) (simp add: core_WriteBytes_cong [OF core_scratch(2)])
qed

lemma emits_points_loop:
  "emits wr (points_loop wr i ps) (joined i (map (\<lambda>p. json_point (pt_T p) (pt_V p)) ps))"
proof (induction ps arbitrary: i)
  case Nil
  then show ?case by (simp add: points_loop.simps(1) [abs_def] emits_id)
next
  case (Cons p ps)
  show ?case
    unfolding points_loop.simps(2) [abs_def]
    by (rule emits_eq [OF emits_comp [OF emits_comp [OF emits_comp [OF emits_comp [OF emits_comp [OF emits_WriteString
          emits_writeJsonFloat] emits_WriteString] emits_writeFloat] emits_WriteString] Cons.IH]])
      (simp add: json_point_def json_list_def json_number_string_def comma_quote_def open_with_comma dquote_def)
qed

definition matrix_item :: "series \<Rightarrow> string" where
  "matrix_item s = json_object
     [(''metric'', json_metric (sr_Metric s)),
      (''values'', json_list (map (\<lambda>p. json_point (pt_T p) (pt_V p)) (sr_Points s)))]"

lemma emits_matrix_loop: "emits wr (matrix_loop wr i m) (joined i (map matrix_item m))"
proof (induction m arbitrary: i)
  case Nil
  then show ?case by (simp add: matrix_loop.simps(1) [abs_def] emits_id)
next
  case (Cons s m)
  show ?case
    unfolding matrix_loop.simps(2) [abs_def]
    by (rule emits_eq [OF emits_comp [OF emits_comp [OF emits_comp [OF emits_comp [OF emits_comp [OF emits_WriteString
          emits_marshalLabels] emits_WriteString] emits_points_loop] emits_WriteString] Cons.IH]])
      (simp add: matrix_item_def json_object_def json_metric_def json_list_def json_string_def json_keywords
        open_metric_def open_with_comma dquote_def joined_0 comp_def del: json_escape.simps)
qed

text \<open>
  A vector is written with the time of its first sample: once that has been formatted, \<open>floatLen\<close>
  is its length and the scratch array begins with it.
\<close>

definition vector_item :: "string \<Rightarrow> psample \<Rightarrow> string" where
  "vector_item ts s = json_object
     [(''metric'', json_metric (sm_Metric s)),
      (''value'', json_list [ts, json_number_string (pt_V (sm_Point s))])]"


definition vector_step :: "'w write_fun \<Rightarrow> string \<Rightarrow> nat \<Rightarrow> psample \<Rightarrow> 'w errorWrapper \<Rightarrow> 'w errorWrapper" where
  \<open>vector_step wr ts i s ew =
     WriteStrings wr ['']}''] (WriteStrings wr [[dquote]]
       (writeFloat wr (pt_V (sm_Point s)) (WriteStrings wr [comma_quote]
         (WriteBytes wr ts (WriteStrings wr [''},"value":['']
           (marshalLabels wr (sm_Metric s) (WriteStrings wr [open_with i open_metric] ew)))))))\<close>

lemma emits_vector_step:
  "emits wr (vector_step wr ts i s) ((if i = 0 then [] else '','') @ vector_item ts s)"
  unfolding vector_step_def [abs_def]
  by (rule emits_eq [OF emits_comp [OF emits_comp [OF emits_comp [OF emits_comp [OF emits_comp [OF emits_comp [OF emits_comp
        [OF emits_WriteString emits_marshalLabels] emits_WriteString] emits_WriteBytes] emits_WriteString]
        emits_writeFloat] emits_WriteString] emits_WriteString]])
    (simp add: vector_item_def json_object_def json_metric_def json_list_def json_string_def json_keywords
      json_number_string_def comma_quote_def open_metric_def open_with_comma dquote_def comp_def del: json_escape.simps)

definition emits_to :: "'w write_fun \<Rightarrow> 'w errorWrapper \<Rightarrow> 'w errorWrapper \<Rightarrow> string \<Rightarrow> bool" where
  "emits_to wr ew ew' t \<longleftrightarrow> (\<exists>cs. concat cs = t \<and> ew_core ew' = ew_core (fold (WriteBytes wr) cs ew))"

lemma emits_toI: "emits wr F t \<Longrightarrow> ew_core ew' = ew_core (F ew) \<Longrightarrow> emits_to wr ew ew' t"
  unfolding emits_def emits_to_def by auto

lemma emits_to_trans:
  assumes "emits_to wr a b s" "emits_to wr b c t" shows "emits_to wr a c (s @ t)"
proof -
  obtain cs ds where c: "concat cs = s" "ew_core b = ew_core (fold (WriteBytes wr) cs a)"
    and d: "concat ds = t" "ew_core c = ew_core (fold (WriteBytes wr) ds b)"
    using assms unfolding emits_to_def by blast
  have "ew_core c = ew_core (fold (WriteBytes wr) (cs @ ds) a)"
    using d(2) core_fold_cong [OF c(2)] by simp
  with c(1) d(1) show ?thesis unfolding emits_to_def by (intro exI [of _ "cs @ ds"]) simp
qed

lemma vector_loop_cached:
  assumes "ts \<noteq> []" and "take (length ts) (ew_jsonScratch ew) = ts"
  shows "\<exists>ew'. vector_loop wr (length ts) i ss ew = Return ew' \<and> emits_to wr ew ew' (joined i (map (vector_item ts) ss))"
  using assms(2)
proof (induction ss arbitrary: i ew)
  case Nil
  then show ?case by (auto intro: emits_toI [OF emits_id])
next
  case (Cons s ss)
  have len: "length ts \<le> length (ew_jsonScratch ew)"
    using arg_cong [OF Cons.prems, of length] by simp
  have step: "vector_loop wr (length ts) i (s # ss) ew = vector_loop wr (length ts) (Suc i) ss (vector_step wr ts i s ew)"
    using assms(1) len Cons.prems by (simp add: write_time_def writeCachedJsonFloat_def vector_step_def)
  have "ew_jsonScratch (vector_step wr ts i s ew) = ew_jsonScratch ew" by (simp add: vector_step_def)
  with Cons.IH [of "vector_step wr ts i s ew" "Suc i"] Cons.prems obtain ew'
    where ew': "vector_loop wr (length ts) (Suc i) ss (vector_step wr ts i s ew) = Return ew'"
      "emits_to wr (vector_step wr ts i s ew) ew' (joined (Suc i) (map (vector_item ts) ss))" by auto
  from emits_to_trans [OF emits_toI [OF emits_vector_step refl] ew'(2)] ew'(1) step show ?case by simp
qed

lemma vector_loop_fresh:
  "\<exists>ew'. vector_loop wr 0 0 vec ew = Return ew' \<and>
     emits_to wr ew ew' (joined 0 (map (vector_item (json_time (pt_T (sm_Point (hd vec))))) vec))"
proof (cases vec)
  case Nil
  then show ?thesis by (auto intro: emits_toI [OF emits_id])
next
  case (Cons s ss)
  define ts where "ts = json_time (pt_T (sm_Point s))"
  define ew1 where \<open>ew1 = WriteStrings wr [''},"value":[''] (marshalLabels wr (sm_Metric s) (WriteStrings wr [open_with 0 open_metric] ew))\<close>
  obtain arr where arr: "writeJsonFloat wr (seconds_of (pt_T (sm_Point s))) ew1 =
      (WriteBytes wr ts (ew1\<lparr>ew_jsonScratch := arr\<rparr>), length ts)" "take (length ts) arr = ts"
    unfolding ts_def by (rule writeJsonFloat_spec)
  define ew2 where "ew2 = WriteStrings wr ['']}''] (WriteStrings wr [[dquote]]
       (writeFloat wr (pt_V (sm_Point s)) (WriteStrings wr [comma_quote] (WriteBytes wr ts (ew1\<lparr>ew_jsonScratch := arr\<rparr>)))))"
  have step: "vector_loop wr 0 0 vec ew = vector_loop wr (length ts) (Suc 0) ss ew2"
    unfolding Cons vector_loop.simps(2) ew1_def [symmetric] write_time_def by (simp add: arr(1) ew2_def)
  have "ew_core ew2 = ew_core (vector_step wr ts 0 s ew)"
    unfolding ew2_def vector_step_def ew1_def [symmetric]
    by (rule emits_cong [OF emits_comp [OF emits_comp [OF emits_comp [OF emits_comp [OF emits_WriteBytes
          emits_WriteString] emits_writeFloat] emits_WriteString] emits_WriteString] core_scratch(2)])
  from emits_toI [OF emits_vector_step this] have first: "emits_to wr ew ew2 (vector_item ts s)" by simp
  have "take (length ts) (ew_jsonScratch ew2) = ts" by (simp add: ew2_def arr(2))
  moreover have "ts \<noteq> []" by (simp add: ts_def json_time_nonempty)
  ultimately obtain ew' where ew': "vector_loop wr (length ts) (Suc 0) ss ew2 = Return ew'"
      "emits_to wr ew2 ew' (joined (Suc 0) (map (vector_item ts) ss))"
    using vector_loop_cached by blast
  from emits_to_trans [OF first ew'(2)] ew'(1) step show ?thesis by (simp add: Cons ts_def)
qed

lemma write_all_fold:
  "ew_err ew = None \<Longrightarrow>
   write_all wr (ew_writer ew) cs =
     (ew_writer (fold (WriteBytes wr) cs ew), ew_err (fold (WriteBytes wr) cs ew))"
proof (induction cs arbitrary: ew)
  case (Cons c cs)
  obtain w e where w: "wr (ew_writer ew) c = (w, e)" by fastforce
  show ?case
    using Cons.IH [of "ew\<lparr>ew_writer := w\<rparr>"] Cons.prems
    by (cases e) (simp_all add: WriteBytes_step [of ew wr c w e, OF Cons.prems w] w fold_WriteBytes_err)
qed simp

lemma emits_to_write_all:
  assumes "emits_to wr (new_errorWrapper w) ew' t"
  shows "\<exists>cs. concat cs = t \<and> (ew_writer ew', ew_err ew') = write_all wr w cs"
proof -
  obtain cs where "concat cs = t" "ew_core ew' = ew_core (fold (WriteBytes wr) cs (new_errorWrapper w))"
    using assms unfolding emits_to_def by blast
  then show ?thesis
    using write_all_fold [of "new_errorWrapper w" wr cs] by (auto simp: ew_core_def new_errorWrapper_def)
qed

lemma emits_marshalCommonHeader: \<open>emits wr (marshalCommonHeader wr) ''{"status":"success","data":''\<close>
  unfolding marshalCommonHeader_def [abs_def] by (rule emits_WriteString)

definition json_warnings :: "string list \<Rightarrow> string" where
  \<open>json_warnings ws = (if ws = [] then [] else '',"warnings":'' @ json_list (map json_string ws))\<close>

lemma emits_marshalCommonFooter: "emits wr (marshalCommonFooter wr ws) (json_warnings ws @ ''}'' @ newline)"
proof (cases "ws = []")
  case True
  then show ?thesis
    using emits_WriteString [of wr "''}'' @ newline"] by (simp add: marshalCommonFooter_def [abs_def] json_warnings_def)
next
  case False
  then have \<open>marshalCommonFooter wr ws = (\<lambda>ew. WriteStrings wr [''}'' @ newline] (WriteStrings wr ['']'']
      (warnings_loop wr 0 ws (WriteStrings wr ['',"warnings":[''] ew))))\<close>
    by (simp add: marshalCommonFooter_def [abs_def])
  then show ?thesis
    by (simp only:) (rule emits_eq [OF emits_comp [OF emits_comp [OF emits_comp [OF emits_WriteString emits_warnings_loop]
        emits_WriteString] emits_WriteString]], simp add: json_warnings_def json_list_def joined_0 False)
qed


lemma json_response_text:
  \<open>json_response kind res ws =
     ''{"status":"success","data":'' @ ''{"resultType":"'' @ json_escape True kind @ ''","result":'' @ res @ ''}'' @
     json_warnings ws @ ''}'' @ newline\<close>
  by (simp add: json_response_def json_object_def json_string_def json_keywords json_warnings_def dquote_def
      del: json_escape.simps)

text \<open>
  C17: the text of a query response.  For every writer, a response is the JSON document that
  describes the value and the warnings, written piece by piece and broken off at the writer's first
  error, which is returned; marshalling never panics.  The samples of a vector all carry the time
  of its first sample, taken from the scratch array, which always holds it: by the
  contract of vectors all samples have the same time.
\<close>
theorem query_response_text:
  "(\<exists>cs. concat cs = json_response ''vector'' (json_vector (pt_T (sm_Point (hd vec))) vec) ws \<and>
      marshalVectorResponse wr w vec ws = Return (write_all wr w cs)) \<and>
   (\<exists>cs. concat cs = json_response ''matrix'' (json_matrix m) ws \<and>
      marshalMatrixResponse wr w m ws = write_all wr w cs)"
proof
  let ?ew = "new_errorWrapper w"
  define ts where "ts = json_time (pt_T (sm_Point (hd vec)))"
  define pre where \<open>pre = (\<lambda>kind ew. WriteStrings wr [''{"resultType":"'', kind, ''","result":[''] (marshalCommonHeader wr ew))\<close>
  have pre: \<open>emits wr (pre kind) (''{"status":"success","data":'' @ ''{"resultType":"'' @ kind @ ''","result":['')\<close> for kind
    unfolding pre_def by (rule emits_eq [OF emits_comp [OF emits_marshalCommonHeader emits_WriteStrings]]) simp
  have post: "emits wr (\<lambda>ew. marshalCommonFooter wr ws (WriteStrings wr ['']}''] ew)) ('']}'' @ json_warnings ws @ ''}'' @ newline)"
    by (rule emits_comp [OF emits_WriteString emits_marshalCommonFooter])
  obtain ew1 where ew1: "vector_loop wr 0 0 vec (pre ''vector'' ?ew) = Return ew1"
    "emits_to wr (pre ''vector'' ?ew) ew1 (joined 0 (map (vector_item ts) vec))"
    unfolding ts_def using vector_loop_fresh by blast
  let ?out = "marshalCommonFooter wr ws (WriteStrings wr ['']}''] ew1)"
  have v: "marshalVectorResponse wr w vec ws = Return (ew_writer ?out, ew_err ?out)"
    using ew1(1) by (simp add: marshalVectorResponse_def marshalVectorData_def pre_def Let_def)
  have items: "json_list (map (vector_item ts) vec) = json_vector (pt_T (sm_Point (hd vec))) vec"
    unfolding json_vector_def vector_item_def [abs_def] json_point_def ts_def ..
  from emits_to_write_all [of wr w, OF emits_to_trans [OF emits_to_trans [OF emits_toI [OF pre refl] ew1(2)] emits_toI [OF post refl]]] v
  show "\<exists>cs. concat cs = json_response ''vector'' (json_vector (pt_T (sm_Point (hd vec))) vec) ws \<and>
      marshalVectorResponse wr w vec ws = Return (write_all wr w cs)"
    unfolding json_response_text json_keywords items [symmetric] json_list_def joined_0 by auto
  let ?out = "marshalCommonFooter wr ws (WriteStrings wr ['']}''] (matrix_loop wr 0 m (pre ''matrix'' ?ew)))"
  have mm: "marshalMatrixResponse wr w m ws = (ew_writer ?out, ew_err ?out)"
    by (simp add: marshalMatrixResponse_def marshalMatrixData_def pre_def Let_def)
  have items: "json_list (map matrix_item m) = json_matrix m"
    unfolding json_matrix_def by (simp only: matrix_item_def [abs_def])
  from emits_to_write_all [of wr w, OF emits_to_trans [OF emits_to_trans [OF emits_toI [OF pre [of "''matrix''"] refl] emits_toI [OF emits_matrix_loop [of wr 0 m] refl]]
      emits_toI [OF post refl]]] mm
  show "\<exists>cs. concat cs = json_response ''matrix'' (json_matrix m) ws \<and>
      marshalMatrixResponse wr w m ws = write_all wr w cs"
    unfolding json_response_text json_keywords items [symmetric] json_list_def joined_0 by auto
qed

end
