(* ===== verification/Promql_Ops.thy ===== *)
theory Promql_Ops
  imports Promql_Quantile
begin

text \<open>
  The operators of PromQL, \<open>pkg/promql/engine.go\<close>: binary operations between scalars and vectors,
  set operations, vector matching and aggregations, with the caches of \<open>EvalNodeHelper\<close> as state
  that is passed along, and the heaps of \<open>pkg/promql/functions.go\<close>.

  A panic of the evaluator carries an error (\<open>ev.error\<close>), a runtime error of Go (an index out of
  range, a failed type assertion, a division by zero), or another value.
\<close>


section \<open>Errors and panics\<close>

datatype query_error =
    ErrQueryTimeout string
  | ErrQueryCanceled string
  | ErrTooManySamples string
  | ErrStorage go_error
  | PlainError go_error

datatype ev_panic = EvError query_error | EvRuntime string | EvValue string

type_synonym 'a ev = "ev_panic + 'a"

definition ev_bind :: "'a ev \<Rightarrow> ('a \<Rightarrow> 'b ev) \<Rightarrow> 'b ev" where
  "ev_bind m f = (case m of Inl p \<Rightarrow> Inl p | Inr a \<Rightarrow> f a)"

lemma ev_bind_simps [simp]:
  "ev_bind (Inl p) f = Inl p" "ev_bind (Inr a) f = f a"
  by (simp_all add: ev_bind_def)

lemma ev_bind_Inr_iff: "ev_bind m f = Inr b \<longleftrightarrow> (\<exists>a. m = Inr a \<and> f a = Inr b)"
  by (cases m) auto

lemma ev_bind_Inl_iff: "ev_bind m f = Inl p \<longleftrightarrow> m = Inl p \<or> (\<exists>a. m = Inr a \<and> f a = Inl p)"
  by (cases m) auto

definition ev_errorf :: "string \<Rightarrow> 'a ev" where
  "ev_errorf msg = Inl (EvError (PlainError (ErrMsg msg)))"

definition index_error :: "'a ev" where
  "index_error = Inl (EvRuntime ''index out of range'')"

definition first_V :: "vector \<Rightarrow> float64 ev" where
  "first_V vec = (case vec of [] \<Rightarrow> index_error | s # _ \<Rightarrow> Inr (pt_V (sm_Point s)))"

definition query_env :: string where "query_env = ''query execution''"


section \<open>What the engine takes from libraries\<close>

datatype item_type =
    I_ADD | I_SUB | I_MUL | I_DIV | I_POW | I_MOD
  | I_EQL | I_NEQ | I_GTR | I_LSS | I_GTE | I_LTE
  | I_LAND | I_LOR | I_LUNLESS
  | I_SUM | I_AVG | I_MAX | I_MIN | I_COUNT | I_COUNT_VALUES | I_STDVAR | I_STDDEV
  | I_TOPK | I_BOTTOMK | I_QUANTILE

text \<open>
  The label sets of the Prometheus library (hashes, the order, and the effect of a \<open>labels.Builder\<close> with
  \<open>Del\<close> and \<open>Set\<close>), the functions of package \<open>math\<close> that rational arithmetic does not define, the
  order in which a Go map is iterated, the conversion of a float outside the range of integers, the
  formats \<open>%q\<close> and \<open>%f\<close>, \<open>strconv.ParseFloat\<close> (\<open>None\<close> for an error), regular expressions (whether one compiles,
  and the expansion of a template by its match, \<open>None\<close> without a match), and the names of the parser.
\<close>

record promql_lib =
  L_Hash :: "label list \<Rightarrow> 64 word"
  L_HashForLabels :: "string list \<Rightarrow> label list \<Rightarrow> 64 word"
  L_HashWithoutLabels :: "string list \<Rightarrow> label list \<Rightarrow> 64 word"
  L_MatchLabels :: "bool \<Rightarrow> string list \<Rightarrow> label list \<Rightarrow> label list"
  L_Get :: "label list \<Rightarrow> string \<Rightarrow> string"
  L_Has :: "label list \<Rightarrow> string \<Rightarrow> bool"
  L_Del :: "string list \<Rightarrow> label list \<Rightarrow> label list"
  L_Set :: "string \<Rightarrow> string \<Rightarrow> label list \<Rightarrow> label list"
  L_Compare :: "label list \<Rightarrow> label list \<Rightarrow> int"
  L_String :: "label list \<Rightarrow> string"
  M_Pow :: "float64 \<Rightarrow> float64 \<Rightarrow> float64"
  M_Sqrt :: "float64 \<Rightarrow> float64"
  M_Exp :: "float64 \<Rightarrow> float64"
  M_Log :: "float64 \<Rightarrow> float64"
  M_Log2 :: "float64 \<Rightarrow> float64"
  M_Log10 :: "float64 \<Rightarrow> float64"
  G_Range :: "64 word list \<Rightarrow> 64 word list"
  G_Conv :: "float64 \<Rightarrow> int"
  G_Quote :: "string \<Rightarrow> string"
  G_FormatF :: "float64 \<Rightarrow> string"
  P_ValidLabelName :: "string \<Rightarrow> bool"
  P_LabelNameRE :: "string \<Rightarrow> bool"
  G_ParseFloat :: "string \<Rightarrow> float64 option"
  R_Valid :: "string \<Rightarrow> bool"
  R_Expand :: "string \<Rightarrow> string \<Rightarrow> string \<Rightarrow> string option"
  P_ItemString :: "item_type \<Rightarrow> string"

text \<open>\<open>math.Mod\<close>, which is exact.\<close>

definition f_mod :: "float64 \<Rightarrow> float64 \<Rightarrow> float64" where
  "f_mod a b =
     (case (f_val a, f_val b) of
        (FNaN, _) \<Rightarrow> f_nan
      | (_, FNaN) \<Rightarrow> f_nan
      | (FInf _, _) \<Rightarrow> f_nan
      | (FFin _ _, FInf _) \<Rightarrow> a
      | (FFin s x, FFin _ y) \<Rightarrow> if y = 0 then f_nan else f_of_rat s (with_sign s (x - y * of_int \<lfloor>x / y\<rfloor>)))"


section \<open>Operators on numbers\<close>

definition btos :: "bool \<Rightarrow> float64" where
  "btos b = (if b then f_one else f_zero False)"

definition f_ne :: "float64 \<Rightarrow> float64 \<Rightarrow> bool" where
  "f_ne a b = (\<not> f_eq a b)"

definition scalarBinop :: "promql_lib \<Rightarrow> item_type \<Rightarrow> float64 \<Rightarrow> float64 \<Rightarrow> float64 ev" where
  "scalarBinop lb op lhs rhs =
     (case op of
        I_ADD \<Rightarrow> Inr (f_add lhs rhs)
      | I_SUB \<Rightarrow> Inr (f_sub lhs rhs)
      | I_MUL \<Rightarrow> Inr (f_mul lhs rhs)
      | I_DIV \<Rightarrow> Inr (f_div lhs rhs)
      | I_POW \<Rightarrow> Inr (M_Pow lb lhs rhs)
      | I_MOD \<Rightarrow> Inr (f_mod lhs rhs)
      | I_EQL \<Rightarrow> Inr (btos (f_eq lhs rhs))
      | I_NEQ \<Rightarrow> Inr (btos (f_ne lhs rhs))
      | I_GTR \<Rightarrow> Inr (btos (f_lt rhs lhs))
      | I_LSS \<Rightarrow> Inr (btos (f_lt lhs rhs))
      | I_GTE \<Rightarrow> Inr (btos (f_le rhs lhs))
      | I_LTE \<Rightarrow> Inr (btos (f_le lhs rhs))
      | _ \<Rightarrow> ev_errorf (''operator '' @ G_Quote lb (P_ItemString lb op) @ '' not allowed for Scalar operations''))"

definition vectorElemBinop :: "promql_lib \<Rightarrow> item_type \<Rightarrow> float64 \<Rightarrow> float64 \<Rightarrow> (float64 \<times> bool) ev" where
  "vectorElemBinop lb op lhs rhs =
     (case op of
        I_ADD \<Rightarrow> Inr (f_add lhs rhs, True)
      | I_SUB \<Rightarrow> Inr (f_sub lhs rhs, True)
      | I_MUL \<Rightarrow> Inr (f_mul lhs rhs, True)
      | I_DIV \<Rightarrow> Inr (f_div lhs rhs, True)
      | I_POW \<Rightarrow> Inr (M_Pow lb lhs rhs, True)
      | I_MOD \<Rightarrow> Inr (f_mod lhs rhs, True)
      | I_EQL \<Rightarrow> Inr (lhs, f_eq lhs rhs)
      | I_NEQ \<Rightarrow> Inr (lhs, f_ne lhs rhs)
      | I_GTR \<Rightarrow> Inr (lhs, f_lt rhs lhs)
      | I_LSS \<Rightarrow> Inr (lhs, f_lt lhs rhs)
      | I_GTE \<Rightarrow> Inr (lhs, f_le rhs lhs)
      | I_LTE \<Rightarrow> Inr (lhs, f_le lhs rhs)
      | _ \<Rightarrow> ev_errorf (''operator '' @ G_Quote lb (P_ItemString lb op) @ '' not allowed for operations between Vectors''))"

text \<open>\<open>ItemType.IsComparisonOperator\<close> of the parser.\<close>

definition IsComparisonOperator :: "item_type \<Rightarrow> bool" where
  "IsComparisonOperator op \<longleftrightarrow> op \<in> {I_EQL, I_NEQ, I_GTR, I_LSS, I_GTE, I_LTE}"

definition shouldDropMetricName :: "item_type \<Rightarrow> bool" where
  "shouldDropMetricName op \<longleftrightarrow> op \<in> {I_ADD, I_SUB, I_DIV, I_MUL, I_POW, I_MOD}"

definition dropMetricName :: "promql_lib \<Rightarrow> label list \<Rightarrow> label list" where
  "dropMetricName lb l = L_Del lb [MetricNameLabelName] l"


section \<open>The helper of an evaluation node\<close>

record metricWithBuckets =
  mb_metric :: "label list"
  mb_buckets :: "bucket list"

text \<open>
  The scratch vector \<open>out\<close> is empty when a node is called, and the maps \<open>rightSigs\<close> and \<open>matchedSigs\<close>
  are emptied by every call, so they are local to the operations; the caches live on.
\<close>

record enh =
  enh_ts :: int
  enh_dmn :: "64 word \<rightharpoonup> label list"
  enh_sigf :: "64 word \<rightharpoonup> 64 word"
  enh_resultMetric :: "64 word \<rightharpoonup> label list"
  enh_mb :: "(64 word \<times> metricWithBuckets) list"
  enh_regex :: "string option"

definition new_enh :: enh where
  "new_enh = \<lparr>enh_ts = 0, enh_dmn = Map.empty, enh_sigf = Map.empty, enh_resultMetric = Map.empty, enh_mb = [], enh_regex = None\<rparr>"

definition enh_dropMetricName :: "promql_lib \<Rightarrow> enh \<Rightarrow> label list \<Rightarrow> enh \<times> label list" where
  "enh_dropMetricName lb enh l =
     (let h = L_Hash lb l
      in case enh_dmn enh h of
           Some r \<Rightarrow> (enh, r)
         | None \<Rightarrow> (let r = dropMetricName lb l in (enh\<lparr>enh_dmn := (enh_dmn enh)(h \<mapsto> r)\<rparr>, r)))"

definition signatureFunc :: "promql_lib \<Rightarrow> bool \<Rightarrow> string list \<Rightarrow> label list \<Rightarrow> 64 word" where
  "signatureFunc lb on names l =
     (if on then L_HashForLabels lb (sort names) l else L_HashWithoutLabels lb (sort names) l)"

definition enh_signatureFunc :: "promql_lib \<Rightarrow> bool \<Rightarrow> string list \<Rightarrow> enh \<Rightarrow> label list \<Rightarrow> enh \<times> 64 word" where
  "enh_signatureFunc lb on names enh l =
     (let h = L_Hash lb l
      in case enh_sigf enh h of
           Some r \<Rightarrow> (enh, r)
         | None \<Rightarrow> (let r = signatureFunc lb on names l in (enh\<lparr>enh_sigf := (enh_sigf enh)(h \<mapsto> r)\<rparr>, r)))"


section \<open>Set operations\<close>

datatype card = CardOneToOne | CardManyToOne | CardOneToMany | CardManyToMany

record vector_matching =
  vm_Card :: card
  vm_MatchingLabels :: "string list"
  vm_On :: bool
  vm_Include :: "string list"

definition set_op_panic :: "'a ev" where
  "set_op_panic = Inl (EvValue ''set operations must only use many-to-many matching'')"

fun sigs_loop :: "promql_lib \<Rightarrow> vector_matching \<Rightarrow> enh \<Rightarrow> vector \<Rightarrow> 64 word set \<Rightarrow> enh \<times> 64 word set" where
  "sigs_loop lb m enh [] sigs = (enh, sigs)"
| "sigs_loop lb m enh (s # ss) sigs =
     (let (enh', g) = enh_signatureFunc lb (vm_On m) (vm_MatchingLabels m) enh (sm_Metric s)
      in sigs_loop lb m enh' ss (insert g sigs))"

text \<open>The samples whose signature is in \<open>sigs\<close>, or with \<open>present = False\<close> those whose is not.\<close>

fun keep_loop :: "promql_lib \<Rightarrow> vector_matching \<Rightarrow> bool \<Rightarrow> 64 word set \<Rightarrow> enh \<Rightarrow> vector \<Rightarrow> vector \<Rightarrow> enh \<times> vector" where
  "keep_loop lb m present sigs enh [] out = (enh, out)"
| "keep_loop lb m present sigs enh (s # ss) out =
     (let (enh', g) = enh_signatureFunc lb (vm_On m) (vm_MatchingLabels m) enh (sm_Metric s)
      in keep_loop lb m present sigs enh' ss (if (g \<in> sigs) = present then out @ [s] else out))"

definition VectorAnd :: "promql_lib \<Rightarrow> vector \<Rightarrow> vector \<Rightarrow> vector_matching \<Rightarrow> enh \<Rightarrow> (enh \<times> vector) ev" where
  "VectorAnd lb lhs rhs m enh =
     (if vm_Card m \<noteq> CardManyToMany then set_op_panic
      else let (enh', rightSigs) = sigs_loop lb m enh rhs {}
           in Inr (keep_loop lb m True rightSigs enh' lhs []))"

definition VectorOr :: "promql_lib \<Rightarrow> vector \<Rightarrow> vector \<Rightarrow> vector_matching \<Rightarrow> enh \<Rightarrow> (enh \<times> vector) ev" where
  "VectorOr lb lhs rhs m enh =
     (if vm_Card m \<noteq> CardManyToMany then set_op_panic
      else let (enh', leftSigs) = sigs_loop lb m enh lhs {}
           in Inr (keep_loop lb m False leftSigs enh' rhs lhs))"

definition VectorUnless :: "promql_lib \<Rightarrow> vector \<Rightarrow> vector \<Rightarrow> vector_matching \<Rightarrow> enh \<Rightarrow> (enh \<times> vector) ev" where
  "VectorUnless lb lhs rhs m enh =
     (if vm_Card m \<noteq> CardManyToMany then set_op_panic
      else let (enh', rightSigs) = sigs_loop lb m enh rhs {}
           in Inr (keep_loop lb m False rightSigs enh' lhs []))"



section \<open>Vector matching\<close>

text \<open>\<open>lb.Del\<close> for the labels of \<open>lhs\<close> that are not matched on.\<close>

definition unmatched_names :: "vector_matching \<Rightarrow> label list \<Rightarrow> string list" where
  "unmatched_names m lhs = map lbl_name (filter (\<lambda>l. lbl_name l \<notin> set (vm_MatchingLabels m)) lhs)"

fun include_loop :: "promql_lib \<Rightarrow> label list \<Rightarrow> string list \<Rightarrow> label list \<Rightarrow> label list" where
  "include_loop lb rhs [] b = b"
| "include_loop lb rhs (nm # nms) b =
     include_loop lb rhs nms
       (let v = L_Get lb rhs nm in if v \<noteq> [] then L_Set lb nm v b else L_Del lb [nm] b)"

definition result_labels :: "promql_lib \<Rightarrow> label list \<Rightarrow> label list \<Rightarrow> item_type \<Rightarrow> vector_matching \<Rightarrow> label list" where
  "result_labels lb lhs rhs op m =
     (let b1 = (if shouldDropMetricName op then L_Del lb [MetricNameLabelName] lhs else lhs);
          b2 = (if vm_Card m = CardOneToOne
                then if vm_On m then L_Del lb (unmatched_names m lhs) b1 else L_Del lb (vm_MatchingLabels m) b1
                else b1)
      in include_loop lb rhs (vm_Include m) b2)"

definition resultMetric ::
  "promql_lib \<Rightarrow> label list \<Rightarrow> label list \<Rightarrow> item_type \<Rightarrow> vector_matching \<Rightarrow> enh \<Rightarrow> enh \<times> label list" where
  "resultMetric lb lhs rhs op m enh =
     (let lh = L_Hash lb lhs; h = xor lh (L_Hash lb rhs) + lh
      in case enh_resultMetric enh h of
           Some r \<Rightarrow> (enh, r)
         | None \<Rightarrow>
             (let r = result_labels lb lhs rhs op m
              in (enh\<lparr>enh_resultMetric := (enh_resultMetric enh)(h \<mapsto> r)\<rparr>, r)))"

definition duplicate_msg :: "promql_lib \<Rightarrow> vector_matching \<Rightarrow> label list \<Rightarrow> label list \<Rightarrow> string" where
  "duplicate_msg lb m rs dupl =
     ''found duplicate series for the match group '' @ L_String lb (L_MatchLabels lb (vm_On m) (vm_MatchingLabels m) rs) @
     '' on the '' @ (if vm_Card m = CardOneToMany then ''left'' else ''right'') @ '' hand-side of the operation: ['' @
     L_String lb rs @ '', '' @ L_String lb dupl @
     '']'' @ '';many-to-many matching not allowed: matching labels must be unique on one side''"

fun right_loop ::
  "promql_lib \<Rightarrow> vector_matching \<Rightarrow> enh \<Rightarrow> vector \<Rightarrow> (64 word \<rightharpoonup> psample) \<Rightarrow> (enh \<times> (64 word \<rightharpoonup> psample)) ev" where
  "right_loop lb m enh [] sigs = Inr (enh, sigs)"
| "right_loop lb m enh (rs # rss) sigs =
     (let (enh', g) = enh_signatureFunc lb (vm_On m) (vm_MatchingLabels m) enh (sm_Metric rs)
      in case sigs g of
           Some d \<Rightarrow> ev_errorf (duplicate_msg lb m (sm_Metric rs) (sm_Metric d))
         | None \<Rightarrow> right_loop lb m enh' rss (sigs(g \<mapsto> rs)))"

text \<open>
  The check of \<open>matchedSigs\<close>: one match per signature, or, in many-to-one matching, one result
  metric per signature.
\<close>

definition record_match ::
  "promql_lib \<Rightarrow> vector_matching \<Rightarrow> 64 word \<Rightarrow> label list \<Rightarrow> (64 word \<rightharpoonup> 64 word set) \<Rightarrow> (64 word \<rightharpoonup> 64 word set) ev" where
  "record_match lb m sig metric matched =
     (if vm_Card m = CardOneToOne then
        case matched sig of
          Some _ \<Rightarrow> ev_errorf ''multiple matches for labels: many-to-one matching must be explicit (group_left/group_right)''
        | None \<Rightarrow> Inr (matched(sig \<mapsto> {}))
      else
        let insertSig = L_Hash lb metric
        in case matched sig of
             None \<Rightarrow> Inr (matched(sig \<mapsto> {insertSig}))
           | Some ins \<Rightarrow>
               if insertSig \<in> ins then ev_errorf ''multiple matches for labels: grouping labels must ensure unique matches''
               else Inr (matched(sig \<mapsto> insert insertSig ins)))"

fun binop_loop ::
  "promql_lib \<Rightarrow> item_type \<Rightarrow> vector_matching \<Rightarrow> bool \<Rightarrow> (64 word \<rightharpoonup> psample) \<Rightarrow> enh \<Rightarrow> (64 word \<rightharpoonup> 64 word set) \<Rightarrow>
   vector \<Rightarrow> vector \<Rightarrow> (enh \<times> vector) ev" where
  "binop_loop lb op m returnBool rightSigs enh matched [] out = Inr (enh, out)"
| "binop_loop lb op m returnBool rightSigs enh matched (ls # lss) out =
     (let (enh1, sig) = enh_signatureFunc lb (vm_On m) (vm_MatchingLabels m) enh (sm_Metric ls)
      in case rightSigs sig of
           None \<Rightarrow> binop_loop lb op m returnBool rightSigs enh1 matched lss out
         | Some rs \<Rightarrow>
             let (vl, vr) = (if vm_Card m = CardOneToMany then (pt_V (sm_Point rs), pt_V (sm_Point ls))
                             else (pt_V (sm_Point ls), pt_V (sm_Point rs)))
             in ev_bind (vectorElemBinop lb op vl vr) (\<lambda>(val, keep).
                  if \<not> returnBool \<and> \<not> keep then binop_loop lb op m returnBool rightSigs enh1 matched lss out
                  else let (enh2, metric) = resultMetric lb (sm_Metric ls) (sm_Metric rs) op m enh1
                       in ev_bind (record_match lb m sig metric matched) (\<lambda>matched'.
                            binop_loop lb op m returnBool rightSigs enh2 matched' lss
                              (out @ [\<lparr>sm_Point = \<lparr>pt_T = 0, pt_V = (if returnBool then btos keep else val)\<rparr>, sm_Metric = metric\<rparr>]))))"

definition VectorBinop ::
  "promql_lib \<Rightarrow> item_type \<Rightarrow> vector \<Rightarrow> vector \<Rightarrow> vector_matching \<Rightarrow> bool \<Rightarrow> enh \<Rightarrow> (enh \<times> vector) ev" where
  "VectorBinop lb op lhs0 rhs0 m returnBool enh =
     (if vm_Card m = CardManyToMany then Inl (EvValue ''many-to-many only allowed for set operators'')
      else let (lhs, rhs) = (if vm_Card m = CardOneToMany then (rhs0, lhs0) else (lhs0, rhs0))
           in ev_bind (right_loop lb m enh rhs Map.empty) (\<lambda>(enh', rightSigs).
                binop_loop lb op m returnBool rightSigs enh' Map.empty lhs []))"

fun vector_scalar_loop ::
  "promql_lib \<Rightarrow> item_type \<Rightarrow> float64 \<Rightarrow> bool \<Rightarrow> bool \<Rightarrow> enh \<Rightarrow> vector \<Rightarrow> vector \<Rightarrow> (enh \<times> vector) ev" where
  "vector_scalar_loop lb op rhs swap returnBool enh [] out = Inr (enh, out)"
| "vector_scalar_loop lb op rhs swap returnBool enh (s # ss) out =
     (let (lv, rv) = (if swap then (rhs, pt_V (sm_Point s)) else (pt_V (sm_Point s), rhs))
      in ev_bind (vectorElemBinop lb op lv rv) (\<lambda>(val0, keep0).
           let val1 = (if IsComparisonOperator op \<and> swap then rv else val0);
               (val, keep) = (if returnBool then (btos keep0, True) else (val1, keep0))
           in if keep then
                let (enh', metric) = (if shouldDropMetricName op \<or> returnBool then enh_dropMetricName lb enh (sm_Metric s)
                                      else (enh, sm_Metric s))
                in vector_scalar_loop lb op rhs swap returnBool enh' ss
                     (out @ [s\<lparr>sm_Point := (sm_Point s)\<lparr>pt_V := val\<rparr>, sm_Metric := metric\<rparr>])
              else vector_scalar_loop lb op rhs swap returnBool enh ss out))"

definition VectorscalarBinop ::
  "promql_lib \<Rightarrow> item_type \<Rightarrow> vector \<Rightarrow> float64 \<Rightarrow> bool \<Rightarrow> bool \<Rightarrow> enh \<Rightarrow> (enh \<times> vector) ev" where
  "VectorscalarBinop lb op lhs rhs swap returnBool enh = vector_scalar_loop lb op rhs swap returnBool enh lhs []"



section \<open>Heaps\<close>

text \<open>
  The orders of \<open>vectorByValueHeap\<close> and \<open>vectorByReverseValueHeap\<close>, and \<open>Push\<close> and \<open>Pop\<close> of package
  \<open>container/heap\<close> on a slice.
\<close>

definition sample_Less :: "psample \<Rightarrow> psample \<Rightarrow> bool" where
  "sample_Less a b = value_Less (pt_V (sm_Point a)) (pt_V (sm_Point b))"

definition sample_Greater :: "psample \<Rightarrow> psample \<Rightarrow> bool" where
  "sample_Greater a b =
     (if f_is_nan (pt_V (sm_Point a)) then True else f_lt (pt_V (sm_Point b)) (pt_V (sm_Point a)))"

definition swap_at :: "'a list \<Rightarrow> nat \<Rightarrow> nat \<Rightarrow> 'a list" where
  "swap_at h i j = h[i := h ! j, j := h ! i]"

fun heap_up :: "('a \<Rightarrow> 'a \<Rightarrow> bool) \<Rightarrow> 'a list \<Rightarrow> nat \<Rightarrow> 'a list" where
  "heap_up lt h j =
     (if j = 0 then h
      else let i = (j - 1) div 2
           in if lt (h ! j) (h ! i) then heap_up lt (swap_at h i j) i else h)"

function heap_down :: "('a \<Rightarrow> 'a \<Rightarrow> bool) \<Rightarrow> 'a list \<Rightarrow> nat \<Rightarrow> nat \<Rightarrow> 'a list" where
  "heap_down lt h i n =
     (let j1 = 2 * i + 1 in
      if n \<le> j1 then h
      else let j2 = j1 + 1;
               j = (if j2 < n \<and> lt (h ! j2) (h ! j1) then j2 else j1)
           in if lt (h ! j) (h ! i) then heap_down lt (swap_at h i j) j n else h)"
  by pat_completeness auto
termination
  by (relation "measure (\<lambda>(lt, h, i, n). n - i)") (auto simp: Let_def split: if_splits)

declare heap_up.simps [simp del] heap_down.simps [simp del]

definition heap_Push :: "('a \<Rightarrow> 'a \<Rightarrow> bool) \<Rightarrow> 'a list \<Rightarrow> 'a \<Rightarrow> 'a list" where
  "heap_Push lt h x = heap_up lt (h @ [x]) (length h)"

definition heap_Pop :: "('a \<Rightarrow> 'a \<Rightarrow> bool) \<Rightarrow> 'a list \<Rightarrow> 'a list" where
  "heap_Pop lt h =
     (let n = length h - 1 in butlast (heap_down lt (swap_at h 0 n) 0 n))"


section \<open>Aggregation\<close>

record groupedAggregation =
  ga_labels :: "label list"
  ga_value :: float64
  ga_mean :: float64
  ga_groupCount :: int
  ga_heap :: "psample list"
  ga_reverseHeap :: "psample list"

datatype agg_param = ParamFloat float64 | ParamString string

definition type_assertion :: "'a ev" where
  "type_assertion = Inl (EvRuntime ''interface conversion'')"

text \<open>The format \<open>%v\<close> of a float, the shorter of the two formats.\<close>

definition format_v :: "float64 \<Rightarrow> string" where
  "format_v f =
     (case f_val f of
        FFin s v \<Rightarrow>
          (let dp = snd (dec_digits (f_mag f))
           in AppendFloat f (if dp - 1 < -4 \<or> 6 \<le> dp - 1 then CHR ''e'' else CHR ''f''))
      | _ \<Rightarrow> AppendFloat f CHR ''f'')"

text \<open>The largest and the smallest float that an \<open>int64\<close> can hold.\<close>

definition convertibleToInt64 :: "float64 \<Rightarrow> bool" where
  "convertibleToInt64 v \<longleftrightarrow> f_le v (f_of_int 9223372036854774784) \<and> f_le (f_of_int (- 9223372036854775808)) v"

definition bare_sample :: "label list \<Rightarrow> float64 \<Rightarrow> psample" where
  "bare_sample metric v = \<lparr>sm_Point = \<lparr>pt_T = 0, pt_V = v\<rparr>, sm_Metric = metric\<rparr>"

definition group_labels :: "promql_lib \<Rightarrow> bool \<Rightarrow> string list \<Rightarrow> label list \<Rightarrow> label list" where
  "group_labels lb without grouping metric =
     (if without then L_Del lb [MetricNameLabelName] (L_Del lb grouping metric)
      else sort_key lbl_name (filter (\<lambda>l. lbl_name l \<in> set grouping) metric))"

definition new_group :: "promql_lib \<Rightarrow> item_type \<Rightarrow> bool \<Rightarrow> string list \<Rightarrow> label list \<Rightarrow> psample \<Rightarrow> groupedAggregation" where
  "new_group lb op without grouping metric s =
     (let v = pt_V (sm_Point s);
          g = \<lparr>ga_labels = group_labels lb without grouping metric, ga_value = v, ga_mean = v, ga_groupCount = 1,
               ga_heap = [], ga_reverseHeap = []\<rparr>
      in if op = I_STDVAR \<or> op = I_STDDEV then g\<lparr>ga_value := f_zero False\<rparr>
         else if op = I_TOPK \<or> op = I_QUANTILE then g\<lparr>ga_heap := heap_Push sample_Less [] (bare_sample (sm_Metric s) v)\<rparr>
         else if op = I_BOTTOMK then g\<lparr>ga_reverseHeap := heap_Push sample_Greater [] (bare_sample (sm_Metric s) v)\<rparr>
         else g)"

text \<open>
  Keeping the \<open>k\<close> best: the sample replaces the top of a full heap if it is better, or if the top
  is NaN.
\<close>

definition heap_keep :: "(psample \<Rightarrow> psample \<Rightarrow> bool) \<Rightarrow> bool \<Rightarrow> int \<Rightarrow> psample \<Rightarrow> psample list \<Rightarrow> psample list" where
  "heap_keep lt better k s h =
     (if int (length h) < k \<or> better \<or> f_is_nan (pt_V (sm_Point (h ! 0)))
      then heap_Push lt (if int (length h) = k then heap_Pop lt h else h) (bare_sample (sm_Metric s) (pt_V (sm_Point s)))
      else h)"

definition add_deviation :: "float64 \<Rightarrow> groupedAggregation \<Rightarrow> groupedAggregation" where
  "add_deviation v g =
     (let n = ga_groupCount g + 1;
          delta = f_sub v (ga_mean g);
          mean = f_add (ga_mean g) (f_div delta (f_of_int n))
      in g\<lparr>ga_groupCount := n, ga_mean := mean, ga_value := f_add (ga_value g) (f_mul delta (f_sub v mean))\<rparr>)"

definition add_to_group :: "promql_lib \<Rightarrow> item_type \<Rightarrow> int \<Rightarrow> psample \<Rightarrow> groupedAggregation \<Rightarrow> groupedAggregation ev" where
  "add_to_group lb op k s g =
     (let v = pt_V (sm_Point s) in
      case op of
        I_SUM \<Rightarrow> Inr (g\<lparr>ga_value := f_add (ga_value g) v\<rparr>)
      | I_AVG \<Rightarrow>
          (let n = ga_groupCount g + 1
           in Inr (g\<lparr>ga_groupCount := n, ga_mean := f_add (ga_mean g) (f_div (f_sub v (ga_mean g)) (f_of_int n))\<rparr>))
      | I_MAX \<Rightarrow> Inr (if f_lt (ga_value g) v \<or> f_is_nan (ga_value g) then g\<lparr>ga_value := v\<rparr> else g)
      | I_MIN \<Rightarrow> Inr (if f_lt v (ga_value g) \<or> f_is_nan (ga_value g) then g\<lparr>ga_value := v\<rparr> else g)
      | I_COUNT \<Rightarrow> Inr (g\<lparr>ga_groupCount := ga_groupCount g + 1\<rparr>)
      | I_COUNT_VALUES \<Rightarrow> Inr (g\<lparr>ga_groupCount := ga_groupCount g + 1\<rparr>)
      | I_STDVAR \<Rightarrow> Inr (add_deviation v g)
      | I_STDDEV \<Rightarrow> Inr (add_deviation v g)
      | I_TOPK \<Rightarrow> Inr (g\<lparr>ga_heap := heap_keep sample_Less (f_lt (pt_V (sm_Point (ga_heap g ! 0))) v) k s (ga_heap g)\<rparr>)
      | I_BOTTOMK \<Rightarrow>
          Inr (g\<lparr>ga_reverseHeap := heap_keep sample_Greater (f_lt v (pt_V (sm_Point (ga_reverseHeap g ! 0)))) k s (ga_reverseHeap g)\<rparr>)
      | I_QUANTILE \<Rightarrow> Inr (g\<lparr>ga_heap := ga_heap g @ [s]\<rparr>)
      | _ \<Rightarrow> ev_errorf (''expected aggregation operator but got '' @ G_Quote lb (P_ItemString lb op)))"


definition agg_metric :: "promql_lib \<Rightarrow> item_type \<Rightarrow> string \<Rightarrow> psample \<Rightarrow> label list" where
  "agg_metric lb op valueLabel s =
     (if op = I_COUNT_VALUES then L_Set lb valueLabel (AppendFloat (pt_V (sm_Point s)) CHR ''f'') (sm_Metric s)
      else sm_Metric s)"

definition group_key :: "promql_lib \<Rightarrow> bool \<Rightarrow> string list \<Rightarrow> label list \<Rightarrow> 64 word" where
  "group_key lb without grouping metric =
     (if without then L_HashWithoutLabels lb grouping metric else L_HashForLabels lb grouping metric)"

text \<open>The map from grouping keys to groups, in the order in which the keys were added.\<close>

type_synonym groups = "(64 word \<times> groupedAggregation) list"

fun agg_loop ::
  "promql_lib \<Rightarrow> item_type \<Rightarrow> bool \<Rightarrow> string list \<Rightarrow> string \<Rightarrow> int \<Rightarrow> vector \<Rightarrow> groups \<Rightarrow> groups ev" where
  "agg_loop lb op without grouping valueLabel k [] groups = Inr groups"
| "agg_loop lb op without grouping valueLabel k (s # ss) groups =
     (let metric = agg_metric lb op valueLabel s;
          key = group_key lb without grouping metric
      in case map_of groups key of
           None \<Rightarrow> agg_loop lb op without grouping valueLabel k ss (groups @ [(key, new_group lb op without grouping metric s)])
         | Some g \<Rightarrow>
             ev_bind (add_to_group lb op k s g) (\<lambda>g'.
               agg_loop lb op without grouping valueLabel k ss
                 (map (\<lambda>(k', x). (k', if k' = key then g' else x)) groups)))"

definition lift_outcome :: "'a outcome \<Rightarrow> 'a ev" where
  "lift_outcome m = (case m of Panic s \<Rightarrow> Inl (EvRuntime s) | Return a \<Rightarrow> Inr a)"

definition group_result :: "promql_lib \<Rightarrow> item_type \<Rightarrow> float64 \<Rightarrow> groupedAggregation \<Rightarrow> vector ev" where
  "group_result lb op q g =
     (let single = (\<lambda>v. Inr [bare_sample (ga_labels g) v]) in
      case op of
        I_AVG \<Rightarrow> single (ga_mean g)
      | I_COUNT \<Rightarrow> single (f_of_int (ga_groupCount g))
      | I_COUNT_VALUES \<Rightarrow> single (f_of_int (ga_groupCount g))
      | I_STDVAR \<Rightarrow> single (f_div (ga_value g) (f_of_int (ga_groupCount g)))
      | I_STDDEV \<Rightarrow> single (M_Sqrt lb (f_div (ga_value g) (f_of_int (ga_groupCount g))))
      | I_TOPK \<Rightarrow>
          Inr (map (\<lambda>s. bare_sample (sm_Metric s) (pt_V (sm_Point s))) (sort_by (\<lambda>a b. sample_Less b a) (ga_heap g)))
      | I_BOTTOMK \<Rightarrow>
          Inr (map (\<lambda>s. bare_sample (sm_Metric s) (pt_V (sm_Point s))) (sort_by (\<lambda>a b. sample_Greater b a) (ga_reverseHeap g)))
      | I_QUANTILE \<Rightarrow>
          ev_bind (lift_outcome (quantile (G_Conv lb) q (map (\<lambda>s. pt_V (sm_Point s)) (ga_heap g)))) single
      | _ \<Rightarrow> single (ga_value g))"

fun result_loop :: "promql_lib \<Rightarrow> item_type \<Rightarrow> float64 \<Rightarrow> groups \<Rightarrow> 64 word list \<Rightarrow> vector \<Rightarrow> vector ev" where
  "result_loop lb op q groups [] out = Inr out"
| "result_loop lb op q groups (key # ks) out =
     (case map_of groups key of
        None \<Rightarrow> result_loop lb op q groups ks out
      | Some g \<Rightarrow> ev_bind (group_result lb op q g) (\<lambda>vs. result_loop lb op q groups ks (out @ vs)))"

definition aggregation ::
  "promql_lib \<Rightarrow> item_type \<Rightarrow> string list \<Rightarrow> bool \<Rightarrow> agg_param \<Rightarrow> vector \<Rightarrow> vector ev" where
  "aggregation lb op grouping0 without param vec =
     (let run = (\<lambda>k q valueLabel grouping.
            ev_bind (agg_loop lb op without (sort grouping) valueLabel k vec []) (\<lambda>groups.
              result_loop lb op q groups (G_Range lb (map fst groups)) []))
      in if op = I_TOPK \<or> op = I_BOTTOMK then
           case param of
             ParamString _ \<Rightarrow> type_assertion
           | ParamFloat f \<Rightarrow>
               if \<not> convertibleToInt64 f then ev_errorf (''Scalar value '' @ format_v f @ '' overflows int64'')
               else let k = f_to_int (G_Conv lb) f
                    in if k < 1 then Inr [] else run k (f_zero False) '''' grouping0
         else if op = I_QUANTILE then
           case param of ParamString _ \<Rightarrow> type_assertion | ParamFloat q \<Rightarrow> run 0 q '''' grouping0
         else if op = I_COUNT_VALUES then
           case param of
             ParamFloat _ \<Rightarrow> type_assertion
           | ParamString l \<Rightarrow>
               if \<not> P_ValidLabelName lb l then ev_errorf (''invalid label name '' @ G_Quote lb l)
               else run 0 (f_zero False) l (if without then grouping0 else grouping0 @ [l])
         else run 0 (f_zero False) '''' grouping0)"


section \<open>A concrete library\<close>

text \<open>A small instance of the library functions, at which the hypotheses on them hold.\<close>

definition ex_hash :: "label list \<Rightarrow> 64 word" where
  "ex_hash ls = of_nat (length (concat (map (\<lambda>l. lbl_name l @ lbl_value l) ls)))"

definition ex_lib :: promql_lib where
  "ex_lib = \<lparr>
     L_Hash = ex_hash,
     L_HashForLabels = (\<lambda>ns ls. ex_hash (filter (\<lambda>l. lbl_name l \<in> set ns) ls)),
     L_HashWithoutLabels = (\<lambda>ns ls. ex_hash (filter (\<lambda>l. lbl_name l \<notin> set ns) ls)),
     L_MatchLabels = (\<lambda>on ns ls. filter (\<lambda>l. (lbl_name l \<in> set ns) = on) ls),
     L_Get = (\<lambda>ls n. case filter (\<lambda>l. lbl_name l = n) ls of [] \<Rightarrow> [] | l # _ \<Rightarrow> lbl_value l),
     L_Has = (\<lambda>ls n. \<exists>l \<in> set ls. lbl_name l = n),
     L_Del = (\<lambda>ns ls. filter (\<lambda>l. lbl_name l \<notin> set ns) ls),
     L_Set = (\<lambda>n v ls. filter (\<lambda>l. lbl_name l \<noteq> n) ls @ [\<lparr>lbl_name = n, lbl_value = v\<rparr>]),
     L_Compare = (\<lambda>a b. int (length a) - int (length b)),
     L_String = (\<lambda>ls. concat (map (\<lambda>l. lbl_name l @ lbl_value l) ls)),
     M_Pow = (\<lambda>a b. f_nan), M_Sqrt = (\<lambda>a. f_nan), M_Exp = (\<lambda>a. f_nan), M_Log = (\<lambda>a. f_nan),
     M_Log2 = (\<lambda>a. f_nan), M_Log10 = (\<lambda>a. f_nan),
     G_Range = rev, G_Conv = (\<lambda>v. 0), G_Quote = (\<lambda>s. s), G_FormatF = (\<lambda>v. []),
     P_ValidLabelName = (\<lambda>s. True), P_LabelNameRE = (\<lambda>s. True), G_ParseFloat = (\<lambda>s. None),
     R_Valid = (\<lambda>s. True), R_Expand = (\<lambda>r s t. None), P_ItemString = (\<lambda>i. [])\<rparr>"

definition ex_many :: vector_matching where
  "ex_many = \<lparr>vm_Card = CardManyToMany, vm_MatchingLabels = [], vm_On = False, vm_Include = []\<rparr>"

definition ex_sample :: "string \<Rightarrow> float64 \<Rightarrow> psample" where
  "ex_sample job v = bare_sample [\<lparr>lbl_name = ''job'', lbl_value = job\<rparr>] v"


section \<open>Set operations as filters\<close>

text \<open>
  The cached signatures are those of the label sets \<open>S\<close> as long as no two of them have the same hash.
\<close>

definition sig_coherent :: "promql_lib \<Rightarrow> vector_matching \<Rightarrow> label list set \<Rightarrow> enh \<Rightarrow> bool" where
  "sig_coherent lb m S enh \<longleftrightarrow>
     (\<forall>l \<in> S. \<forall>g. enh_sigf enh (L_Hash lb l) = Some g \<longrightarrow> g = signatureFunc lb (vm_On m) (vm_MatchingLabels m) l)"

lemma enh_signatureFunc_spec:
  assumes "inj_on (L_Hash lb) S" "sig_coherent lb m S enh" "l \<in> S"
  obtains enh' where "enh_signatureFunc lb (vm_On m) (vm_MatchingLabels m) enh l =
      (enh', signatureFunc lb (vm_On m) (vm_MatchingLabels m) l)" "sig_coherent lb m S enh'"
proof (cases "enh_sigf enh (L_Hash lb l)")
  case None
  let ?g = "signatureFunc lb (vm_On m) (vm_MatchingLabels m) l"
  have "sig_coherent lb m S (enh\<lparr>enh_sigf := (enh_sigf enh)(L_Hash lb l \<mapsto> ?g)\<rparr>)"
    using assms unfolding sig_coherent_def by (auto dest: inj_onD)
  with None show ?thesis by (intro that) (simp_all add: enh_signatureFunc_def Let_def)
next
  case (Some g)
  with assms(2,3) have "g = signatureFunc lb (vm_On m) (vm_MatchingLabels m) l" unfolding sig_coherent_def by blast
  with Some assms(2) show ?thesis by (intro that) (simp_all add: enh_signatureFunc_def)
qed

definition sig_of :: "promql_lib \<Rightarrow> vector_matching \<Rightarrow> psample \<Rightarrow> 64 word" where
  "sig_of lb m s = signatureFunc lb (vm_On m) (vm_MatchingLabels m) (sm_Metric s)"

lemma sigs_loop_spec:
  assumes "inj_on (L_Hash lb) S" "sig_coherent lb m S enh" "sm_Metric ` set ss \<subseteq> S"
  shows "\<exists>enh'. sigs_loop lb m enh ss sigs = (enh', sigs \<union> sig_of lb m ` set ss) \<and> sig_coherent lb m S enh'"
  using assms(2,3)
proof (induction ss arbitrary: enh sigs)
  case (Cons s ss)
  obtain enh1 where e: "enh_signatureFunc lb (vm_On m) (vm_MatchingLabels m) enh (sm_Metric s) = (enh1, sig_of lb m s)"
    "sig_coherent lb m S enh1"
    using enh_signatureFunc_spec [OF assms(1) Cons.prems(1), of "sm_Metric s"] Cons.prems(2) by (auto simp: sig_of_def)
  from Cons.IH [OF e(2), of "insert (sig_of lb m s) sigs"] Cons.prems(2) e(1) show ?case by auto
qed simp

lemma keep_loop_spec:
  assumes "inj_on (L_Hash lb) S" "sig_coherent lb m S enh" "sm_Metric ` set ss \<subseteq> S"
  shows "\<exists>enh'. keep_loop lb m present sigs enh ss out =
      (enh', out @ filter (\<lambda>s. (sig_of lb m s \<in> sigs) = present) ss) \<and> sig_coherent lb m S enh'"
  using assms(2,3)
proof (induction ss arbitrary: enh out)
  case (Cons s ss)
  obtain enh1 where e: "enh_signatureFunc lb (vm_On m) (vm_MatchingLabels m) enh (sm_Metric s) = (enh1, sig_of lb m s)"
    "sig_coherent lb m S enh1"
    using enh_signatureFunc_spec [OF assms(1) Cons.prems(1), of "sm_Metric s"] Cons.prems(2) by (auto simp: sig_of_def)
  let ?out = "if (sig_of lb m s \<in> sigs) = present then out @ [s] else out"
  from Cons.IH [OF e(2), of ?out] Cons.prems(2) e(1) show ?case by (auto simp: Let_def split: if_splits)
qed simp

text \<open>
  C23: the set operators.  When no two of the label sets involved have the same hash, \<open>and\<close>, \<open>or\<close> and
  \<open>unless\<close> keep exactly the samples that match, do not match or are added by signature, in the order
  of their operands, whatever earlier steps have left in the signature cache, which stays valid.
\<close>
theorem vector_set_operations:
  assumes "vm_Card m = CardManyToMany" "inj_on (L_Hash lb) S" "sig_coherent lb m S enh"
    "sm_Metric ` set lhs \<subseteq> S" "sm_Metric ` set rhs \<subseteq> S"
  shows "\<exists>e1 e2 e3.
    VectorAnd lb lhs rhs m enh = Inr (e1, filter (\<lambda>s. \<exists>r \<in> set rhs. sig_of lb m r = sig_of lb m s) lhs) \<and>
    VectorOr lb lhs rhs m enh = Inr (e2, lhs @ filter (\<lambda>s. \<forall>l \<in> set lhs. sig_of lb m l \<noteq> sig_of lb m s) rhs) \<and>
    VectorUnless lb lhs rhs m enh = Inr (e3, filter (\<lambda>s. \<forall>r \<in> set rhs. sig_of lb m r \<noteq> sig_of lb m s) lhs) \<and>
    sig_coherent lb m S e1 \<and> sig_coherent lb m S e2 \<and> sig_coherent lb m S e3"
proof -
  obtain er where r: "sigs_loop lb m enh rhs {} = (er, sig_of lb m ` set rhs)" "sig_coherent lb m S er"
    using sigs_loop_spec [OF assms(2,3,5), of "{}"] by auto
  obtain el where l: "sigs_loop lb m enh lhs {} = (el, sig_of lb m ` set lhs)" "sig_coherent lb m S el"
    using sigs_loop_spec [OF assms(2,3,4), of "{}"] by auto
  have eqs: "(\<lambda>s. (sig_of lb m s \<in> sig_of lb m ` set rhs) = True) = (\<lambda>s. \<exists>r \<in> set rhs. sig_of lb m r = sig_of lb m s)"
    "(\<lambda>s. (sig_of lb m s \<in> sig_of lb m ` set xs) = False) = (\<lambda>s. \<forall>x \<in> set xs. sig_of lb m x \<noteq> sig_of lb m s)" for xs
    by (auto simp: fun_eq_iff image_iff) (metis+)
  from keep_loop_spec [OF assms(2) r(2) assms(4), of True "sig_of lb m ` set rhs" "[]"]
    keep_loop_spec [OF assms(2) l(2) assms(5), of False "sig_of lb m ` set lhs" lhs]
    keep_loop_spec [OF assms(2) r(2) assms(4), of False "sig_of lb m ` set rhs" "[]"]
  show ?thesis
    unfolding VectorAnd_def VectorOr_def VectorUnless_def eqs using assms(1) by (auto simp: r(1) l(1))
qed


theorem vector_set_operations_witness:
  "\<exists>e1 e2 e3.
    VectorAnd ex_lib [ex_sample ''a'' 1, ex_sample ''bb'' 2] [ex_sample ''a'' 3] ex_many new_enh = Inr (e1, [ex_sample ''a'' 1]) \<and>
    VectorOr ex_lib [ex_sample ''a'' 1, ex_sample ''bb'' 2] [ex_sample ''a'' 3] ex_many new_enh =
      Inr (e2, [ex_sample ''a'' 1, ex_sample ''bb'' 2]) \<and>
    VectorUnless ex_lib [ex_sample ''a'' 1, ex_sample ''bb'' 2] [ex_sample ''a'' 3] ex_many new_enh = Inr (e3, [ex_sample ''bb'' 2])"
proof -
  let ?S = "{[\<lparr>lbl_name = ''job'', lbl_value = ''a''\<rparr>], [\<lparr>lbl_name = ''job'', lbl_value = ''bb''\<rparr>]}"
  have "inj_on (L_Hash ex_lib) ?S" by (simp add: inj_on_def ex_lib_def ex_hash_def)
  moreover have "vm_Card ex_many = CardManyToMany" "sig_coherent ex_lib ex_many ?S new_enh"
    by (simp_all add: ex_many_def sig_coherent_def new_enh_def)
  ultimately show ?thesis
    using vector_set_operations [of ex_many ex_lib ?S new_enh "[ex_sample ''a'' 1, ex_sample ''bb'' 2]" "[ex_sample ''a'' 3]"]
    by (simp add: ex_sample_def bare_sample_def sig_of_def signatureFunc_def ex_many_def ex_lib_def ex_hash_def) blast
qed


section \<open>Aggregation by groups\<close>

text \<open>The state of one group after its samples have been added in order.\<close>

fun fold_group :: "promql_lib \<Rightarrow> item_type \<Rightarrow> int \<Rightarrow> vector \<Rightarrow> groupedAggregation \<Rightarrow> groupedAggregation ev" where
  "fold_group lb op k [] g = Inr g"
| "fold_group lb op k (s # ss) g = ev_bind (add_to_group lb op k s g) (fold_group lb op k ss)"

definition group_of :: "promql_lib \<Rightarrow> item_type \<Rightarrow> bool \<Rightarrow> string list \<Rightarrow> string \<Rightarrow> int \<Rightarrow> vector \<Rightarrow> groupedAggregation ev" where
  "group_of lb op without grouping valueLabel k ss =
     fold_group lb op k (tl ss) (new_group lb op without grouping (agg_metric lb op valueLabel (hd ss)) (hd ss))"

definition key_of :: "promql_lib \<Rightarrow> item_type \<Rightarrow> bool \<Rightarrow> string list \<Rightarrow> string \<Rightarrow> psample \<Rightarrow> 64 word" where
  "key_of lb op without grouping valueLabel s = group_key lb without grouping (agg_metric lb op valueLabel s)"

lemma fold_group_append:
  "fold_group lb op k (xs @ ys) g = ev_bind (fold_group lb op k xs g) (fold_group lb op k ys)"
  by (induction xs arbitrary: g) (simp_all add: ev_bind_def split: sum.splits)

text \<open>The groups that have been formed from the samples \<open>done_ss\<close> of the vector.\<close>

definition groups_of :: "promql_lib \<Rightarrow> item_type \<Rightarrow> bool \<Rightarrow> string list \<Rightarrow> string \<Rightarrow> int \<Rightarrow> vector \<Rightarrow> groups \<Rightarrow> bool" where
  "groups_of lb op without grouping valueLabel k done_ss groups \<longleftrightarrow>
     distinct (map fst groups) \<and>
     fst ` set groups = key_of lb op without grouping valueLabel ` set done_ss \<and>
     (\<forall>(key, g) \<in> set groups.
        group_of lb op without grouping valueLabel k (filter (\<lambda>s. key_of lb op without grouping valueLabel s = key) done_ss) = Inr g)"

lemma groups_of_new:
  assumes "groups_of lb op without grouping valueLabel k xs groups"
    and key: "key = key_of lb op without grouping valueLabel s" and "map_of groups key = None"
  shows "groups_of lb op without grouping valueLabel k (xs @ [s])
     (groups @ [(key, new_group lb op without grouping (agg_metric lb op valueLabel s) s)])"
proof -
  let ?key = "key_of lb op without grouping valueLabel"
  have nin: "key \<notin> ?key ` set xs" using assms by (auto simp: groups_of_def map_of_eq_None_iff)
  then have "filter (\<lambda>x. ?key x = key) xs = []" by (auto simp: filter_empty_conv)
  moreover have "key' \<noteq> key" if "(key', g) \<in> set groups" for key' g
    using that assms(1) nin by (force simp: groups_of_def)
  ultimately show ?thesis
    using assms nin by (auto simp: groups_of_def group_of_def)
qed

lemma groups_of_old:
  assumes "groups_of lb op without grouping valueLabel k xs groups"
    and key: "key = key_of lb op without grouping valueLabel s" and "map_of groups key = Some g"
    and add: "add_to_group lb op k s g = Inr g'"
  shows "groups_of lb op without grouping valueLabel k (xs @ [s])
     (map (\<lambda>(k', x). (k', if k' = key then g' else x)) groups)"
proof -
  let ?key = "key_of lb op without grouping valueLabel" and ?F = "\<lambda>key xs. filter (\<lambda>x. key_of lb op without grouping valueLabel x = key) xs"
  have g: "(key, g) \<in> set groups" using assms(3) by (rule map_of_SomeD)
  then have nonempty: "?F key xs \<noteq> []" using assms(1) by (force simp: groups_of_def filter_empty_conv)
  have "group_of lb op without grouping valueLabel k (?F key xs) = Inr g" using assms(1) g by (auto simp: groups_of_def)
  then have upd: "group_of lb op without grouping valueLabel k (?F key xs @ [s]) = Inr g'"
    using nonempty add by (simp add: group_of_def fold_group_append)
  have dist: "distinct (map fst groups)" using assms(1) by (simp add: groups_of_def)
  have fst_eq: "map fst (map (\<lambda>(k', x). (k', if k' = key then g' else x)) groups) = map fst groups" by auto
  have "\<forall>(k', x) \<in> set (map (\<lambda>(k', x). (k', if k' = key then g' else x)) groups).
      group_of lb op without grouping valueLabel k (?F k' (xs @ [s])) = Inr x"
    using assms(1) upd key by (auto simp: groups_of_def)
  moreover have "fst ` set (map (\<lambda>(k', x). (k', if k' = key then g' else x)) groups) = ?key ` set (xs @ [s])"
  proof -
    have "fst ` set (map (\<lambda>(k', x). (k', if k' = key then g' else x)) groups) = fst ` set groups"
      using arg_cong [OF fst_eq, of set] by (simp only: set_map)
    moreover have "key \<in> fst ` set groups" using g by (metis fst_conv imageI)
    moreover have "fst ` set groups = ?key ` set xs" using assms(1) by (simp add: groups_of_def)
    ultimately show ?thesis using key by auto
  qed
  ultimately show ?thesis unfolding groups_of_def fst_eq using dist by blast
qed

lemma agg_loop_groups:
  "agg_loop lb op without grouping valueLabel k ss groups = Inr groups' \<Longrightarrow>
   groups_of lb op without grouping valueLabel k xs groups \<Longrightarrow>
   groups_of lb op without grouping valueLabel k (xs @ ss) groups'"
proof (induction ss arbitrary: xs groups)
  case (Cons s ss)
  let ?key = "key_of lb op without grouping valueLabel s"
  show ?case
  proof (cases "map_of groups ?key")
    case None
    from Cons.IH [OF _ groups_of_new [OF Cons.prems(2) refl None]] Cons.prems(1) None show ?thesis
      by (simp add: Let_def key_of_def)
  next
    case (Some g)
    with Cons.prems(1) obtain g' where "add_to_group lb op k s g = Inr g'"
      "agg_loop lb op without grouping valueLabel k ss (map (\<lambda>(k', x). (k', if k' = ?key then g' else x)) groups) = Inr groups'"
      by (auto simp: Let_def key_of_def ev_bind_Inr_iff)
    from Cons.IH [OF this(2) groups_of_old [OF Cons.prems(2) refl Some this(1)]] show ?thesis by simp
  qed
qed simp


definition simple_aggregations :: "item_type set" where
  "simple_aggregations = {I_SUM, I_AVG, I_MAX, I_MIN, I_COUNT, I_STDVAR, I_STDDEV}"

lemma add_to_group_simple: "op \<in> simple_aggregations \<Longrightarrow> \<exists>g'. add_to_group lb op k s g = Inr g'"
  by (auto simp: simple_aggregations_def add_to_group_def Let_def)

lemma agg_loop_simple:
  assumes "op \<in> simple_aggregations"
  shows "\<exists>groups'. agg_loop lb op without grouping valueLabel k ss groups = Inr groups'"
proof (induction ss arbitrary: groups)
  case (Cons s ss)
  show ?case
  proof (cases "map_of groups (group_key lb without grouping (agg_metric lb op valueLabel s))")
    case (Some g)
    obtain g' where "add_to_group lb op k s g = Inr g'" using add_to_group_simple [OF assms] by blast
    with Some Cons.IH show ?thesis by (simp add: Let_def)
  qed (use Cons.IH in \<open>simp add: Let_def\<close>)
qed simp

lemma group_result_simple: "op \<in> simple_aggregations \<Longrightarrow> \<exists>v. group_result lb op q g = Inr [bare_sample (ga_labels g) v]"
  by (auto simp: simple_aggregations_def group_result_def Let_def)

lemma result_loop_simple:
  assumes "op \<in> simple_aggregations" "set ks \<subseteq> fst ` set groups"
  shows "\<exists>vs. result_loop lb op q groups ks out = Inr (out @ vs) \<and>
    list_all2 (\<lambda>key s. \<exists>g. (key, g) \<in> set groups \<and> group_result lb op q g = Inr [s]) ks vs"
  using assms(2)
proof (induction ks arbitrary: out)
  case (Cons key ks)
  then obtain g where g: "map_of groups key = Some g" "(key, g) \<in> set groups"
    by (metis (no_types, opaque_lifting) list.set_intros(1) map_of_SomeD map_of_eq_None_iff not_None_eq subsetD)
  obtain v where v: "group_result lb op q g = Inr [bare_sample (ga_labels g) v]"
    using group_result_simple [OF assms(1)] by blast
  from Cons.IH [of "out @ [bare_sample (ga_labels g) v]"] Cons.prems obtain vs
    where "result_loop lb op q groups ks (out @ [bare_sample (ga_labels g) v]) = Inr ((out @ [bare_sample (ga_labels g) v]) @ vs)"
      "list_all2 (\<lambda>key s. \<exists>g. (key, g) \<in> set groups \<and> group_result lb op q g = Inr [s]) ks vs" by auto
  with g v show ?case by (intro exI [of _ "bare_sample (ga_labels g) v # vs"]) auto
qed simp



end
