(* ===== verification/Promql_Functions.thy ===== *)
theory Promql_Functions
  imports Promql_Ops
begin

text \<open>
  The syntax tree of PromQL as the parser delivers it, and the functions of PromQL,
  \<open>pkg/promql/functions.go\<close>.

  A vector selector carries the series it selects: the outcome of expanding the series set that
  \<open>populateSeries\<close> has stored in it.  Selectors and calls have a number that identifies the node.
  Durations are in nanoseconds.
\<close>


section \<open>Expressions\<close>

record sseries =
  ss_Labels :: "label list"
  ss_Points :: "point list"

record vsel =
  vs_Id :: nat
  vs_Offset :: int
  vs_LabelMatchers :: "matcher list"
  vs_Series :: "sseries list ev"

datatype value_type = VT_None | VT_Vector | VT_Scalar | VT_Matrix | VT_String

record pfunction =
  fn_Name :: string
  fn_ReturnType :: value_type

datatype expr =
    E_Number float64
  | E_String string
  | E_Paren expr
  | E_Unary item_type expr
  | E_Binary item_type expr expr vector_matching bool
  | E_Vector vsel
  | E_Matrix vsel int
  | E_Subquery expr int int int
  | E_Aggregate item_type expr "expr option" "string list" bool
  | E_Call nat pfunction "expr list"

definition durationMilliseconds :: "int \<Rightarrow> int" where
  "durationMilliseconds d = go_quot d 1000000"

type_synonym function_call = "promql_lib \<Rightarrow> pvalue list \<Rightarrow> expr list \<Rightarrow> enh \<Rightarrow> (enh \<times> vector) ev"

text \<open>Type assertions and indexing of the arguments.\<close>

definition arg_vector :: "pvalue list \<Rightarrow> nat \<Rightarrow> vector ev" where
  "arg_vector vals i =
     (if i < length vals then (case vals ! i of VVector v \<Rightarrow> Inr v | _ \<Rightarrow> type_assertion) else index_error)"

definition arg_scalar :: "pvalue list \<Rightarrow> nat \<Rightarrow> float64 ev" where
  "arg_scalar vals i = ev_bind (arg_vector vals i) first_V"

definition arg_points :: "pvalue list \<Rightarrow> nat \<Rightarrow> point list ev" where
  "arg_points vals i =
     (if i < length vals
      then (case vals ! i of VMatrix (s # _) \<Rightarrow> Inr (sr_Points s) | VMatrix [] \<Rightarrow> index_error | _ \<Rightarrow> type_assertion)
      else index_error)"

definition arg_string :: "expr list \<Rightarrow> nat \<Rightarrow> string ev" where
  "arg_string args i =
     (if i < length args then (case args ! i of E_String s \<Rightarrow> Inr s | _ \<Rightarrow> type_assertion) else index_error)"

definition plain_sample :: "float64 \<Rightarrow> psample" where
  "plain_sample v = \<lparr>sm_Point = \<lparr>pt_T = 0, pt_V = v\<rparr>, sm_Metric = []\<rparr>"

definition one_sample :: "enh \<Rightarrow> float64 \<Rightarrow> (enh \<times> vector) ev" where
  "one_sample enh v = Inr (enh, [plain_sample v])"

definition no_sample :: "enh \<Rightarrow> (enh \<times> vector) ev" where
  "no_sample enh = Inr (enh, [])"


section \<open>Rates\<close>

definition funcTime :: function_call where
  "funcTime lb vals args enh = one_sample enh (f_div (f_of_int (enh_ts enh)) (f_of_int 1000))"

text \<open>The corrections of a counter and its last value.\<close>

fun counter_loop :: "bool \<Rightarrow> point list \<Rightarrow> float64 \<Rightarrow> float64 \<Rightarrow> float64 \<times> float64" where
  "counter_loop isCounter [] correction lastValue = (correction, lastValue)"
| "counter_loop isCounter (p # ps) correction lastValue =
     counter_loop isCounter ps
       (if isCounter \<and> f_lt (pt_V p) lastValue then f_add correction lastValue else correction) (pt_V p)"

text \<open>The constant \<open>1.1\<close>.\<close>

definition f_1_1 :: float64 where "f_1_1 = f_make False 0x3FF199999999999A"

definition extrapolate :: "point list \<Rightarrow> int \<Rightarrow> int \<Rightarrow> bool \<Rightarrow> float64" where
  "extrapolate ps rangeStart rangeEnd isCounter =
     (let (correction, lastValue) = counter_loop isCounter ps (f_zero False) (f_zero False);
          first = hd ps; final = last ps; thousand = f_of_int 1000;
          resultValue = f_add (f_sub lastValue (pt_V first)) correction;
          toStart0 = f_div (f_of_int (wrap64 (pt_T first - rangeStart))) thousand;
          toEnd = f_div (f_of_int (wrap64 (rangeEnd - pt_T final))) thousand;
          sampled = f_div (f_of_int (wrap64 (pt_T final - pt_T first))) thousand;
          avg = f_div sampled (f_of_int (int (length ps) - 1));
          toZero = f_mul sampled (f_div (pt_V first) resultValue);
          toStart = (if isCounter \<and> f_lt (f_zero False) resultValue \<and> f_le (f_zero False) (pt_V first) \<and> f_lt toZero toStart0
                     then toZero else toStart0);
          threshold = f_mul avg f_1_1;
          half = f_div avg (f_of_int 2);
          interval1 = f_add sampled (if f_lt toStart threshold then toStart else half);
          interval2 = f_add interval1 (if f_lt toEnd threshold then toEnd else half)
      in f_mul resultValue (f_div interval2 sampled))"

text \<open>\<open>time.Duration.Seconds\<close>\<close>

definition duration_seconds :: "int \<Rightarrow> float64" where
  "duration_seconds d =
     f_add (f_of_int (go_quot d 1000000000))
       (f_div (f_of_int (d - go_quot d 1000000000 * 1000000000)) (f_of_int 1000000000))"

definition extrapolatedRate :: "bool \<Rightarrow> bool \<Rightarrow> function_call" where
  "extrapolatedRate isCounter isRate lb vals args enh =
     (case args of
        E_Matrix vs rng # _ \<Rightarrow>
          ev_bind (arg_points vals 0) (\<lambda>ps.
            let rangeStart = wrap64 (enh_ts enh - durationMilliseconds (wrap64 (rng + vs_Offset vs)));
                rangeEnd = wrap64 (enh_ts enh - durationMilliseconds (vs_Offset vs))
            in if length ps < 2 then no_sample enh
               else let v = extrapolate ps rangeStart rangeEnd isCounter
                    in one_sample enh (if isRate then f_div v (duration_seconds rng) else v))
      | [] \<Rightarrow> index_error
      | _ \<Rightarrow> type_assertion)"

definition funcDelta :: function_call where "funcDelta = extrapolatedRate False False"
definition funcRate :: function_call where "funcRate = extrapolatedRate True True"
definition funcIncrease :: function_call where "funcIncrease = extrapolatedRate True False"

definition instantValue :: "bool \<Rightarrow> function_call" where
  "instantValue isRate lb vals args enh =
     ev_bind (arg_points vals 0) (\<lambda>ps.
       if length ps < 2 then no_sample enh
       else let lastSample = ps ! (length ps - 1); previousSample = ps ! (length ps - 2);
                v = (if isRate \<and> f_lt (pt_V lastSample) (pt_V previousSample) then pt_V lastSample
                     else f_sub (pt_V lastSample) (pt_V previousSample));
                sampledInterval = wrap64 (pt_T lastSample - pt_T previousSample)
            in if sampledInterval = 0 then no_sample enh
               else one_sample enh (if isRate then f_div v (f_div (f_of_int sampledInterval) (f_of_int 1000)) else v))"

definition funcIrate :: function_call where "funcIrate = instantValue True"
definition funcIdelta :: function_call where "funcIdelta = instantValue False"

definition calcTrendValue :: "nat \<Rightarrow> float64 \<Rightarrow> float64 \<Rightarrow> float64 \<Rightarrow> float64 \<Rightarrow> float64" where
  "calcTrendValue i tf s0 s1 b =
     (if i = 0 then b else f_add (f_mul tf (f_sub s1 s0)) (f_mul (f_sub f_one tf) b))"

fun smooth_loop :: "float64 \<Rightarrow> float64 \<Rightarrow> nat \<Rightarrow> point list \<Rightarrow> float64 \<Rightarrow> float64 \<Rightarrow> float64 \<Rightarrow> float64" where
  "smooth_loop sf tf i [] s0 s1 b = s1"
| "smooth_loop sf tf i (p # ps) s0 s1 b =
     (let x = f_mul sf (pt_V p);
          b' = calcTrendValue (i - 1) tf s0 s1 b;
          y = f_mul (f_sub f_one sf) (f_add s1 b')
      in smooth_loop sf tf (i + 1) ps s1 (f_add x y) b')"

definition funcHoltWinters :: function_call where
  "funcHoltWinters lb vals args enh =
     ev_bind (arg_points vals 0) (\<lambda>ps.
     ev_bind (arg_scalar vals 1) (\<lambda>sf.
     ev_bind (arg_scalar vals 2) (\<lambda>tf.
       if f_le sf (f_zero False) \<or> f_le f_one sf
       then ev_errorf (''invalid smoothing factor. Expected: 0 < sf < 1, got: '' @ G_FormatF lb sf)
       else if f_le tf (f_zero False) \<or> f_le f_one tf
       then ev_errorf (''invalid trend factor. Expected: 0 < tf < 1, got: '' @ G_FormatF lb tf)
       else if length ps < 2 then no_sample enh
       else one_sample enh
              (smooth_loop sf tf 1 (tl ps) (f_zero False) (pt_V (ps ! 0)) (f_sub (pt_V (ps ! 1)) (pt_V (ps ! 0)))))))"


section \<open>Functions of instant vectors\<close>

text \<open>Every element gets a new value and loses its metric name, through the cache.\<close>

fun map_drop :: "promql_lib \<Rightarrow> (psample \<Rightarrow> float64) \<Rightarrow> enh \<Rightarrow> vector \<Rightarrow> vector \<Rightarrow> enh \<times> vector" where
  "map_drop lb f enh [] out = (enh, out)"
| "map_drop lb f enh (el # els) out =
     (let (enh', metric) = enh_dropMetricName lb enh (sm_Metric el)
      in map_drop lb f enh' els (out @ [bare_sample metric (f el)]))"

definition funcSort :: function_call where
  "funcSort lb vals args enh = ev_bind (arg_vector vals 0) (\<lambda>v. Inr (enh, sort_by (\<lambda>a b. sample_Greater b a) v))"

definition funcSortDesc :: function_call where
  "funcSortDesc lb vals args enh = ev_bind (arg_vector vals 0) (\<lambda>v. Inr (enh, sort_by (\<lambda>a b. sample_Less b a) v))"

definition funcClampMax :: function_call where
  "funcClampMax lb vals args enh =
     ev_bind (arg_vector vals 0) (\<lambda>v. ev_bind (arg_scalar vals 1) (\<lambda>mx.
       Inr (map_drop lb (\<lambda>el. f_min mx (pt_V (sm_Point el))) enh v [])))"

definition funcClampMin :: function_call where
  "funcClampMin lb vals args enh =
     ev_bind (arg_vector vals 0) (\<lambda>v. ev_bind (arg_scalar vals 1) (\<lambda>mn.
       Inr (map_drop lb (\<lambda>el. f_max mn (pt_V (sm_Point el))) enh v [])))"

definition f_half :: float64 where "f_half = f_make False 0x3FE0000000000000"

definition funcRound :: function_call where
  "funcRound lb vals args enh =
     ev_bind (arg_vector vals 0) (\<lambda>v. ev_bind (if 2 \<le> length args then arg_scalar vals 1 else Inr f_one) (\<lambda>toNearest.
       let inverse = f_div f_one toNearest
       in Inr (map_drop lb (\<lambda>el. f_div (f_floor (f_add (f_mul (pt_V (sm_Point el)) inverse) f_half)) inverse) enh v [])))"

definition funcScalar :: function_call where
  "funcScalar lb vals args enh =
     ev_bind (arg_vector vals 0) (\<lambda>v. case v of [s] \<Rightarrow> one_sample enh (pt_V (sm_Point s)) | _ \<Rightarrow> one_sample enh f_nan)"

definition simpleFunc :: "(float64 \<Rightarrow> float64) \<Rightarrow> function_call" where
  "simpleFunc f lb vals args enh =
     ev_bind (arg_vector vals 0) (\<lambda>v. Inr (map_drop lb (\<lambda>el. f (pt_V (sm_Point el))) enh v []))"

definition f_ceil :: "float64 \<Rightarrow> float64" where "f_ceil a = f_neg (f_floor (f_neg a))"

definition funcAbs :: function_call where "funcAbs = simpleFunc f_abs"
definition funcCeil :: function_call where "funcCeil = simpleFunc f_ceil"
definition funcFloor :: function_call where "funcFloor = simpleFunc f_floor"
definition funcExp :: function_call where "funcExp lb = simpleFunc (M_Exp lb) lb"
definition funcSqrt :: function_call where "funcSqrt lb = simpleFunc (M_Sqrt lb) lb"
definition funcLn :: function_call where "funcLn lb = simpleFunc (M_Log lb) lb"
definition funcLog2 :: function_call where "funcLog2 lb = simpleFunc (M_Log2 lb) lb"
definition funcLog10 :: function_call where "funcLog10 lb = simpleFunc (M_Log10 lb) lb"

definition funcTimestamp :: function_call where
  "funcTimestamp lb vals args enh =
     ev_bind (arg_vector vals 0) (\<lambda>v.
       Inr (map_drop lb (\<lambda>el. f_div (f_of_int (pt_T (sm_Point el))) (f_of_int 1000)) enh v []))"

definition funcVector :: function_call where
  "funcVector lb vals args enh = ev_bind (arg_scalar vals 0) (one_sample enh)"

text \<open>The labels that the matchers of a selector determine.\<close>

fun absent_loop :: "promql_lib \<Rightarrow> matcher list \<Rightarrow> label list \<Rightarrow> string list \<Rightarrow> label list \<times> string list" where
  "absent_loop lb [] m empties = (m, empties)"
| "absent_loop lb (ma # mas) m empties =
     (if mt_Name ma = MetricNameLabelName then absent_loop lb mas m empties
      else if mt_Type ma = MatchEqual \<and> \<not> L_Has lb m (mt_Name ma)
      then absent_loop lb mas (L_Set lb (mt_Name ma) (mt_Value ma) m) empties
      else absent_loop lb mas m (empties @ [mt_Name ma]))"

definition createLabelsForAbsentFunction :: "promql_lib \<Rightarrow> expr \<Rightarrow> label list" where
  "createLabelsForAbsentFunction lb e =
     (let of_matchers = (\<lambda>lm. let (m, empties) = absent_loop lb lm [] [] in fold (\<lambda>v m. L_Del lb [v] m) empties m)
      in case e of E_Vector vs \<Rightarrow> of_matchers (vs_LabelMatchers vs)
         | E_Matrix vs _ \<Rightarrow> of_matchers (vs_LabelMatchers vs)
         | _ \<Rightarrow> [])"

definition funcAbsent :: function_call where
  "funcAbsent lb vals args enh =
     ev_bind (arg_vector vals 0) (\<lambda>v.
       if v \<noteq> [] then no_sample enh
       else case args of
              [] \<Rightarrow> index_error
            | a # _ \<Rightarrow> Inr (enh, [bare_sample (createLabelsForAbsentFunction lb a) f_one]))"

text \<open>The calendar functions; a time is in nanoseconds since the epoch.\<close>

definition dateWrapper :: "(int \<Rightarrow> int) \<Rightarrow> function_call" where
  "dateWrapper f lb vals args enh =
     (if vals = [] then one_sample enh (f_of_int (f (go_quot (enh_ts enh) 1000 * 1000000000)))
      else ev_bind (arg_vector vals 0) (\<lambda>v.
        Inr (map_drop lb (\<lambda>el. f_of_int (f (f_to_int (G_Conv lb) (pt_V (sm_Point el)) * 1000000000))) enh v [])))"

definition funcDaysInMonth :: function_call where
  "funcDaysInMonth = dateWrapper (\<lambda>t.
     let c = civil_of t in 32 - c_day (civil_of ((day_number (c_year c) (c_month c) 32 - 719162) * 86400 * 1000000000)))"

definition funcDayOfMonth :: function_call where "funcDayOfMonth = dateWrapper (\<lambda>t. c_day (civil_of t))"
definition funcDayOfWeek :: function_call where
  "funcDayOfWeek = dateWrapper (\<lambda>t. (t div (86400 * 1000000000) + 4) mod 7)"
definition funcHour :: function_call where "funcHour = dateWrapper (\<lambda>t. c_sec (civil_of t) div 3600)"
definition funcMinute :: function_call where "funcMinute = dateWrapper (\<lambda>t. c_sec (civil_of t) mod 3600 div 60)"
definition funcMonth :: function_call where "funcMonth = dateWrapper (\<lambda>t. int (c_month (civil_of t)))"
definition funcYear :: function_call where "funcYear = dateWrapper (\<lambda>t. c_year (civil_of t))"


section \<open>Functions of range vectors\<close>

definition aggrOverTime :: "(point list \<Rightarrow> float64 ev) \<Rightarrow> function_call" where
  "aggrOverTime aggrFn lb vals args enh =
     ev_bind (arg_points vals 0) (\<lambda>ps. ev_bind (aggrFn ps) (one_sample enh))"

fun mean_loop :: "point list \<Rightarrow> float64 \<Rightarrow> float64 \<Rightarrow> float64" where
  "mean_loop [] mean cnt = mean"
| "mean_loop (p # ps) mean cnt =
     (let cnt' = f_add cnt f_one in mean_loop ps (f_add mean (f_div (f_sub (pt_V p) mean) cnt')) cnt')"

definition funcAvgOverTime :: function_call where
  "funcAvgOverTime = aggrOverTime (\<lambda>ps. Inr (mean_loop ps (f_zero False) (f_zero False)))"

definition funcCountOverTime :: function_call where
  "funcCountOverTime = aggrOverTime (\<lambda>ps. Inr (f_of_int (int (length ps))))"

text \<open>The first value or NaN is replaced by every better one.\<close>

definition best_of :: "(float64 \<Rightarrow> float64 \<Rightarrow> bool) \<Rightarrow> point list \<Rightarrow> float64 ev" where
  "best_of better ps =
     (case ps of
        [] \<Rightarrow> index_error
      | p # _ \<Rightarrow> Inr (fold (\<lambda>q best. if better (pt_V q) best \<or> f_is_nan best then pt_V q else best) ps (pt_V p)))"

definition funcMaxOverTime :: function_call where "funcMaxOverTime = aggrOverTime (best_of (\<lambda>v best. f_lt best v))"
definition funcMinOverTime :: function_call where "funcMinOverTime = aggrOverTime (best_of f_lt)"

definition funcSumOverTime :: function_call where
  "funcSumOverTime = aggrOverTime (\<lambda>ps. Inr (fold (\<lambda>p s. f_add s (pt_V p)) ps (f_zero False)))"

definition funcQuantileOverTime :: function_call where
  "funcQuantileOverTime lb vals args enh =
     ev_bind (arg_scalar vals 0) (\<lambda>q. ev_bind (arg_points vals 1) (\<lambda>ps.
     ev_bind (lift_outcome (quantile (G_Conv lb) q (map pt_V ps))) (one_sample enh)))"

fun deviation_loop :: "point list \<Rightarrow> float64 \<Rightarrow> float64 \<Rightarrow> float64 \<Rightarrow> float64 \<times> float64" where
  "deviation_loop [] aux cnt mean = (aux, cnt)"
| "deviation_loop (p # ps) aux cnt mean =
     (let cnt' = f_add cnt f_one; delta = f_sub (pt_V p) mean; mean' = f_add mean (f_div delta cnt')
      in deviation_loop ps (f_add aux (f_mul delta (f_sub (pt_V p) mean'))) cnt' mean')"

definition variance :: "point list \<Rightarrow> float64" where
  "variance ps = (let (aux, cnt) = deviation_loop ps (f_zero False) (f_zero False) (f_zero False) in f_div aux cnt)"

definition funcStddevOverTime :: function_call where
  "funcStddevOverTime lb = aggrOverTime (\<lambda>ps. Inr (M_Sqrt lb (variance ps))) lb"

definition funcStdvarOverTime :: function_call where
  "funcStdvarOverTime = aggrOverTime (\<lambda>ps. Inr (variance ps))"

definition funcAbsentOverTime :: function_call where
  "funcAbsentOverTime lb vals args enh = one_sample enh f_one"

fun regression_loop ::
  "int \<Rightarrow> point list \<Rightarrow> float64 \<times> float64 \<times> float64 \<times> float64 \<times> float64 \<Rightarrow> float64 \<times> float64 \<times> float64 \<times> float64 \<times> float64" where
  "regression_loop t0 [] acc = acc"
| "regression_loop t0 (p # ps) (n, sumX, sumY, sumXY, sumX2) =
     (let x = f_div (f_of_int (wrap64 (pt_T p - t0))) (f_of_int 1000)
      in regression_loop t0 ps
           (f_add n f_one, f_add sumX x, f_add sumY (pt_V p), f_add sumXY (f_mul x (pt_V p)), f_add sumX2 (f_mul x x)))"

definition linearRegression :: "point list \<Rightarrow> int \<Rightarrow> float64 \<times> float64" where
  "linearRegression samples interceptTime =
     (let z = f_zero False;
          (n, sumX, sumY, sumXY, sumX2) = regression_loop interceptTime samples (z, z, z, z, z);
          covXY = f_sub sumXY (f_div (f_mul sumX sumY) n);
          varX = f_sub sumX2 (f_div (f_mul sumX sumX) n);
          slope = f_div covXY varX
      in (slope, f_sub (f_div sumY n) (f_div (f_mul slope sumX) n)))"

definition funcDeriv :: function_call where
  "funcDeriv lb vals args enh =
     ev_bind (arg_points vals 0) (\<lambda>ps.
       if length ps < 2 then no_sample enh else one_sample enh (fst (linearRegression ps (pt_T (hd ps)))))"

definition funcPredictLinear :: function_call where
  "funcPredictLinear lb vals args enh =
     ev_bind (arg_points vals 0) (\<lambda>ps. ev_bind (arg_scalar vals 1) (\<lambda>duration.
       if length ps < 2 then no_sample enh
       else let (slope, intercept) = linearRegression ps (enh_ts enh)
            in one_sample enh (f_add (f_mul slope duration) intercept)))"

text \<open>The number of changes between neighbours.\<close>

fun count_loop :: "(float64 \<Rightarrow> float64 \<Rightarrow> bool) \<Rightarrow> float64 \<Rightarrow> point list \<Rightarrow> nat \<Rightarrow> nat" where
  "count_loop P prev [] n = n"
| "count_loop P prev (p # ps) n = count_loop P (pt_V p) ps (if P (pt_V p) prev then n + 1 else n)"

definition count_neighbours :: "(float64 \<Rightarrow> float64 \<Rightarrow> bool) \<Rightarrow> point list \<Rightarrow> float64 ev" where
  "count_neighbours P ps =
     (case ps of [] \<Rightarrow> index_error | p # qs \<Rightarrow> Inr (f_of_int (int (count_loop P (pt_V p) qs 0))))"

definition funcResets :: function_call where "funcResets = aggrOverTime (count_neighbours f_lt)"

definition funcChanges :: function_call where
  "funcChanges = aggrOverTime (count_neighbours (\<lambda>current prev. f_ne current prev \<and> \<not> (f_is_nan current \<and> f_is_nan prev)))"



section \<open>Histograms and labels\<close>

definition excludedLabels :: "string list" where
  "excludedLabels = [MetricNameLabelName, ''le'']"

definition add_bucket :: "64 word \<Rightarrow> bucket \<Rightarrow> (64 word \<times> metricWithBuckets) list \<Rightarrow> (64 word \<times> metricWithBuckets) list" where
  "add_bucket h b mbs = map (\<lambda>(k, mb). (k, if k = h then mb\<lparr>mb_buckets := mb_buckets mb @ [b]\<rparr> else mb)) mbs"

fun buckets_loop :: "promql_lib \<Rightarrow> enh \<Rightarrow> vector \<Rightarrow> enh" where
  "buckets_loop lb enh [] = enh"
| "buckets_loop lb enh (el # els) =
     (case G_ParseFloat lb (L_Get lb (sm_Metric el) ''le'') of
        None \<Rightarrow> buckets_loop lb enh els
      | Some upperBound \<Rightarrow>
          (let (enh1, h) = enh_signatureFunc lb False excludedLabels enh (sm_Metric el);
               mbs = (if map_of (enh_mb enh1) h = None
                      then enh_mb enh1 @
                        [(h, \<lparr>mb_metric = L_Del lb [''le'', MetricNameLabelName] (sm_Metric el), mb_buckets = []\<rparr>)]
                      else enh_mb enh1)
           in buckets_loop lb
                (enh1\<lparr>enh_mb := add_bucket h \<lparr>bk_upperBound = upperBound, bk_count = pt_V (sm_Point el)\<rparr> mbs\<rparr>) els))"

fun quantiles_loop :: "float64 \<Rightarrow> (64 word \<times> metricWithBuckets) list \<Rightarrow> 64 word list \<Rightarrow> vector \<Rightarrow> vector ev" where
  "quantiles_loop q mbs [] out = Inr out"
| "quantiles_loop q mbs (h # hs) out =
     (case map_of mbs h of
        None \<Rightarrow> quantiles_loop q mbs hs out
      | Some mb \<Rightarrow>
          if mb_buckets mb = [] then quantiles_loop q mbs hs out
          else ev_bind (lift_outcome (bucketQuantile q (mb_buckets mb))) (\<lambda>v.
                 quantiles_loop q mbs hs (out @ [bare_sample (mb_metric mb) v])))"

definition funcHistogramQuantile :: function_call where
  "funcHistogramQuantile lb vals args enh =
     ev_bind (arg_scalar vals 0) (\<lambda>q. ev_bind (arg_vector vals 1) (\<lambda>inVec.
       let enh0 = enh\<lparr>enh_mb := map (\<lambda>(k, mb). (k, mb\<lparr>mb_buckets := []\<rparr>)) (enh_mb enh)\<rparr>;
           enh1 = buckets_loop lb enh0 inVec
       in ev_bind (quantiles_loop q (enh_mb enh1) (G_Range lb (map fst (enh_mb enh1))) []) (\<lambda>out. Inr (enh1, out))))"

text \<open>
  Relabelling with the cache \<open>dmn\<close>, which holds the new label sets: \<open>relabel\<close> gives the one of an
  element that is not in it.
\<close>

fun relabel_loop :: "promql_lib \<Rightarrow> (label list \<Rightarrow> label list) \<Rightarrow> enh \<Rightarrow> vector \<Rightarrow> vector \<Rightarrow> enh \<times> vector" where
  "relabel_loop lb relabel enh [] out = (enh, out)"
| "relabel_loop lb relabel enh (el # els) out =
     (let h = L_Hash lb (sm_Metric el);
          (enh', outMetric) =
            (case enh_dmn enh h of
               Some l \<Rightarrow> (enh, l)
             | None \<Rightarrow> (let l = relabel (sm_Metric el) in (enh\<lparr>enh_dmn := (enh_dmn enh)(h \<mapsto> l)\<rparr>, l)))
      in relabel_loop lb relabel enh' els (out @ [bare_sample outMetric (pt_V (sm_Point el))]))"

definition replace_label :: "promql_lib \<Rightarrow> string \<Rightarrow> string \<Rightarrow> string \<Rightarrow> string \<Rightarrow> label list \<Rightarrow> label list" where
  "replace_label lb regex dst repl src metric =
     (case R_Expand lb regex repl (L_Get lb metric src) of
        None \<Rightarrow> metric
      | Some res \<Rightarrow> (let b = L_Del lb [dst] metric in if res \<noteq> [] then L_Set lb dst res b else b))"

definition funcLabelReplace :: function_call where
  "funcLabelReplace lb vals args enh =
     ev_bind (arg_vector vals 0) (\<lambda>v.
     ev_bind (arg_string args 1) (\<lambda>dst.
     ev_bind (arg_string args 2) (\<lambda>repl.
     ev_bind (arg_string args 3) (\<lambda>src.
     ev_bind (arg_string args 4) (\<lambda>regexStr.
     ev_bind
       (case enh_regex enh of
          Some re \<Rightarrow> Inr (enh, re)
        | None \<Rightarrow>
            let re = ''^(?:'' @ regexStr @ '')$''
            in if \<not> R_Valid lb re then ev_errorf (''invalid regular expression in label_replace(): '' @ regexStr)
               else if \<not> P_LabelNameRE lb dst then ev_errorf (''invalid destination label name in label_replace(): '' @ dst)
               else Inr (enh\<lparr>enh_regex := Some re, enh_dmn := Map.empty\<rparr>, re))
       (\<lambda>(enh', re). Inr (relabel_loop lb (replace_label lb re dst repl src) enh' v [])))))))"

definition join_labels :: "promql_lib \<Rightarrow> string \<Rightarrow> string \<Rightarrow> string list \<Rightarrow> label list \<Rightarrow> label list" where
  "join_labels lb dst sep srcs metric =
     (let strval = str_join sep (map (L_Get lb metric) srcs)
      in if strval = [] then L_Del lb [dst] metric else L_Set lb dst strval metric)"

fun source_labels :: "promql_lib \<Rightarrow> expr list \<Rightarrow> string list ev" where
  "source_labels lb [] = Inr []"
| "source_labels lb (a # as) =
     ev_bind (arg_string [a] 0) (\<lambda>src.
       if \<not> P_ValidLabelName lb src then ev_errorf (''invalid source label name in label_join(): '' @ src)
       else ev_bind (source_labels lb as) (\<lambda>srcs. Inr (src # srcs)))"

definition funcLabelJoin :: function_call where
  "funcLabelJoin lb vals args enh =
     ev_bind (arg_vector vals 0) (\<lambda>v.
     ev_bind (arg_string args 1) (\<lambda>dst.
     ev_bind (arg_string args 2) (\<lambda>sep.
     ev_bind (source_labels lb (drop 3 args)) (\<lambda>srcs.
       if \<not> P_ValidLabelName lb dst then ev_errorf (''invalid destination label name in label_join(): '' @ dst)
       else Inr (relabel_loop lb (join_labels lb dst sep srcs) enh v [])))))"


section \<open>The table of functions\<close>

definition FunctionCalls :: "(string \<times> function_call) list" where
  "FunctionCalls = [
     (''abs'', funcAbs), (''absent'', funcAbsent), (''absent_over_time'', funcAbsentOverTime),
     (''avg_over_time'', funcAvgOverTime), (''ceil'', funcCeil), (''changes'', funcChanges),
     (''clamp_max'', funcClampMax), (''clamp_min'', funcClampMin), (''count_over_time'', funcCountOverTime),
     (''days_in_month'', funcDaysInMonth), (''day_of_month'', funcDayOfMonth), (''day_of_week'', funcDayOfWeek),
     (''delta'', funcDelta), (''deriv'', funcDeriv), (''exp'', funcExp), (''floor'', funcFloor),
     (''histogram_quantile'', funcHistogramQuantile), (''holt_winters'', funcHoltWinters), (''hour'', funcHour),
     (''idelta'', funcIdelta), (''increase'', funcIncrease), (''irate'', funcIrate),
     (''label_replace'', funcLabelReplace), (''label_join'', funcLabelJoin), (''ln'', funcLn),
     (''log10'', funcLog10), (''log2'', funcLog2), (''max_over_time'', funcMaxOverTime),
     (''min_over_time'', funcMinOverTime), (''minute'', funcMinute), (''month'', funcMonth),
     (''predict_linear'', funcPredictLinear), (''quantile_over_time'', funcQuantileOverTime), (''rate'', funcRate),
     (''resets'', funcResets), (''round'', funcRound), (''scalar'', funcScalar), (''sort'', funcSort),
     (''sort_desc'', funcSortDesc), (''sqrt'', funcSqrt), (''stddev_over_time'', funcStddevOverTime),
     (''stdvar_over_time'', funcStdvarOverTime), (''sum_over_time'', funcSumOverTime), (''time'', funcTime),
     (''timestamp'', funcTimestamp), (''vector'', funcVector), (''year'', funcYear)]"

end
