(* ===== verification/Promql_Eval.thy ===== *)
theory Promql_Eval
  imports Promql_Functions
begin

text \<open>
  The evaluator of PromQL, \<open>pkg/promql/engine.go\<close>: selectors, the step loop \<open>rangeEval\<close> and \<open>eval\<close>.

  The buffered iterator of the Prometheus library is a parameter: \<open>bl_New delta ps\<close> is
  \<open>NewBuffer(delta)\<close> reset to an iterator over \<open>ps\<close>, and the other fields are its methods.  The context of
  a query may be cancelled at any time: \<open>ev_ctx n\<close> is what the \<open>n\<close>-th look at it finds.  Pools of slices
  only save allocations and are left out.
\<close>


section \<open>The state of an evaluation\<close>

record 'it buffer_lib =
  bl_New :: "int \<Rightarrow> point list \<Rightarrow> 'it"
  bl_Seek :: "int \<Rightarrow> 'it \<Rightarrow> 'it \<times> bool"
  bl_Values :: "'it \<Rightarrow> point"
  bl_PeekBack :: "'it \<Rightarrow> point option"
  bl_Buffer :: "'it \<Rightarrow> point list"
  bl_ReduceDelta :: "int \<Rightarrow> 'it \<Rightarrow> 'it"
  bl_Err :: "'it \<Rightarrow> go_error option"

datatype ctx_error = Canceled | DeadlineExceeded | CtxOther go_error

record evaluator =
  ev_startTimestamp :: int
  ev_endTimestamp :: int
  ev_interval :: int
  ev_maxSamples :: int
  ev_defaultEvalInterval :: int
  ev_lookbackDelta :: int
  ev_topNode :: "nat option"
  ev_ctx :: "nat \<Rightarrow> ctx_error option"

record ev_state =
  st_currentSamples :: int
  st_checks :: nat

definition contextErr :: "ctx_error \<Rightarrow> string \<Rightarrow> query_error" where
  "contextErr err env =
     (case err of Canceled \<Rightarrow> ErrQueryCanceled env | DeadlineExceeded \<Rightarrow> ErrQueryTimeout env | CtxOther e \<Rightarrow> PlainError e)"

definition contextDone :: "evaluator \<Rightarrow> string \<Rightarrow> ev_state \<Rightarrow> ev_state ev" where
  "contextDone ev env st =
     (case ev_ctx ev (st_checks st) of
        None \<Rightarrow> Inr (st\<lparr>st_checks := st_checks st + 1\<rparr>)
      | Some err \<Rightarrow> Inl (EvError (contextErr err env)))"

definition evaluation_env :: string where "evaluation_env = ''expression evaluation''"

definition too_many :: "'a ev" where
  "too_many = Inl (EvError (ErrTooManySamples query_env))"

definition divide_by_zero :: "'a ev" where
  "divide_by_zero = Inl (EvRuntime ''integer divide by zero'')"

text \<open>
  The times of the steps, \<open>for ts := start; ts <= end; ts += interval\<close>, for a positive interval; an
  interval is never negative, and one of zero panics before.
\<close>

function step_list :: "int \<Rightarrow> int \<Rightarrow> int \<Rightarrow> int list" where
  "step_list ts end_ts interval =
     (if 0 < interval \<and> ts \<le> end_ts then ts # step_list (ts + interval) end_ts interval else [])"
  by pat_completeness auto
termination
  by (relation "measure (\<lambda>(ts, e, i). nat (e - ts + 1))") auto

declare step_list.simps [simp del]

definition ev_steps :: "evaluator \<Rightarrow> int list" where
  "ev_steps ev = step_list (ev_startTimestamp ev) (ev_endTimestamp ev) (ev_interval ev)"

definition add_samples :: "int \<Rightarrow> ev_state \<Rightarrow> ev_state" where
  "add_samples n st = st\<lparr>st_currentSamples := st_currentSamples st + n\<rparr>"


section \<open>Selectors\<close>

text \<open>
  The field \<open>vs_Series\<close> stands for the two fields of a selector: it is what the expansion of its
  series set gives, so that every call finds the same series or the same panic.
\<close>

definition checkForSeriesSetExpansion :: "vsel \<Rightarrow> sseries list ev" where
  "checkForSeriesSetExpansion vs = vs_Series vs"

text \<open>\<open>value.IsStaleNaN\<close>\<close>

definition IsStaleNaN :: "float64 \<Rightarrow> bool" where
  "IsStaleNaN v \<longleftrightarrow> v = 0x7ff0000000000002"

definition seek_checked :: "'it buffer_lib \<Rightarrow> int \<Rightarrow> 'it \<Rightarrow> ('it \<times> bool) ev" where
  "seek_checked bl t it =
     (let (it', ok) = bl_Seek bl t it
      in if \<not> ok then (case bl_Err bl it' of Some e \<Rightarrow> Inl (EvError (PlainError e)) | None \<Rightarrow> Inr (it', False))
         else Inr (it', True))"

definition vectorSelectorSingle ::
  "'it buffer_lib \<Rightarrow> evaluator \<Rightarrow> vsel \<Rightarrow> int \<Rightarrow> 'it \<Rightarrow> ('it \<times> (int \<times> float64) option) ev" where
  "vectorSelectorSingle bl ev node ts it =
     (let refTime = ts - durationMilliseconds (vs_Offset node)
      in ev_bind (seek_checked bl refTime it) (\<lambda>(it', ok).
           let current = bl_Values bl it';
               found = (if ok \<and> pt_T current \<le> refTime then Some current
                        else case bl_PeekBack bl it' of
                               None \<Rightarrow> None
                             | Some p \<Rightarrow> if pt_T p < refTime - durationMilliseconds (ev_lookbackDelta ev) then None else Some p)
           in Inr (it', case found of
                          None \<Rightarrow> None
                        | Some p \<Rightarrow> if IsStaleNaN (pt_V p) then None else Some (pt_T p, pt_V p))))"

fun vector_selector_loop ::
  "'it buffer_lib \<Rightarrow> evaluator \<Rightarrow> vsel \<Rightarrow> int \<Rightarrow> sseries list \<Rightarrow> vector \<Rightarrow> ev_state \<Rightarrow> (ev_state \<times> vector) ev" where
  "vector_selector_loop bl ev node ts [] vec st = Inr (st, vec)"
| "vector_selector_loop bl ev node ts (s # ss) vec st =
     ev_bind (vectorSelectorSingle bl ev node ts (bl_New bl (durationMilliseconds (ev_lookbackDelta ev)) (ss_Points s)))
       (\<lambda>(_, r).
         let (vec', st') = (case r of
               None \<Rightarrow> (vec, st)
             | Some (t, v) \<Rightarrow> (vec @ [\<lparr>sm_Point = \<lparr>pt_T = t, pt_V = v\<rparr>, sm_Metric = ss_Labels s\<rparr>], add_samples 1 st))
         in if st_currentSamples st' \<ge> ev_maxSamples ev then too_many
            else vector_selector_loop bl ev node ts ss vec' st')"

definition vectorSelector :: "'it buffer_lib \<Rightarrow> evaluator \<Rightarrow> vsel \<Rightarrow> int \<Rightarrow> ev_state \<Rightarrow> (ev_state \<times> vector) ev" where
  "vectorSelector bl ev node ts st =
     ev_bind (checkForSeriesSetExpansion node) (\<lambda>ss. vector_selector_loop bl ev node ts ss [] st)"

text \<open>A vector selector evaluated at all steps, one series after the other.\<close>

fun instant_steps ::
  "'it buffer_lib \<Rightarrow> evaluator \<Rightarrow> vsel \<Rightarrow> int list \<Rightarrow> 'it \<Rightarrow> point list \<Rightarrow> ev_state \<Rightarrow> (ev_state \<times> point list) ev" where
  "instant_steps bl ev node [] it ps st = Inr (st, ps)"
| "instant_steps bl ev node (ts # tss) it ps st =
     ev_bind (vectorSelectorSingle bl ev node ts it) (\<lambda>(it', r).
       case r of
         None \<Rightarrow> instant_steps bl ev node tss it' ps st
       | Some (_, v) \<Rightarrow>
           if st_currentSamples st < ev_maxSamples ev
           then instant_steps bl ev node tss it' (ps @ [\<lparr>pt_T = ts, pt_V = v\<rparr>]) (add_samples 1 st)
           else too_many)"

fun instant_series ::
  "'it buffer_lib \<Rightarrow> evaluator \<Rightarrow> vsel \<Rightarrow> sseries list \<Rightarrow> matrix \<Rightarrow> ev_state \<Rightarrow> (ev_state \<times> matrix) ev" where
  "instant_series bl ev node [] mat st = Inr (st, mat)"
| "instant_series bl ev node (s # ss) mat st =
     ev_bind (instant_steps bl ev node (ev_steps ev)
        (bl_New bl (durationMilliseconds (ev_lookbackDelta ev)) (ss_Points s)) [] st)
       (\<lambda>(st', ps). instant_series bl ev node ss
          (if ps \<noteq> [] then mat @ [\<lparr>sr_Metric = ss_Labels s, sr_Points = ps\<rparr>] else mat) st')"

text \<open>
  \<open>matrixIterSlice\<close>: the points of the previous window that are still in the window, and the new ones
  from the iterator.
\<close>

fun buffer_loop :: "evaluator \<Rightarrow> int \<Rightarrow> point list \<Rightarrow> point list \<Rightarrow> ev_state \<Rightarrow> (ev_state \<times> point list) ev" where
  "buffer_loop ev mint [] out st = Inr (st, out)"
| "buffer_loop ev mint (p # ps) out st =
     (if IsStaleNaN (pt_V p) then buffer_loop ev mint ps out st
      else if mint \<le> pt_T p then
        if st_currentSamples st \<ge> ev_maxSamples ev then too_many
        else buffer_loop ev mint ps (out @ [p]) (add_samples 1 st)
      else buffer_loop ev mint ps out st)"

definition matrixIterSlice ::
  "'it buffer_lib \<Rightarrow> evaluator \<Rightarrow> int \<Rightarrow> int \<Rightarrow> 'it \<Rightarrow> point list \<Rightarrow> ev_state \<Rightarrow> (ev_state \<times> 'it \<times> point list) ev" where
  "matrixIterSlice bl ev mint0 maxt it out0 st =
     (let (out, mint) =
        (if out0 \<noteq> [] \<and> mint0 \<le> pt_T (last out0)
         then (let kept = dropWhile (\<lambda>p. pt_T p < mint0) out0 in (kept, pt_T (last kept) + 1))
         else ([], mint0))
      in ev_bind (seek_checked bl maxt it) (\<lambda>(it', ok).
         ev_bind (buffer_loop ev mint (bl_Buffer bl it') out st) (\<lambda>(st', out').
           let p = bl_Values bl it'
           in if ok \<and> pt_T p = maxt \<and> \<not> IsStaleNaN (pt_V p) then
                if st_currentSamples st' \<ge> ev_maxSamples ev then too_many
                else Inr (add_samples 1 st', it', out' @ [p])
              else Inr (st', it', out'))))"

fun matrix_selector_loop ::
  "'it buffer_lib \<Rightarrow> evaluator \<Rightarrow> int \<Rightarrow> int \<Rightarrow> int \<Rightarrow> sseries list \<Rightarrow> matrix \<Rightarrow> ev_state \<Rightarrow> (ev_state \<times> matrix) ev" where
  "matrix_selector_loop bl ev delta mint maxt [] mat st = Inr (st, mat)"
| "matrix_selector_loop bl ev delta mint maxt (s # ss) mat st =
     ev_bind (contextDone ev evaluation_env st) (\<lambda>st1.
     ev_bind (matrixIterSlice bl ev mint maxt (bl_New bl delta (ss_Points s)) [] st1) (\<lambda>(st2, _, ps).
       matrix_selector_loop bl ev delta mint maxt ss
         (if ps \<noteq> [] then mat @ [\<lparr>sr_Metric = ss_Labels s, sr_Points = ps\<rparr>] else mat) st2))"

definition matrixSelector :: "'it buffer_lib \<Rightarrow> evaluator \<Rightarrow> vsel \<Rightarrow> int \<Rightarrow> ev_state \<Rightarrow> (ev_state \<times> matrix) ev" where
  "matrixSelector bl ev vs rng st =
     ev_bind (checkForSeriesSetExpansion vs) (\<lambda>ss.
       let maxt = ev_startTimestamp ev - durationMilliseconds (vs_Offset vs);
           mint = maxt - durationMilliseconds rng
       in matrix_selector_loop bl ev (durationMilliseconds rng) mint maxt ss [] st)"


section \<open>The step loop\<close>

text \<open>The samples of a matrix at time \<open>ts\<close>, which are moved out of it.\<close>

fun gather_series :: "evaluator \<Rightarrow> int \<Rightarrow> matrix \<Rightarrow> vector \<Rightarrow> matrix \<Rightarrow> ev_state \<Rightarrow> (ev_state \<times> vector \<times> matrix) ev" where
  "gather_series ev ts [] vec rest_m st = Inr (st, vec, rest_m)"
| "gather_series ev ts (s # ss) vec rest_m st =
     (case sr_Points s of
        p # ps \<Rightarrow>
          if pt_T p = ts then
            if st_currentSamples st < ev_maxSamples ev
            then gather_series ev ts ss (vec @ [\<lparr>sm_Point = p, sm_Metric = sr_Metric s\<rparr>])
                   (rest_m @ [s\<lparr>sr_Points := ps\<rparr>]) (add_samples 1 st)
            else too_many
          else gather_series ev ts ss vec (rest_m @ [s]) st
      | [] \<Rightarrow> gather_series ev ts ss vec (rest_m @ [s]) st)"

fun gather :: "evaluator \<Rightarrow> int \<Rightarrow> matrix list \<Rightarrow> ev_state \<Rightarrow> (ev_state \<times> vector list \<times> matrix list) ev" where
  "gather ev ts [] st = Inr (st, [], [])"
| "gather ev ts (m # ms) st =
     ev_bind (gather_series ev ts m [] [] st) (\<lambda>(st1, vec, m').
     ev_bind (gather ev ts ms st1) (\<lambda>(st2, vecs, ms'). Inr (st2, vec # vecs, m' # ms')))"

text \<open>The output series by the hash of their labels, in the order in which they were added.\<close>

type_synonym seriess = "(64 word \<times> series) list"

definition add_point :: "promql_lib \<Rightarrow> int \<Rightarrow> psample \<Rightarrow> seriess \<Rightarrow> seriess" where
  "add_point lb ts s out =
     (let h = L_Hash lb (sm_Metric s); p = (sm_Point s)\<lparr>pt_T := ts\<rparr>
      in if map_of out h = None then out @ [(h, \<lparr>sr_Metric = sm_Metric s, sr_Points = [p]\<rparr>)]
         else map (\<lambda>(k, x). (k, if k = h then x\<lparr>sr_Points := sr_Points x @ [p]\<rparr> else x)) out)"

definition same_labelset_error :: "'a ev" where
  "same_labelset_error = ev_errorf ''vector cannot contain metrics with the same labelset''"

definition instant_matrix :: "int \<Rightarrow> vector \<Rightarrow> matrix" where
  "instant_matrix ts result =
     map (\<lambda>s. \<lparr>sr_Metric = sm_Metric s, sr_Points = [(sm_Point s)\<lparr>pt_T := ts\<rparr>]\<rparr>) result"

text \<open>The function of a node: it gets the vectors of its operands and may count samples of its own.\<close>

type_synonym node_fun = "ev_state \<Rightarrow> vector list \<Rightarrow> enh \<Rightarrow> (ev_state \<times> enh \<times> vector) ev"

datatype step_result = StepDone matrix | StepNext seriess

definition range_step ::
  "promql_lib \<Rightarrow> evaluator \<Rightarrow> node_fun \<Rightarrow> int \<Rightarrow> int \<Rightarrow> enh \<Rightarrow> matrix list \<Rightarrow> seriess \<Rightarrow> ev_state \<Rightarrow>
   (ev_state \<times> int \<times> enh \<times> matrix list \<times> step_result) ev" where
  "range_step lb ev f ts tempNumSamples enh mats out st =
     ev_bind (contextDone ev evaluation_env st) (\<lambda>st1.
     ev_bind (gather ev ts mats (st1\<lparr>st_currentSamples := tempNumSamples\<rparr>)) (\<lambda>(st2, vecs, mats').
     ev_bind (f st2 vecs (enh\<lparr>enh_ts := ts\<rparr>)) (\<lambda>(st3, enh', result).
       if vector_ContainsSameLabelset (L_Hash lb) result then same_labelset_error
       else let st4 = add_samples (int (length result)) st3; temp' = tempNumSamples + int (length result)
            in if st_currentSamples st4 > ev_maxSamples ev then too_many
               else Inr (st4, temp', enh', mats',
                      if ev_endTimestamp ev = ev_startTimestamp ev then StepDone (instant_matrix ts result)
                      else StepNext (fold (add_point lb ts) result out)))))"

fun range_loop ::
  "promql_lib \<Rightarrow> evaluator \<Rightarrow> node_fun \<Rightarrow> int list \<Rightarrow> int \<Rightarrow> enh \<Rightarrow> matrix list \<Rightarrow> seriess \<Rightarrow> ev_state \<Rightarrow> (ev_state \<times> matrix) ev" where
  "range_loop lb ev f [] temp enh mats out st =
     Inr (st, concat (map (\<lambda>h. case map_of out h of None \<Rightarrow> [] | Some s \<Rightarrow> [s]) (G_Range lb (map fst out))))"
| "range_loop lb ev f (ts # tss) temp enh mats out st =
     ev_bind (range_step lb ev f ts temp enh mats out st) (\<lambda>(st', temp', enh', mats', r).
       case r of StepDone m \<Rightarrow> Inr (st', m) | StepNext out' \<Rightarrow> range_loop lb ev f tss temp' enh' mats' out' st')"

text \<open>\<open>originalNumSamples\<close> is the count before the operands were evaluated.\<close>

definition rangeEval ::
  "promql_lib \<Rightarrow> evaluator \<Rightarrow> node_fun \<Rightarrow> int \<Rightarrow> matrix list \<Rightarrow> ev_state \<Rightarrow> (ev_state \<times> matrix) ev" where
  "rangeEval lb ev f originalNumSamples mats st =
     ev_bind (range_loop lb ev f (ev_steps ev) (st_currentSamples st) new_enh mats [] st) (\<lambda>(st', mat).
       Inr (st'\<lparr>st_currentSamples := originalNumSamples + int (TotalSamples mat)\<rparr>, mat))"



section \<open>Evaluation of expressions\<close>

fun unwrapParenExpr :: "expr \<Rightarrow> expr" where
  "unwrapParenExpr (E_Paren e) = unwrapParenExpr e"
| "unwrapParenExpr e = e"

text \<open>\<open>Expr.Type()\<close> of the parser.\<close>

fun expr_Type :: "expr \<Rightarrow> value_type" where
  "expr_Type (E_Number _) = VT_Scalar"
| "expr_Type (E_String _) = VT_String"
| "expr_Type (E_Paren e) = expr_Type e"
| "expr_Type (E_Unary _ e) = expr_Type e"
| "expr_Type (E_Binary _ l r _ _) = (if expr_Type l = VT_Scalar \<and> expr_Type r = VT_Scalar then VT_Scalar else VT_Vector)"
| "expr_Type (E_Vector _) = VT_Vector"
| "expr_Type (E_Matrix _ _) = VT_Matrix"
| "expr_Type (E_Subquery _ _ _ _) = VT_Matrix"
| "expr_Type (E_Aggregate _ _ _ _ _) = VT_Vector"
| "expr_Type (E_Call _ fn _) = fn_ReturnType fn"

definition as_matrix :: "pvalue \<Rightarrow> matrix ev" where
  "as_matrix v = (case v of VMatrix m \<Rightarrow> Inr m | _ \<Rightarrow> type_assertion)"

text \<open>The functions of the nodes that \<open>rangeEval\<close> calls at every step.\<close>

definition pure_node :: "(vector list \<Rightarrow> enh \<Rightarrow> (enh \<times> vector) ev) \<Rightarrow> node_fun" where
  "pure_node g st vecs enh = ev_bind (g vecs enh) (\<lambda>(enh', out). Inr (st, enh', out))"

definition number_node :: "float64 \<Rightarrow> node_fun" where
  "number_node v = pure_node (\<lambda>vecs enh. Inr (enh, [plain_sample v]))"

definition scalar_scalar_node :: "promql_lib \<Rightarrow> item_type \<Rightarrow> node_fun" where
  "scalar_scalar_node lb op = pure_node (\<lambda>vecs enh.
     ev_bind (first_V (vecs ! 0)) (\<lambda>a. ev_bind (first_V (vecs ! 1)) (\<lambda>b.
     ev_bind (scalarBinop lb op a b) (\<lambda>v. Inr (enh, [plain_sample v])))))"

definition vector_vector_node :: "promql_lib \<Rightarrow> item_type \<Rightarrow> vector_matching \<Rightarrow> bool \<Rightarrow> node_fun" where
  "vector_vector_node lb op m returnBool = pure_node (\<lambda>vecs enh.
     case op of
       I_LAND \<Rightarrow> VectorAnd lb (vecs ! 0) (vecs ! 1) m enh
     | I_LOR \<Rightarrow> VectorOr lb (vecs ! 0) (vecs ! 1) m enh
     | I_LUNLESS \<Rightarrow> VectorUnless lb (vecs ! 0) (vecs ! 1) m enh
     | _ \<Rightarrow> VectorBinop lb op (vecs ! 0) (vecs ! 1) m returnBool enh)"

definition vector_scalar_node :: "promql_lib \<Rightarrow> item_type \<Rightarrow> bool \<Rightarrow> bool \<Rightarrow> node_fun" where
  "vector_scalar_node lb op swap returnBool = pure_node (\<lambda>vecs enh.
     ev_bind (first_V (vecs ! (if swap then 0 else 1))) (\<lambda>v.
       VectorscalarBinop lb op (vecs ! (if swap then 1 else 0)) v swap returnBool enh))"

definition aggregate_node :: "promql_lib \<Rightarrow> item_type \<Rightarrow> string list \<Rightarrow> bool \<Rightarrow> bool \<Rightarrow> node_fun" where
  "aggregate_node lb op grouping without has_param = pure_node (\<lambda>vecs enh.
     ev_bind (if has_param then first_V (vecs ! 0) else Inr (f_zero False)) (\<lambda>param.
     ev_bind (aggregation lb op grouping without (ParamFloat param) (vecs ! 1)) (\<lambda>out. Inr (enh, out))))"

definition aggregate_string_node :: "promql_lib \<Rightarrow> item_type \<Rightarrow> string list \<Rightarrow> bool \<Rightarrow> string \<Rightarrow> node_fun" where
  "aggregate_string_node lb op grouping without param = pure_node (\<lambda>vecs enh.
     ev_bind (aggregation lb op grouping without (ParamString param) (vecs ! 0)) (\<lambda>out. Inr (enh, out)))"

text \<open>The entry of the function table; a missing entry is a nil function.\<close>

definition lookup_call :: "string \<Rightarrow> function_call" where
  "lookup_call name lb vals args enh =
     (case map_of FunctionCalls name of
        None \<Rightarrow> Inl (EvRuntime ''nil pointer dereference'')
      | Some call \<Rightarrow> call lb vals args enh)"

definition call_node :: "promql_lib \<Rightarrow> string \<Rightarrow> expr list \<Rightarrow> node_fun" where
  "call_node lb name args = pure_node (\<lambda>vecs enh. lookup_call name lb (map VVector vecs) args enh)"

definition timestamp_node :: "promql_lib \<Rightarrow> 'it buffer_lib \<Rightarrow> evaluator \<Rightarrow> vsel \<Rightarrow> expr list \<Rightarrow> node_fun" where
  "timestamp_node lb bl ev vs args st vecs enh =
     ev_bind (vectorSelector bl ev vs (enh_ts enh) st) (\<lambda>(st', vec).
     ev_bind (lookup_call ''timestamp'' lb [VVector vec] args enh) (\<lambda>(enh', out). Inr (st', enh', out)))"

definition binary_node :: "promql_lib \<Rightarrow> item_type \<Rightarrow> value_type \<Rightarrow> value_type \<Rightarrow> vector_matching \<Rightarrow> bool \<Rightarrow> node_fun option" where
  "binary_node lb op lt rt m returnBool =
     (if lt = VT_Scalar \<and> rt = VT_Scalar then Some (scalar_scalar_node lb op)
      else if lt = VT_Vector \<and> rt = VT_Vector then Some (vector_vector_node lb op m returnBool)
      else if lt = VT_Vector \<and> rt = VT_Scalar then Some (vector_scalar_node lb op False returnBool)
      else if lt = VT_Scalar \<and> rt = VT_Vector then Some (vector_scalar_node lb op True returnBool)
      else None)"

text \<open>The result of a node that the database has evaluated.\<close>

definition getPushdownResult :: "promql_lib \<Rightarrow> sseries list \<Rightarrow> matrix" where
  "getPushdownResult lb ss =
     map (\<lambda>s. \<lparr>sr_Metric = dropMetricName lb (ss_Labels s), sr_Points = ss_Points s\<rparr>)
       (filter (\<lambda>s. ss_Points s \<noteq> []) ss)"

text \<open>The vector selectors in the order in which \<open>parser.Inspect\<close> visits the nodes.\<close>

fun selectors :: "expr \<Rightarrow> vsel list" where
  "selectors (E_Number _) = []"
| "selectors (E_String _) = []"
| "selectors (E_Paren e) = selectors e"
| "selectors (E_Unary _ e) = selectors e"
| "selectors (E_Binary _ l r _ _) = selectors l @ selectors r"
| "selectors (E_Vector vs) = [vs]"
| "selectors (E_Matrix vs _) = [vs]"
| "selectors (E_Subquery e _ _ _) = selectors e"
| "selectors (E_Aggregate _ e p _ _) = selectors e @ (case p of None \<Rightarrow> [] | Some q \<Rightarrow> selectors q)"
| "selectors (E_Call _ _ args) = concat (map selectors args)"

definition is_top :: "evaluator \<Rightarrow> expr \<Rightarrow> bool" where
  "is_top ev e \<longleftrightarrow>
     (case (ev_topNode ev, e) of
        (Some n, E_Vector vs) \<Rightarrow> vs_Id vs = n
      | (Some n, E_Call i _ _) \<Rightarrow> i = n
      | _ \<Rightarrow> False)"

text \<open>
  The first selector fills the matrix; the visit of a second one expands its series and then stops
  with an error that is dropped.
\<close>

definition eval_top :: "promql_lib \<Rightarrow> expr \<Rightarrow> ev_state \<Rightarrow> (ev_state \<times> pvalue) ev" where
  "eval_top lb e st =
     (case selectors e of
        [] \<Rightarrow> ev_errorf ''Matrix not filled in''
      | vs # others \<Rightarrow>
          ev_bind (checkForSeriesSetExpansion vs) (\<lambda>ss.
          ev_bind (case others of [] \<Rightarrow> Inr [] | vs' # _ \<Rightarrow> checkForSeriesSetExpansion vs') (\<lambda>_.
            Inr (st, VMatrix (getPushdownResult lb ss)))))"

definition negate_matrix :: "promql_lib \<Rightarrow> matrix \<Rightarrow> matrix" where
  "negate_matrix lb m =
     map (\<lambda>s. \<lparr>sr_Metric = dropMetricName lb (sr_Metric s),
              sr_Points = map (\<lambda>p. p\<lparr>pt_V := f_neg (pt_V p)\<rparr>) (sr_Points s)\<rparr>) m"

text \<open>The evaluator of a subquery; the division by its interval may panic.\<close>

definition subquery_evaluator :: "evaluator \<Rightarrow> int \<Rightarrow> int \<Rightarrow> int \<Rightarrow> evaluator ev" where
  "subquery_evaluator ev rng offset step =
     (let offsetMillis = durationMilliseconds offset;
          rangeMillis = durationMilliseconds rng;
          interval = (if step \<noteq> 0 then durationMilliseconds step else ev_defaultEvalInterval ev);
          from_ts = ev_startTimestamp ev - offsetMillis - rangeMillis
      in if interval = 0 then divide_by_zero
         else let start0 = interval * go_quot from_ts interval;
                  start = (if start0 < from_ts then start0 + interval else start0)
              in Inr (ev\<lparr>ev_startTimestamp := start, ev_endTimestamp := ev_endTimestamp ev - offsetMillis,
                        ev_interval := interval, ev_topNode := None\<rparr>))"

definition is_matrix_arg :: "expr \<Rightarrow> bool" where
  "is_matrix_arg e = (case e of E_Matrix _ _ \<Rightarrow> True | E_Subquery _ _ _ _ \<Rightarrow> True | _ \<Rightarrow> False)"

text \<open>
  The arguments with parentheses removed up to the first one that is a range vector, and its index.
\<close>

fun find_matrix_arg :: "expr list \<Rightarrow> expr list \<times> nat option" where
  "find_matrix_arg [] = ([], None)"
| "find_matrix_arg (a # as) =
     (let u = unwrapParenExpr a
      in if is_matrix_arg u then (u # as, Some 0)
         else let (as', i) = find_matrix_arg as in (u # as', map_option Suc i))"


text \<open>
  The arguments of one step: the range vector is the one-series matrix \<open>inMatrix\<close>, every other
  argument the vector of its value at step number \<open>step\<close>.
\<close>

definition scalar_at :: "matrix \<Rightarrow> nat \<Rightarrow> float64 ev" where
  "scalar_at m step =
     (case m of
        [] \<Rightarrow> index_error
      | s # _ \<Rightarrow> if step < length (sr_Points s) then Inr (pt_V (sr_Points s ! step)) else index_error)"

fun other_args :: "matrix option list \<Rightarrow> nat \<Rightarrow> vector option list ev" where
  "other_args [] step = Inr []"
| "other_args (None # os) step = ev_bind (other_args os step) (\<lambda>vs. Inr (None # vs))"
| "other_args (Some m # os) step =
     ev_bind (scalar_at m step) (\<lambda>v. ev_bind (other_args os step) (\<lambda>vs. Inr (Some [plain_sample v] # vs)))"

definition in_args :: "vector option list \<Rightarrow> series \<Rightarrow> pvalue list" where
  "in_args vs inMatrix = map (\<lambda>v. case v of None \<Rightarrow> VMatrix [inMatrix] | Some vec \<Rightarrow> VVector vec) vs"

record matrix_call =
  mc_name :: string
  mc_args :: "expr list"
  mc_others :: "matrix option list"
  mc_offset :: int
  mc_selRange :: int

fun call_steps ::
  "promql_lib \<Rightarrow> 'it buffer_lib \<Rightarrow> evaluator \<Rightarrow> matrix_call \<Rightarrow> label list \<Rightarrow> int list \<Rightarrow> nat \<Rightarrow> 'it \<Rightarrow> point list \<Rightarrow> enh \<Rightarrow>
   point list \<Rightarrow> ev_state \<Rightarrow> (ev_state \<times> enh \<times> point list) ev" where
  "call_steps lb bl ev mc labels [] step it points enh out st = Inr (st, enh, out)"
| "call_steps lb bl ev mc labels (ts # tss) step it points enh out st =
     ev_bind (other_args (mc_others mc) step) (\<lambda>vs.
       let maxt = ts - mc_offset mc; mint = maxt - mc_selRange mc
       in ev_bind (matrixIterSlice bl ev mint maxt it points st) (\<lambda>(st1, it1, points1).
            if points1 = [] then call_steps lb bl ev mc labels tss (step + 1) it1 points1 enh out st1
            else ev_bind (lookup_call (mc_name mc) lb
                     (in_args vs \<lparr>sr_Metric = labels, sr_Points = points1\<rparr>) (mc_args mc) (enh\<lparr>enh_ts := ts\<rparr>))
                   (\<lambda>(enh', outVec).
                     call_steps lb bl ev mc labels tss (step + 1)
                       (bl_ReduceDelta bl (min (mc_selRange mc) (ev_interval ev)) it1) points1 enh'
                       (case outVec of [] \<Rightarrow> out | s # _ \<Rightarrow> out @ [\<lparr>pt_T = ts, pt_V = pt_V (sm_Point s)\<rparr>]) st1)))"

fun call_series ::
  "promql_lib \<Rightarrow> 'it buffer_lib \<Rightarrow> evaluator \<Rightarrow> matrix_call \<Rightarrow> sseries list \<Rightarrow> enh \<Rightarrow> matrix \<Rightarrow> ev_state \<Rightarrow> (ev_state \<times> matrix) ev" where
  "call_series lb bl ev mc [] enh mat st = Inr (st, mat)"
| "call_series lb bl ev mc (s # ss) enh mat st =
     ev_bind (call_steps lb bl ev mc (ss_Labels s) (ev_steps ev) 0 (bl_New bl (mc_selRange mc) (ss_Points s)) [] enh [] st)
       (\<lambda>(st', enh', ps).
         if ps = [] then call_series lb bl ev mc ss enh' mat st'
         else if st_currentSamples st' < ev_maxSamples ev
         then call_series lb bl ev mc ss enh' (mat @ [\<lparr>sr_Metric = dropMetricName lb (ss_Labels s), sr_Points = ps\<rparr>])
                (add_samples (int (length ps)) st')
         else too_many)"

text \<open>The series of ones for the steps at which no series of \<open>absent_over_time\<close> has a value.\<close>

fun all_found :: "nat \<Rightarrow> nat \<Rightarrow> matrix \<Rightarrow> int set \<Rightarrow> bool \<times> int set" where
  "all_found steps i [] found = (False, found)"
| "all_found steps i (s # ss) found =
     (let found' = found \<union> pt_T ` set (sr_Points s)
      in if i > 0 \<and> card found' = steps then (True, found') else all_found steps (i + 1) ss found')"

definition absent_matrix :: "promql_lib \<Rightarrow> evaluator \<Rightarrow> expr \<Rightarrow> matrix \<Rightarrow> matrix" where
  "absent_matrix lb ev arg mat =
     (let steps = nat (1 + go_quot (ev_endTimestamp ev - ev_startTimestamp ev) (ev_interval ev))
      in if \<exists>s \<in> set mat. length (sr_Points s) = steps then []
         else let (complete, found) = all_found steps 0 mat {}
              in if complete then []
                 else [\<lparr>sr_Metric = createLabelsForAbsentFunction lb arg,
                        sr_Points = map (\<lambda>ts. \<lparr>pt_T = ts, pt_V = f_one\<rparr>) (filter (\<lambda>ts. ts \<notin> found) (ev_steps ev))\<rparr>])"

definition matrix_call_result ::
  "promql_lib \<Rightarrow> 'it buffer_lib \<Rightarrow> evaluator \<Rightarrow> matrix_call \<Rightarrow> vsel \<Rightarrow> ev_state \<Rightarrow> (ev_state \<times> pvalue) ev" where
  "matrix_call_result lb bl ev mc vs st =
     ev_bind (checkForSeriesSetExpansion vs) (\<lambda>ss.
     ev_bind (call_series lb bl ev mc ss new_enh [] st) (\<lambda>(st', mat).
       if mc_name mc = ''absent_over_time'' then Inr (st', VMatrix (absent_matrix lb ev (hd (mc_args mc)) mat))
       else if matrix_ContainsSameLabelset (L_Hash lb) mat then same_labelset_error
       else Inr (st', VMatrix mat)))"

text \<open>\<open>evalSubquery\<close>: the matrix of a subquery as a range selector over computed series.\<close>

definition subquery_selector :: "matrix \<Rightarrow> int \<Rightarrow> int \<Rightarrow> vsel" where
  "subquery_selector val rng offset =
     \<lparr>vs_Id = 0, vs_Offset = offset, vs_LabelMatchers = [],
      vs_Series = Inr (map (\<lambda>s. \<lparr>ss_Labels = sr_Metric s, ss_Points = sr_Points s\<rparr>) val)\<rparr>"

lemma unwrap_size: "size (unwrapParenExpr e) \<le> size e"
  by (induction e rule: unwrapParenExpr.induct) simp_all

lemma find_matrix_arg_size: "find_matrix_arg as = (as', i) \<Longrightarrow> size_list size as' \<le> size_list size as"
  by (induction as arbitrary: as' i) (auto simp: Let_def add_mono unwrap_size split: if_splits prod.splits)

lemma find_matrix_arg_nth:
  "find_matrix_arg as = (as', Some i) \<Longrightarrow> i < length as' \<and> is_matrix_arg (as' ! i)"
  by (induction as arbitrary: as' i) (auto simp: Let_def split: if_splits prod.splits)

lemma size_mem_less: "(x :: expr) \<in> set as \<Longrightarrow> size x < size_list size as"
  by (induction as) auto

lemma size_nth_less: "i < length (as :: expr list) \<Longrightarrow> size (as ! i) < size_list size as"
  by (rule size_mem_less) (rule nth_mem)

text \<open>The arguments that are evaluated: all but the range vector.\<close>

definition omit_arg :: "nat \<Rightarrow> expr list \<Rightarrow> expr option list" where
  "omit_arg i as = map (\<lambda>(j, a). if j = i then None else Some a) (enumerate 0 as)"

definition operands :: "expr option list \<Rightarrow> expr option list" where
  "operands es = map (\<lambda>o'. case o' of None \<Rightarrow> None | Some e \<Rightarrow> if expr_Type e = VT_String then None else Some e) es"

definition opt_size :: "expr option list \<Rightarrow> nat" where
  "opt_size os = sum_list (map (\<lambda>o'. case o' of None \<Rightarrow> 1 | Some e \<Rightarrow> Suc (3 * size e)) os)"

lemma opt_size_simps [simp]:
  "opt_size [] = 0"
  "opt_size (None # os) = Suc (opt_size os)"
  "opt_size (Some e # os) = Suc (3 * size e + opt_size os)"
  by (simp_all add: opt_size_def)

lemma opt_size_omit: "opt_size (omit_arg i as) \<le> 3 * size_list size as"
proof -
  have "opt_size (map (\<lambda>(j, a). if j = i then None else Some a) (enumerate n as)) \<le> 3 * size_list size as" for n
  proof (induction as arbitrary: n)
    case (Cons a as)
    show ?case using Cons [of "Suc n"] by (cases "n = i") simp_all
  qed simp
  then show ?thesis by (simp add: omit_arg_def)
qed

lemma opt_size_operands: "opt_size (operands os) \<le> opt_size os"
proof (induction os)
  case (Cons o' os)
  then show ?case by (cases o') (simp_all add: operands_def)
qed (simp add: operands_def)

lemma opt_size_some: "opt_size (map Some es) \<le> 3 * size_list size es"
  by (induction es) simp_all

lemma ev_bind_cong [fundef_cong]:
  "m = m' \<Longrightarrow> (\<And>a. m' = Inr a \<Longrightarrow> f a = f' a) \<Longrightarrow> ev_bind m f = ev_bind m' f'"
  by (cases m') simp_all

definition unhandled :: "'a ev" where
  "unhandled = ev_errorf ''unhandled expression''"

definition range_value :: "promql_lib \<Rightarrow> evaluator \<Rightarrow> node_fun \<Rightarrow> ev_state \<Rightarrow> ev_state \<times> matrix list \<Rightarrow> (ev_state \<times> pvalue) ev" where
  "range_value lb ev f st0 r =
     ev_bind (rangeEval lb ev f (st_currentSamples st0) (snd r) (fst r)) (\<lambda>(st', m). Inr (st', VMatrix m))"

definition string_literal :: "expr option \<Rightarrow> string option" where
  "string_literal p = (case p of Some (E_String s) \<Rightarrow> Some s | _ \<Rightarrow> None)"

definition timestamp_selector :: "string \<Rightarrow> expr list \<Rightarrow> vsel option" where
  "timestamp_selector name args =
     (case args of E_Vector vs # _ \<Rightarrow> if name = ''timestamp'' then Some vs else None | _ \<Rightarrow> None)"

function (sequential) eval :: "promql_lib \<Rightarrow> 'it buffer_lib \<Rightarrow> evaluator \<Rightarrow> expr \<Rightarrow> ev_state \<Rightarrow> (ev_state \<times> pvalue) ev"
  and evals :: "promql_lib \<Rightarrow> 'it buffer_lib \<Rightarrow> evaluator \<Rightarrow> expr option list \<Rightarrow> ev_state \<Rightarrow> (ev_state \<times> matrix list) ev"
where
  "eval lb bl ev e st0 =
     ev_bind (contextDone ev evaluation_env st0) (\<lambda>st.
     if ev_interval ev = 0 then divide_by_zero
     else if is_top ev e then eval_top lb e st
     else case e of
       E_Number v \<Rightarrow> range_value lb ev (number_node v) st (st, [])
     | E_String s \<Rightarrow> Inr (st, VString (ev_startTimestamp ev) s)
     | E_Paren e' \<Rightarrow> eval lb bl ev e' st
     | E_Unary op e' \<Rightarrow>
         ev_bind (eval lb bl ev e' st) (\<lambda>(st', v).
         ev_bind (as_matrix v) (\<lambda>m.
           if op = I_SUB then let m' = negate_matrix lb m
             in if matrix_ContainsSameLabelset (L_Hash lb) m' then same_labelset_error else Inr (st', VMatrix m')
           else Inr (st', VMatrix m)))
     | E_Binary op l r m returnBool \<Rightarrow>
         (case binary_node lb op (expr_Type l) (expr_Type r) m returnBool of
            None \<Rightarrow> unhandled
          | Some f \<Rightarrow> ev_bind (evals lb bl ev (operands [Some l, Some r]) st) (range_value lb ev f st))
     | E_Vector vs \<Rightarrow>
         ev_bind (checkForSeriesSetExpansion vs) (\<lambda>ss.
         ev_bind (instant_series bl ev vs ss [] st) (\<lambda>(st', m). Inr (st', VMatrix m)))
     | E_Matrix vs rng \<Rightarrow>
         if ev_startTimestamp ev \<noteq> ev_endTimestamp ev
         then ev_errorf ''cannot do range evaluation of matrix selector''
         else ev_bind (matrixSelector bl ev vs rng st) (\<lambda>(st', m). Inr (st', VMatrix m))
     | E_Subquery e' rng offset step \<Rightarrow>
         ev_bind (subquery_evaluator ev rng offset step) (\<lambda>newEv. eval lb bl newEv e' st)
     | E_Aggregate op e' param grouping without \<Rightarrow>
         (let param' = map_option unwrapParenExpr param
          in case string_literal param' of
               Some s \<Rightarrow>
                 ev_bind (evals lb bl ev (operands [Some e']) st)
                   (range_value lb ev (aggregate_string_node lb op grouping without s) st)
             | None \<Rightarrow>
                 ev_bind (evals lb bl ev (operands [param', Some e']) st)
                   (range_value lb ev (aggregate_node lb op grouping without (param' \<noteq> None)) st))
     | E_Call i fn args \<Rightarrow>
         if fn_Name fn = ''timestamp'' \<and> args = [] then index_error
         else (case timestamp_selector (fn_Name fn) args of
            Some vs \<Rightarrow> range_value lb ev (timestamp_node lb bl ev vs args) st (st, [])
          | None \<Rightarrow>
            (case find_matrix_arg args of
               (args', None) \<Rightarrow>
                 ev_bind (evals lb bl ev (operands (map Some args')) st)
                   (range_value lb ev (call_node lb (fn_Name fn) args') st)
             | (args', Some k) \<Rightarrow>
                 ev_bind (case args' ! k of
                     E_Subquery q rng offset step \<Rightarrow>
                       ev_bind (eval lb bl ev (args' ! k) st) (\<lambda>(st', v).
                       ev_bind (as_matrix v) (\<lambda>m. Inr (st', subquery_selector m rng offset, rng)))
                   | E_Matrix vs rng \<Rightarrow> Inr (st, vs, rng)
                   | _ \<Rightarrow> type_assertion)
                 (\<lambda>(st1, vs, rng).
                 ev_bind (evals lb bl ev (omit_arg k args') st1) (\<lambda>(st2, ms).
                   matrix_call_result lb bl ev
                     \<lparr>mc_name = fn_Name fn, mc_args = args'[k := E_Matrix vs rng],
                      mc_others = map (\<lambda>(j, m). if j = k then None else Some m) (enumerate 0 ms),
                      mc_offset = durationMilliseconds (vs_Offset vs), mc_selRange = durationMilliseconds rng\<rparr>
                     vs st2)))))"
| "evals lb bl ev [] st = Inr (st, [])"
| "evals lb bl ev (None # os) st = ev_bind (evals lb bl ev os st) (\<lambda>(st', ms). Inr (st', [] # ms))"
| "evals lb bl ev (Some e # os) st =
     ev_bind (eval lb bl ev e st) (\<lambda>(st', v).
     ev_bind (as_matrix v) (\<lambda>m.
     ev_bind (evals lb bl ev os st') (\<lambda>(st'', ms). Inr (st'', m # ms))))"
  by pat_completeness auto


lemma subquery_arg_size:
  assumes "(as', Some i) = find_matrix_arg as" and "as' ! i = E_Subquery q rng offset step"
  shows "size q < size_list size as"
proof -
  have "find_matrix_arg as = (as', Some i)" using assms(1) by simp
  then have "size (as' ! i) < size_list size as"
    using size_nth_less [of i as'] find_matrix_arg_nth find_matrix_arg_size by fastforce
  then show ?thesis using assms(2) by simp
qed

lemma operands_call_size:
  assumes "(as', i) = find_matrix_arg as"
  shows "opt_size (operands (map Some as')) < 3 + 3 * size_list size as"
  using opt_size_operands [of "map Some as'"] opt_size_some [of as'] find_matrix_arg_size [OF assms [symmetric]] by simp

lemma omit_call_size:
  assumes "(as', i) = find_matrix_arg as"
  shows "opt_size (omit_arg k as') < 3 + 3 * size_list size as"
  using opt_size_omit [of k as'] find_matrix_arg_size [OF assms [symmetric]] by simp

lemma operands_param_size:
  "opt_size (operands [map_option unwrapParenExpr p, Some e]) < 3 + (3 * size_option size p + 3 * size e)"
proof (cases p)
  case None
  then show ?thesis using opt_size_operands [of "[None, Some e]"] by simp
next
  case (Some q)
  then show ?thesis using opt_size_operands [of "[Some (unwrapParenExpr q), Some e]"] unwrap_size [of q] by simp
qed

lemma operands_one_size: "opt_size (operands [Some e]) < 3 + (k + 3 * size e)"
  using opt_size_operands [of "[Some e]"] by simp

lemma operands_two_size: "opt_size (operands [Some l, Some r]) < 3 + (3 * size l + 3 * size r)"
  using opt_size_operands [of "[Some l, Some r]"] by simp

lemmas eval_sizes =
  operands_call_size omit_call_size subquery_arg_size operands_param_size operands_one_size operands_two_size

termination eval
  by (relation "measure (case_sum (\<lambda>(lb, bl, ev, e, st). 3 * size e) (\<lambda>(lb, bl, ev, os, st). opt_size os))")
    (simp_all add: eval_sizes)

declare eval.simps [simp del]

end
