(* ===== verification/Promql_Engine.thy ===== *)
theory Promql_Engine
  imports Promql_Eval
begin

text \<open>
  The engine of PromQL, \<open>pkg/promql/engine.go\<close> from \<open>NewEngine\<close> to \<open>expandSeriesSet\<close>: from a parsed query to
  a result.  Times are nanoseconds since the epoch and durations nanoseconds.  The storage of a query
  (the interfaces \<open>Queryable\<close> and \<open>Querier\<close>), the tracker of active queries, and the parser are parameters.
  Timers, spans, metrics and the query log are left out.
\<close>


section \<open>Engine and queries\<close>

record engine_opts =
  opt_MaxSamples :: int
  opt_Timeout :: int
  opt_LookbackDelta :: int

record engine =
  ng_timeout :: int
  ng_maxSamplesPerQuery :: int
  ng_lookbackDelta :: int

definition defaultLookbackDelta :: int where
  "defaultLookbackDelta = 5 * 60 * 1000000000"

definition NewEngine :: "engine_opts \<Rightarrow> engine" where
  "NewEngine opts = \<lparr>ng_timeout = opt_Timeout opts, ng_maxSamplesPerQuery = opt_MaxSamples opts,
     ng_lookbackDelta = (if opt_LookbackDelta opts = 0 then defaultLookbackDelta else opt_LookbackDelta opts)\<rparr>"

text \<open>\<open>pkg/query/query_engine.go\<close>; \<open>math.MaxInt32\<close> samples.\<close>

definition query_NewEngine :: "int \<Rightarrow> engine" where
  "query_NewEngine queryTimeout =
     NewEngine \<lparr>opt_MaxSamples = 2 ^ 31 - 1, opt_Timeout = queryTimeout, opt_LookbackDelta = 0\<rparr>"

record eval_stmt =
  es_Expr :: expr
  es_Start :: int
  es_End :: int
  es_Interval :: int

text \<open>The only other kind of statement, \<open>TestStmt\<close>, is made by tests.\<close>

record query =
  q_text :: string
  q_stmt :: eval_stmt

definition newQuery :: "expr \<Rightarrow> int \<Rightarrow> int \<Rightarrow> int \<Rightarrow> query" where
  "newQuery e start end_t interval =
     \<lparr>q_text = '''', q_stmt = \<lparr>es_Expr = e, es_Start = start, es_End = end_t, es_Interval = interval\<rparr>\<rparr>"

text \<open>\<open>parse\<close> is \<open>parser.ParseExpr\<close>.\<close>

definition NewInstantQuery :: "(string \<Rightarrow> expr result) \<Rightarrow> string \<Rightarrow> int \<Rightarrow> query result" where
  "NewInstantQuery parse qs ts =
     (case parse qs of
        Inl e \<Rightarrow> Inl e
      | Inr e \<Rightarrow> Inr ((newQuery e ts ts 0)\<lparr>q_text := qs\<rparr>))"

text \<open>\<open>parser.DocumentedType\<close>\<close>

definition DocumentedType :: "value_type \<Rightarrow> string" where
  "DocumentedType t =
     (case t of VT_Vector \<Rightarrow> ''instant vector'' | VT_Matrix \<Rightarrow> ''range vector'' | VT_Scalar \<Rightarrow> ''scalar''
      | VT_String \<Rightarrow> ''string'' | VT_None \<Rightarrow> ''none'')"

definition invalid_range_type :: "promql_lib \<Rightarrow> value_type \<Rightarrow> go_error" where
  "invalid_range_type lb t =
     ErrMsg (''invalid expression type '' @ G_Quote lb (DocumentedType t) @ '' for range query, must be Scalar or instant Vector'')"

definition NewRangeQuery ::
  "promql_lib \<Rightarrow> (string \<Rightarrow> expr result) \<Rightarrow> string \<Rightarrow> int \<Rightarrow> int \<Rightarrow> int \<Rightarrow> query result" where
  "NewRangeQuery lb parse qs start end_t interval =
     (case parse qs of
        Inl e \<Rightarrow> Inl e
      | Inr e \<Rightarrow>
          if expr_Type e \<noteq> VT_Vector \<and> expr_Type e \<noteq> VT_Scalar then Inl (invalid_range_type lb (expr_Type e))
          else Inr ((newQuery e start end_t interval)\<lparr>q_text := qs\<rparr>))"

definition timeMilliseconds :: "int \<Rightarrow> int" where
  "timeMilliseconds t = go_quot (UnixNano t) 1000000"

definition durationToInt64Millis :: "int \<Rightarrow> int" where
  "durationToInt64Millis d = go_quot d 1000000"

text \<open>\<open>timestamp.FromTime\<close>: \<open>t.Unix()*1000 + int64(t.Nanosecond())/int64(time.Millisecond)\<close>\<close>

definition FromTime :: "int \<Rightarrow> int" where
  "FromTime t = wrap64 (wrap64 (t div 1000000000) * 1000 + t mod 1000000000 div 1000000)"


section \<open>Preparation\<close>

text \<open>What the engine and the storage look at in the path to a node.\<close>

datatype path_node =
    N_Aggregate item_type bool "string list"
  | N_Call nat string
  | N_Binary
  | N_Subquery int int
  | N_Other

definition path_node_of :: "expr \<Rightarrow> path_node" where
  "path_node_of e =
     (case e of
        E_Aggregate op _ _ grouping without \<Rightarrow> N_Aggregate op without grouping
      | E_Call i fn _ \<Rightarrow> N_Call i (fn_Name fn)
      | E_Binary _ _ _ _ _ \<Rightarrow> N_Binary
      | E_Subquery _ rng offset _ \<Rightarrow> N_Subquery rng offset
      | _ \<Rightarrow> N_Other)"

fun cumulativeSubqueryOffset :: "path_node list \<Rightarrow> int \<Rightarrow> int" where
  "cumulativeSubqueryOffset [] subqOffset = subqOffset"
| "cumulativeSubqueryOffset (n # ns) subqOffset =
     cumulativeSubqueryOffset ns
       (case n of N_Subquery rng offset \<Rightarrow> wrap64 (subqOffset + wrap64 (rng + offset)) | _ \<Rightarrow> subqOffset)"

definition raise_to :: "int \<Rightarrow> int \<Rightarrow> int" where
  "raise_to m maxOffset = (if maxOffset < m then m else maxOffset)"

text \<open>\<open>findMinTime\<close>: the walk does not descend from a range selector to its vector selector.\<close>

fun max_offset :: "int \<Rightarrow> path_node list \<Rightarrow> expr \<Rightarrow> int \<Rightarrow> int" where
  "max_offset lookback path (E_Vector vs) m =
     (let subq = cumulativeSubqueryOffset path 0
      in raise_to (wrap64 (wrap64 (vs_Offset vs + lookback) + subq)) (raise_to (wrap64 (lookback + subq)) m))"
| "max_offset lookback path (E_Matrix vs rng) m =
     (let subq = cumulativeSubqueryOffset path 0
      in raise_to (wrap64 (wrap64 (vs_Offset vs + rng) + subq)) (raise_to (wrap64 (rng + subq)) m))"
| "max_offset lookback path (E_Paren e) m = max_offset lookback (path @ [N_Other]) e m"
| "max_offset lookback path (E_Unary op e) m = max_offset lookback (path @ [N_Other]) e m"
| "max_offset lookback path (E_Binary op l r vm b) m =
     max_offset lookback (path @ [N_Binary]) r (max_offset lookback (path @ [N_Binary]) l m)"
| "max_offset lookback path (E_Subquery e rng offset step) m = max_offset lookback (path @ [N_Subquery rng offset]) e m"
| "max_offset lookback path (E_Aggregate op e p grouping without) m =
     (let path' = path @ [N_Aggregate op without grouping]; m' = max_offset lookback path' e m
      in case p of None \<Rightarrow> m' | Some q \<Rightarrow> max_offset lookback path' q m')"
| "max_offset lookback path (E_Call i fn args) m =
     fold (\<lambda>a m. max_offset lookback (path @ [N_Call i (fn_Name fn)]) a m) args m"
| "max_offset lookback path e m = m"

definition findMinTime :: "engine \<Rightarrow> eval_stmt \<Rightarrow> int" where
  "findMinTime ng s = es_Start s - max_offset (ng_lookbackDelta ng) [] (es_Expr s) 0"

fun extractFuncFromPath :: "promql_lib \<Rightarrow> path_node list \<Rightarrow> string" where
  "extractFuncFromPath lb p =
     (if p = [] then ''''
      else case last p of
             N_Aggregate op _ _ \<Rightarrow> P_ItemString lb op
           | N_Call _ name \<Rightarrow> name
           | N_Binary \<Rightarrow> ''''
           | _ \<Rightarrow> extractFuncFromPath lb (butlast p))"

declare extractFuncFromPath.simps [simp del]

definition extractGroupsFromPath :: "path_node list \<Rightarrow> bool \<times> string list" where
  "extractGroupsFromPath p =
     (if p = [] then (False, [])
      else case last p of N_Aggregate _ without grouping \<Rightarrow> (\<not> without, grouping) | _ \<Rightarrow> (False, []))"

record engine_hints = selectHints +
  h_Func :: string
  h_By :: bool
  h_Grouping :: "string list"

text \<open>
  A querier: what \<open>Select\<close> returns for hints, a path and matchers, and its new state.  The set of
  series stands for what its expansion gives; the second result is the node that the storage has
  evaluated itself.
\<close>

type_synonym selected = "(sseries list ev \<times> nat option) result"

type_synonym 'q select_fun =
  "'q \<Rightarrow> engine_hints \<Rightarrow> path_node list \<Rightarrow> matcher list \<Rightarrow> 'q \<times> selected \<times> string list"

record 'q pop_state =
  po_evalRange :: int
  po_warnings :: "string list"
  po_err :: "go_error option"
  po_topNode :: "nat option"
  po_stopped :: bool
  po_querier :: 'q

definition select_hints :: "promql_lib \<Rightarrow> engine \<Rightarrow> eval_stmt \<Rightarrow> path_node list \<Rightarrow> vsel \<Rightarrow> int \<Rightarrow> engine_hints" where
  "select_hints lb ng s path n evalRange =
     (let start0 = FromTime (es_Start s) - durationMilliseconds (cumulativeSubqueryOffset path 0);
          rng = durationMilliseconds evalRange;
          start1 = (if evalRange = 0 then start0 - durationMilliseconds (ng_lookbackDelta ng) else start0 - rng);
          shift = (if vs_Offset n > 0 then durationMilliseconds (vs_Offset n) else 0);
          (by, grouping) = extractGroupsFromPath path
      in \<lparr>h_Start = start1 - shift, h_End = FromTime (es_End s) - shift, h_Step = durationToInt64Millis (es_Interval s),
          h_Range = (if evalRange = 0 then 0 else rng), h_Func = extractFuncFromPath lb path, h_By = by, h_Grouping = grouping\<rparr>)"

text \<open>The visit of a vector selector; an error stops the walk.\<close>

definition populate_selector ::
  "promql_lib \<Rightarrow> 'q select_fun \<Rightarrow> engine \<Rightarrow> eval_stmt \<Rightarrow> path_node list \<Rightarrow> vsel \<Rightarrow> 'q pop_state \<Rightarrow> vsel \<times> 'q pop_state" where
  "populate_selector lb select ng s path n po =
     (let hints = select_hints lb ng s path n (po_evalRange po); po1 = po\<lparr>po_evalRange := 0\<rparr>
      in if po_topNode po \<noteq> None then (n, po1\<lparr>po_stopped := True\<rparr>)
         else let (q', r, wrn) = select (po_querier po) hints path (vs_LabelMatchers n);
                  po2 = po1\<lparr>po_querier := q', po_warnings := po_warnings po @ wrn\<rparr>
              in case r of
                   Inl e \<Rightarrow> (n, po2\<lparr>po_err := Some e, po_stopped := True\<rparr>)
                 | Inr (ss, node) \<Rightarrow> (n\<lparr>vs_Series := ss\<rparr>, po2\<lparr>po_err := None, po_topNode := node\<rparr>))"

fun populate ::
  "promql_lib \<Rightarrow> 'q select_fun \<Rightarrow> engine \<Rightarrow> eval_stmt \<Rightarrow> path_node list \<Rightarrow> expr \<Rightarrow> 'q pop_state \<Rightarrow> expr \<times> 'q pop_state"
  and populate_list ::
  "promql_lib \<Rightarrow> 'q select_fun \<Rightarrow> engine \<Rightarrow> eval_stmt \<Rightarrow> path_node list \<Rightarrow> expr list \<Rightarrow> 'q pop_state \<Rightarrow> expr list \<times> 'q pop_state"
where
  "populate lb sel ng s path (E_Number v) po = (E_Number v, po)"
| "populate lb sel ng s path (E_String v) po = (E_String v, po)"
| "populate lb sel ng s path (E_Paren e) po =
     (if po_stopped po then (E_Paren e, po)
      else let (e', po') = populate lb sel ng s (path @ [N_Other]) e po in (E_Paren e', po'))"
| "populate lb sel ng s path (E_Unary op e) po =
     (if po_stopped po then (E_Unary op e, po)
      else let (e', po') = populate lb sel ng s (path @ [N_Other]) e po in (E_Unary op e', po'))"
| "populate lb sel ng s path (E_Binary op l r m b) po =
     (if po_stopped po then (E_Binary op l r m b, po)
      else let (l', po1) = populate lb sel ng s (path @ [N_Binary]) l po;
               (r', po2) = populate lb sel ng s (path @ [N_Binary]) r po1
           in (E_Binary op l' r' m b, po2))"
| "populate lb sel ng s path (E_Vector vs) po =
     (if po_stopped po then (E_Vector vs, po)
      else let (vs', po') = populate_selector lb sel ng s path vs po in (E_Vector vs', po'))"
| "populate lb sel ng s path (E_Matrix vs rng) po =
     (if po_stopped po then (E_Matrix vs rng, po)
      else let (vs', po') = populate_selector lb sel ng s (path @ [N_Other]) vs (po\<lparr>po_evalRange := rng\<rparr>)
           in (E_Matrix vs' rng, po'))"
| "populate lb sel ng s path (E_Subquery e rng offset step) po =
     (if po_stopped po then (E_Subquery e rng offset step, po)
      else let (e', po') = populate lb sel ng s (path @ [N_Subquery rng offset]) e po
           in (E_Subquery e' rng offset step, po'))"
| "populate lb sel ng s path (E_Aggregate op e p grouping without) po =
     (if po_stopped po then (E_Aggregate op e p grouping without, po)
      else let path' = path @ [N_Aggregate op without grouping];
               (e', po1) = populate lb sel ng s path' e po
           in case p of
                None \<Rightarrow> (E_Aggregate op e' None grouping without, po1)
              | Some q \<Rightarrow> (let (q', po2) = populate lb sel ng s path' q po1
                          in (E_Aggregate op e' (Some q') grouping without, po2)))"
| "populate lb sel ng s path (E_Call i fn args) po =
     (if po_stopped po then (E_Call i fn args, po)
      else let (args', po') = populate_list lb sel ng s (path @ [N_Call i (fn_Name fn)]) args po
           in (E_Call i fn args', po'))"
| "populate_list lb sel ng s path [] po = ([], po)"
| "populate_list lb sel ng s path (a # as) po =
     (let (a', po1) = populate lb sel ng s path a po;
          (as', po2) = populate_list lb sel ng s path as po1
      in (a' # as', po2))"

definition populateSeries ::
  "promql_lib \<Rightarrow> 'q select_fun \<Rightarrow> 'q \<Rightarrow> engine \<Rightarrow> eval_stmt \<Rightarrow> expr \<times> 'q pop_state" where
  "populateSeries lb select q ng s =
     populate lb select ng s [] (es_Expr s)
       \<lparr>po_evalRange = 0, po_warnings = [], po_err = None, po_topNode = None, po_stopped = False, po_querier = q\<rparr>"


section \<open>Execution\<close>

text \<open>
  \<open>recover\<close>: a run-time error becomes an error, and so does a panic with an error; the assertion that
  another value is an error panics again.
\<close>

definition recover_panic :: "ev_panic \<Rightarrow> query_error outcome" where
  "recover_panic p =
     (case p of
        EvError e \<Rightarrow> Return e
      | EvRuntime m \<Rightarrow> Return (PlainError (ErrWrap ''unexpected error'' (ErrMsg m)))
      | EvValue m \<Rightarrow> Panic ''interface conversion: not an error'')"

definition Eval :: "promql_lib \<Rightarrow> 'it buffer_lib \<Rightarrow> evaluator \<Rightarrow> expr \<Rightarrow> ev_state \<Rightarrow> (query_error + ev_state \<times> pvalue) outcome" where
  "Eval lb bl ev e st =
     (case eval lb bl ev e st of
        Inl p \<Rightarrow> outcome_bind (recover_panic p) (\<lambda>err. Return (Inl err))
      | Inr r \<Rightarrow> Return (Inr r))"

type_synonym exec_result = "(query_error + pvalue) \<times> string list"

text \<open>The result of an instant query by the type of its expression.\<close>

definition instant_sample :: "int \<Rightarrow> series \<Rightarrow> psample outcome" where
  "instant_sample start s =
     (case sr_Points s of
        [] \<Rightarrow> Panic ''index out of range''
      | p # _ \<Rightarrow> Return \<lparr>sm_Point = \<lparr>pt_T = start, pt_V = pt_V p\<rparr>, sm_Metric = sr_Metric s\<rparr>)"

fun instant_vector :: "int \<Rightarrow> matrix \<Rightarrow> vector outcome" where
  "instant_vector start [] = Return []"
| "instant_vector start (s # ss) =
     outcome_bind (instant_sample start s) (\<lambda>x. outcome_bind (instant_vector start ss) (\<lambda>v. Return (x # v)))"

definition instant_value :: "value_type \<Rightarrow> int \<Rightarrow> pvalue \<Rightarrow> pvalue outcome" where
  "instant_value t start val =
     (case val of
        VString ts s \<Rightarrow> Return (VString ts s)
      | VMatrix mat \<Rightarrow>
          (case t of
             VT_Vector \<Rightarrow> outcome_bind (instant_vector start mat) (\<lambda>v. Return (VVector v))
           | VT_Scalar \<Rightarrow>
               (case mat of
                  [] \<Rightarrow> Panic ''index out of range''
                | s # _ \<Rightarrow> outcome_bind (instant_sample start s) (\<lambda>x. Return (VScalar start (pt_V (sm_Point x)))))
           | VT_Matrix \<Rightarrow> Return (VMatrix mat)
           | _ \<Rightarrow> Panic ''unexpected expression type'')
      | _ \<Rightarrow> Panic ''invalid expression type'')"

definition is_instant :: "eval_stmt \<Rightarrow> bool" where
  "is_instant s \<longleftrightarrow> es_Start s = es_End s \<and> es_Interval s = 0"

definition stmt_evaluator :: "engine \<Rightarrow> int \<Rightarrow> (nat \<Rightarrow> ctx_error option) \<Rightarrow> nat option \<Rightarrow> eval_stmt \<Rightarrow> evaluator" where
  "stmt_evaluator ng defaultInterval ctx topNode s =
     \<lparr>ev_startTimestamp = timeMilliseconds (es_Start s),
      ev_endTimestamp = timeMilliseconds (if is_instant s then es_Start s else es_End s),
      ev_interval = (if is_instant s then 1 else durationMilliseconds (es_Interval s)),
      ev_maxSamples = ng_maxSamplesPerQuery ng, ev_defaultEvalInterval = defaultInterval,
      ev_lookbackDelta = ng_lookbackDelta ng, ev_topNode = topNode, ev_ctx = ctx\<rparr>"

definition start_state :: "nat \<Rightarrow> ev_state" where
  "start_state n = \<lparr>st_currentSamples = 0, st_checks = n\<rparr>"

text \<open>\<open>sort.Sort(mat)\<close> by the labels of the series.\<close>

definition sort_matrix :: "promql_lib \<Rightarrow> matrix \<Rightarrow> matrix" where
  "sort_matrix lb m = sort_by (\<lambda>a b. L_Compare lb (sr_Metric a) (sr_Metric b) < 0) m"

text \<open>
  \<open>openQuerier\<close> is \<open>Queryable.Querier\<close>; \<open>defaultInterval\<close> is the package variable
  \<open>DefaultEvaluationInterval\<close> in milliseconds; \<open>n\<close> counts the looks at the context before.
\<close>

definition execEvalStmt ::
  "promql_lib \<Rightarrow> 'it buffer_lib \<Rightarrow> (int \<Rightarrow> int \<Rightarrow> 'q result) \<Rightarrow> 'q select_fun \<Rightarrow> engine \<Rightarrow> int \<Rightarrow>
   (nat \<Rightarrow> ctx_error option) \<Rightarrow> nat \<Rightarrow> eval_stmt \<Rightarrow> exec_result outcome" where
  "execEvalStmt lb bl openQuerier select ng defaultInterval ctx n s =
     (case openQuerier (FromTime (findMinTime ng s)) (FromTime (es_End s)) of
        Inl e \<Rightarrow> Return (Inl (PlainError e), [])
      | Inr q \<Rightarrow>
          (let (e, po) = populateSeries lb select q ng s;
               warnings = po_warnings po;
               ev = stmt_evaluator ng defaultInterval ctx (po_topNode po) s
           in case po_err po of
                Some err \<Rightarrow> Return (Inl (PlainError err), warnings)
              | None \<Rightarrow>
                  outcome_bind (Eval lb bl ev e (start_state n)) (\<lambda>r.
                    case r of
                      Inl err \<Rightarrow> Return (Inl err, warnings)
                    | Inr (st, val) \<Rightarrow>
                        if is_instant s
                        then outcome_bind (instant_value (expr_Type (es_Expr s)) (ev_startTimestamp ev) val)
                               (\<lambda>v. Return (Inr v, warnings))
                        else (case val of
                                VMatrix mat \<Rightarrow>
                                  (case ctx (st_checks st) of
                                     Some err \<Rightarrow> Return (Inl (contextErr err evaluation_env), warnings)
                                   | None \<Rightarrow> Return (Inr (VMatrix (sort_matrix lb mat)), warnings))
                              | _ \<Rightarrow> Panic ''invalid expression type''))))"

text \<open>\<open>exec\<close>; \<open>queued\<close> is the error of the insertion into the log of active queries, if there is one.\<close>

definition exec ::
  "promql_lib \<Rightarrow> 'it buffer_lib \<Rightarrow> (int \<Rightarrow> int \<Rightarrow> 'q result) \<Rightarrow> 'q select_fun \<Rightarrow> engine \<Rightarrow> int \<Rightarrow>
   (nat \<Rightarrow> ctx_error option) \<Rightarrow> ctx_error option \<Rightarrow> query \<Rightarrow> exec_result outcome" where
  "exec lb bl openQuerier select ng defaultInterval ctx queued q =
     (case queued of
        Some err \<Rightarrow> Return (Inl (contextErr err ''query queue''), [])
      | None \<Rightarrow>
          (case ctx 0 of
             Some err \<Rightarrow> Return (Inl (contextErr err query_env), [])
           | None \<Rightarrow>
               execEvalStmt lb bl openQuerier select ng defaultInterval ctx 1 (q_stmt q)))"


section \<open>The steps of a range query\<close>

text \<open>
  The loop over the steps as it is written, with the addition of 64-bit integers; a loop that does
  not end has the value \<open>None\<close>.
\<close>

partial_function (option) step_loop :: "int \<Rightarrow> int \<Rightarrow> int \<Rightarrow> int list option" where
  "step_loop ts end_ts interval =
     (if ts \<le> end_ts
      then Option.bind (step_loop (wrap64 (ts + interval)) end_ts interval) (\<lambda>tss. Some (ts # tss))
      else Some [])"

lemma step_loop_eq:
  assumes "0 < interval" "in_int64 ts" "in_int64 (end_ts + interval)"
  shows "step_loop ts end_ts interval = Some (step_list ts end_ts interval)"
  using assms
proof (induction ts end_ts interval rule: step_list.induct)
  case (1 ts end_ts interval)
  show ?case
  proof (cases "ts \<le> end_ts")
    case True
    then have in64: "in_int64 (ts + interval)" using "1.prems" by (simp add: in_int64_def)
    have "step_loop (ts + interval) end_ts interval = Some (step_list (ts + interval) end_ts interval)"
      using "1.IH" True "1.prems"(1,3) in64 by simp
    then show ?thesis
      using True "1.prems"(1) in64 by (subst step_loop.simps, subst step_list.simps) (simp add: wrap64_id)
  next
    case False
    then show ?thesis by (subst step_loop.simps, subst step_list.simps) simp
  qed
qed

lemma step_list_nth:
  assumes "0 < interval"
  shows "step_list ts end_ts interval =
    map (\<lambda>k. ts + int k * interval) [0 ..< (if ts \<le> end_ts then nat ((end_ts - ts) div interval) + 1 else 0)]"
  using assms
proof (induction ts end_ts interval rule: step_list.induct)
  case (1 ts end_ts interval)
  show ?case
  proof (cases "ts \<le> end_ts")
    case True
    let ?n = "nat ((end_ts - ts) div interval)"
    have n: "(if ts + interval \<le> end_ts then nat ((end_ts - (ts + interval)) div interval) + 1 else 0) = ?n"
    proof (cases "ts + interval \<le> end_ts")
      case le: True
      have "(end_ts - ts) div interval = (end_ts - (ts + interval)) div interval + 1"
        using div_add_self1 [of interval "end_ts - (ts + interval)"] "1.prems" by simp
      moreover have "0 \<le> (end_ts - (ts + interval)) div interval" using le "1.prems" by (simp add: pos_imp_zdiv_nonneg_iff)
      ultimately show ?thesis using le by simp
    next
      case False
      with True "1.prems" show ?thesis by (simp add: div_pos_pos_trivial)
    qed
    have "step_list ts end_ts interval = ts # step_list (ts + interval) end_ts interval"
      using True "1.prems" by (subst step_list.simps) simp
    also have "step_list (ts + interval) end_ts interval = map (\<lambda>k. ts + int (Suc k) * interval) [0 ..< ?n]"
      using "1.IH" True "1.prems" unfolding n by (simp add: algebra_simps)
    also have "ts # map (\<lambda>k. ts + int (Suc k) * interval) [0 ..< ?n] = map (\<lambda>k. ts + int k * interval) [0 ..< ?n + 1]"
      by (simp add: upt_conv_Cons map_Suc_upt [symmetric] del: upt_Suc)
    finally show ?thesis using True by simp
  next
    case False
    then show ?thesis by (subst step_list.simps) simp
  qed
qed

lemma go_quot_bound:
  assumes "0 < d" "in_int64 n"
  shows "\<bar>go_quot n d\<bar> * d \<le> 2 ^ 63"
proof -
  have "\<bar>go_quot n d\<bar> = \<bar>n\<bar> div d"
    using assms(1) pos_imp_zdiv_nonneg_iff [of d "\<bar>n\<bar>"] by (simp add: go_quot_def Let_def)
  moreover have "\<bar>n\<bar> div d * d \<le> \<bar>n\<bar>"
    using assms(1) div_mult_mod_eq [of "\<bar>n\<bar>" d] pos_mod_sign [of d "\<bar>n\<bar>"] by linarith
  moreover have "\<bar>n\<bar> \<le> 2 ^ 63" using assms(2) by (simp add: in_int64_def abs_le_iff)
  ultimately show ?thesis by simp
qed

lemma timeMilliseconds_bound: "\<bar>timeMilliseconds t\<bar> \<le> 9223372036855"
  using go_quot_bound [of 1000000 "UnixNano t"] by (simp add: timeMilliseconds_def UnixNano_def)

lemma durationMilliseconds_bound: "in_int64 d \<Longrightarrow> \<bar>durationMilliseconds d\<bar> \<le> 9223372036855"
  using go_quot_bound [of 1000000 d] by (simp add: durationMilliseconds_def)

text \<open>
  C19: the loop over the steps ends.  For every start, end and interval of a range query whose
  interval is at least a millisecond, the loop of \<open>eval\<close> over 64-bit times stops, without wrapping
  around, and its times are those of the model: the start plus multiples of the interval up to the
  end, as many as \<open>numSteps\<close> says.
\<close>
theorem range_steps_terminate:
  fixes start end_t interval :: int
  defines "s \<equiv> timeMilliseconds start" and "e \<equiv> timeMilliseconds end_t" and "i \<equiv> durationMilliseconds interval"
  assumes "in_int64 interval" "1000000 \<le> interval" "s \<le> e"
  shows "step_loop s e i = Some (step_list s e i) \<and>
    step_list s e i = map (\<lambda>k. s + int k * i) [0 ..< nat (go_quot (e - s) i + 1)]"
proof -
  have i: "0 < i" using assms(5) zdiv_mono1 [of 1000000 interval 1000000]
    by (simp add: i_def durationMilliseconds_def go_quot_nonneg)
  have "\<bar>i\<bar> \<le> 9223372036855" unfolding i_def by (rule durationMilliseconds_bound [OF assms(4)])
  then have b: "in_int64 s" "in_int64 (e + i)"
    using timeMilliseconds_bound [of start] timeMilliseconds_bound [of end_t]
    by (auto simp: s_def e_def in_int64_def abs_le_iff)
  have q: "nat (go_quot (e - s) i + 1) = nat ((e - s) div i) + 1"
    using assms(6) i pos_imp_zdiv_nonneg_iff [of i "e - s"] by (simp add: go_quot_nonneg nat_add_distrib)
  show ?thesis using step_loop_eq [OF i b] step_list_nth [OF i, of s e] assms(6) unfolding q by simp
qed

theorem range_steps_terminate_witness:
  "step_loop (timeMilliseconds 0) (timeMilliseconds 40000000000) (durationMilliseconds 15000000000) = Some [0, 15000, 30000]"
  using range_steps_terminate [of 15000000000 0 40000000000]
  by (simp add: timeMilliseconds_def UnixNano_def wrap64_def durationMilliseconds_def go_quot_def in_int64_def upt_rec)

end
