(* ===== verification/Promql_Select.thy ===== *)
theory Promql_Select
  imports Promql_Engine
begin

text \<open>
  What selectors select.  The contract of the buffered iterator of the Prometheus library is stated
  here, and the selectors of the engine are compared with what they mean on a series: the latest
  sample in the lookback window for an instant vector, the samples of a window for a range vector.
\<close>


section \<open>The buffered iterator\<close>

definition strictly_sorted :: "point list \<Rightarrow> bool" where
  "strictly_sorted ps \<longleftrightarrow> sorted_wrt (\<lambda>p q. pt_T p < pt_T q) ps"

definition before :: "int \<Rightarrow> point list \<Rightarrow> point list" where
  "before t ps = takeWhile (\<lambda>p. pt_T p < t) ps"

definition from_time :: "int \<Rightarrow> point list \<Rightarrow> point list" where
  "from_time t ps = dropWhile (\<lambda>p. pt_T p < t) ps"

text \<open>
  The documented behaviour of \<open>BufferedSeriesIterator\<close>.  \<open>pos d ps t it\<close> says that \<open>it\<close> is an iterator over
  \<open>ps\<close> with the buffer range \<open>d\<close> after a successful or unsuccessful seek to \<open>t\<close>.  Seeks go forward; a
  seek finds the first sample at or after \<open>t\<close>; the buffer holds the samples before it from some time on
  that is at least \<open>d\<close> before \<open>t\<close>, and the last of them can be looked at; the range can be reduced.
\<close>

definition buffer_contract :: "'it buffer_lib \<Rightarrow> (int \<Rightarrow> point list \<Rightarrow> int \<Rightarrow> 'it \<Rightarrow> bool) \<Rightarrow> bool" where
  "buffer_contract bl pos \<longleftrightarrow>
     (\<forall>d ps t it ok. strictly_sorted ps \<longrightarrow> bl_Seek bl t (bl_New bl d ps) = (it, ok) \<longrightarrow>
        pos d ps t it \<and> ok = (from_time t ps \<noteq> [])) \<and>
     (\<forall>d ps t0 t it it' ok. pos d ps t0 it \<longrightarrow> t0 \<le> t \<longrightarrow> bl_Seek bl t it = (it', ok) \<longrightarrow>
        pos d ps t it' \<and> ok = (from_time t ps \<noteq> [])) \<and>
     (\<forall>d ps t it. pos d ps t it \<longrightarrow>
        (from_time t ps \<noteq> [] \<longrightarrow> bl_Values bl it = hd (from_time t ps)) \<and>
        (\<forall>p. bl_PeekBack bl it = Some p \<longrightarrow> before t ps \<noteq> [] \<and> p = last (before t ps)) \<and>
        (before t ps \<noteq> [] \<and> t - d \<le> pt_T (last (before t ps)) \<longrightarrow> bl_PeekBack bl it = Some (last (before t ps))) \<and>
        (\<exists>lo \<le> t - d. bl_Buffer bl it = filter (\<lambda>p. lo \<le> pt_T p) (before t ps)) \<and>
        (\<forall>d' \<le> d. pos d' ps t (bl_ReduceDelta bl d' it)) \<and>
        bl_Err bl it = None)"


section \<open>Instant vectors\<close>

text \<open>The latest sample at or before \<open>ref\<close>, unless it is too old or marks the series as stale.\<close>

definition latest_at :: "int \<Rightarrow> point list \<Rightarrow> int \<Rightarrow> point option" where
  "latest_at lookback ps ref =
     (let xs = takeWhile (\<lambda>p. pt_T p \<le> ref) ps
      in if xs = [] \<or> pt_T (last xs) < ref - lookback \<or> IsStaleNaN (pt_V (last xs)) then None else Some (last xs))"

lemma from_time_cons: "from_time t ps = p # qs \<Longrightarrow> ps = before t ps @ p # qs \<and> t \<le> pt_T p"
  unfolding from_time_def before_def using takeWhile_dropWhile_id [of "\<lambda>p. pt_T p < t" ps] hd_dropWhile [of "\<lambda>p. pt_T p < t" ps]
  by (metis linorder_not_less list.discI list.sel(1))

lemma takeWhile_le:
  assumes "strictly_sorted ps"
  shows "takeWhile (\<lambda>p. pt_T p \<le> t) ps =
    before t ps @ (case from_time t ps of [] \<Rightarrow> [] | p # _ \<Rightarrow> if pt_T p = t then [p] else [])"
  using assms
proof (induction ps)
  case (Cons q ps)
  show ?case
  proof (cases "pt_T q < t")
    case True
    with Cons show ?thesis by (simp add: before_def from_time_def strictly_sorted_def)
  next
    case False
    then show ?thesis
    proof (cases "pt_T q = t")
      case True
      with Cons.prems have "takeWhile (\<lambda>p. pt_T p \<le> t) ps = []" by (cases ps) (auto simp: strictly_sorted_def)
      with True show ?thesis by (simp add: before_def from_time_def)
    qed (simp add: before_def from_time_def)
  qed
qed (simp add: before_def from_time_def)

definition selects :: "'it buffer_lib \<Rightarrow> (int \<Rightarrow> point list \<Rightarrow> int \<Rightarrow> 'it \<Rightarrow> bool) \<Rightarrow> int \<Rightarrow> point list \<Rightarrow> int \<Rightarrow> 'it \<Rightarrow> bool" where
  "selects bl pos d ps t it \<longleftrightarrow> it = bl_New bl d ps \<or> (\<exists>t0 \<le> t. pos d ps t0 it)"

lemma seek_spec:
  assumes "buffer_contract bl pos" "strictly_sorted ps" "selects bl pos d ps t it"
  obtains it' where "seek_checked bl t it = Inr (it', from_time t ps \<noteq> [])" "pos d ps t it'"
proof -
  obtain it' ok where s: "bl_Seek bl t it = (it', ok)" by fastforce
  from assms s have "pos d ps t it'" "ok = (from_time t ps \<noteq> [])"
    unfolding buffer_contract_def selects_def by blast+
  moreover from this(1) assms(1) have "bl_Err bl it' = None" unfolding buffer_contract_def by blast
  ultimately show ?thesis using s by (intro that [of it']) (auto simp: seek_checked_def)
qed

lemma vectorSelectorSingle_spec:
  assumes bl: "buffer_contract bl pos" and ps: "strictly_sorted ps"
    and d: "d = durationMilliseconds (ev_lookbackDelta ev)" "0 \<le> d"
    and ref: "ref = ts - durationMilliseconds (vs_Offset node)" and it: "selects bl pos d ps ref it"
  shows "\<exists>it'. vectorSelectorSingle bl ev node ts it = Inr (it', map_option (\<lambda>p. (pt_T p, pt_V p)) (latest_at d ps ref)) \<and> pos d ps ref it'"
proof -
  obtain it' where seek: "seek_checked bl ref it = Inr (it', from_time ref ps \<noteq> [])" and here: "pos d ps ref it'"
    using seek_spec [OF bl ps it] .
  from bl here have vals: "from_time ref ps \<noteq> [] \<Longrightarrow> bl_Values bl it' = hd (from_time ref ps)"
    and peek: "bl_PeekBack bl it' = Some p \<Longrightarrow> before ref ps \<noteq> [] \<and> p = last (before ref ps)"
      "before ref ps \<noteq> [] \<and> ref - d \<le> pt_T (last (before ref ps)) \<Longrightarrow> bl_PeekBack bl it' = Some (last (before ref ps))" for p
    unfolding buffer_contract_def by blast+
  have peeked: "(case bl_PeekBack bl it' of None \<Rightarrow> None | Some p \<Rightarrow> if pt_T p < ref - d then None else Some p) =
    (if before ref ps = [] \<or> pt_T (last (before ref ps)) < ref - d then None else Some (last (before ref ps)))"
  proof (cases "bl_PeekBack bl it'")
    case None
    with peek(2) show ?thesis by (auto simp: not_less)
  next
    case (Some p)
    with peek(1) [OF Some] show ?thesis by auto
  qed
  have found: "(if from_time ref ps \<noteq> [] \<and> pt_T (bl_Values bl it') \<le> ref then Some (bl_Values bl it')
      else case bl_PeekBack bl it' of None \<Rightarrow> None | Some p \<Rightarrow> if pt_T p < ref - d then None else Some p) =
    (let xs = takeWhile (\<lambda>p. pt_T p \<le> ref) ps in if xs = [] \<or> pt_T (last xs) < ref - d then None else Some (last xs))"
  proof (cases "from_time ref ps")
    case Nil
    then show ?thesis using takeWhile_le [OF ps, of ref] by (simp add: peeked)
  next
    case (Cons q qs)
    then have v: "bl_Values bl it' = q" "ref \<le> pt_T q" using vals from_time_cons [OF Cons] by simp_all
    have "takeWhile (\<lambda>p. pt_T p \<le> ref) ps = before ref ps @ (if pt_T q = ref then [q] else [])"
      using takeWhile_le [OF ps, of ref] Cons by simp
    with v Cons d(2) show ?thesis by (cases "pt_T q = ref") (auto simp: peeked)
  qed
  show ?thesis
    using seek here found d(1) unfolding vectorSelectorSingle_def ref [symmetric] latest_at_def
    by (auto simp: Let_def split: list.splits option.splits if_splits)
qed

text \<open>The points of an instant selector on one series, and the matrix on many.\<close>

definition selected_points :: "evaluator \<Rightarrow> vsel \<Rightarrow> point list \<Rightarrow> int list \<Rightarrow> point list" where
  "selected_points ev node ps tss = concat (map (\<lambda>ts.
     case latest_at (durationMilliseconds (ev_lookbackDelta ev)) ps (ts - durationMilliseconds (vs_Offset node)) of
       None \<Rightarrow> [] | Some p \<Rightarrow> [\<lparr>pt_T = ts, pt_V = pt_V p\<rparr>]) tss)"

definition selected_matrix :: "evaluator \<Rightarrow> vsel \<Rightarrow> sseries list \<Rightarrow> matrix" where
  "selected_matrix ev node ss = concat (map (\<lambda>s.
     let ps = selected_points ev node (ss_Points s) (ev_steps ev)
     in if ps = [] then [] else [\<lparr>sr_Metric = ss_Labels s, sr_Points = ps\<rparr>]) ss)"

definition within_limit :: "evaluator \<Rightarrow> nat \<Rightarrow> ev_state \<Rightarrow> bool" where
  "within_limit ev n st \<longleftrightarrow> st_currentSamples st + int n \<le> ev_maxSamples ev"

lemma add_samples_simps [simp]:
  "add_samples 0 st = st" "add_samples m (add_samples n st) = add_samples (n + m) st"
  "st_currentSamples (add_samples n st) = st_currentSamples st + n" "st_checks (add_samples n st) = st_checks st"
  by (simp_all add: add_samples_def)

lemma TotalSamples_sum: "TotalSamples m = sum_list (map (\<lambda>s. length (sr_Points s)) m)"
proof -
  have "fold (\<lambda>s n. n + length (sr_Points s)) m k = k + sum_list (map (\<lambda>s. length (sr_Points s)) m)" for k
    by (induction m arbitrary: k) simp_all
  then show ?thesis by (simp add: TotalSamples_def)
qed

lemma steps_sorted: "sorted (ev_steps ev)"
proof (cases "0 < ev_interval ev")
  case True
  have "sorted (map (\<lambda>k. a + int k * i) [0 ..< n])" if "0 < i" for a i n
    using that by (induction n) (auto simp: sorted_append mult_right_mono)
  then show ?thesis unfolding ev_steps_def step_list_nth [OF True] using True by blast
next
  case False
  then show ?thesis unfolding ev_steps_def by (subst step_list.simps) simp
qed

lemma selects_later: "selects bl pos d ps t it \<Longrightarrow> t \<le> t' \<Longrightarrow> selects bl pos d ps t' it"
  unfolding selects_def by fastforce

lemma instant_steps_spec:
  assumes bl: "buffer_contract bl pos" and ps: "strictly_sorted ps"
    and d: "d = durationMilliseconds (ev_lookbackDelta ev)" "0 \<le> d"
  shows "sorted tss \<Longrightarrow> (\<forall>ts \<in> set tss. selects bl pos d ps (ts - durationMilliseconds (vs_Offset node)) it) \<Longrightarrow>
    within_limit ev 0 st \<Longrightarrow>
    instant_steps bl ev node tss it acc st =
      (let qs = selected_points ev node ps tss
       in if within_limit ev (length qs) st then Inr (add_samples (int (length qs)) st, acc @ qs) else too_many)"
proof (induction tss arbitrary: it acc st)
  case Nil
  then show ?case by (simp add: selected_points_def)
next
  case (Cons ts tss)
  let ?ref = "ts - durationMilliseconds (vs_Offset node)"
  obtain it' where single: "vectorSelectorSingle bl ev node ts it = Inr (it', map_option (\<lambda>p. (pt_T p, pt_V p)) (latest_at d ps ?ref))"
    and here: "pos d ps ?ref it'"
    using vectorSelectorSingle_spec [OF bl ps d refl, of ts node it] Cons.prems(2) by auto
  have later: "\<forall>ts' \<in> set tss. selects bl pos d ps (ts' - durationMilliseconds (vs_Offset node)) it'"
    using here Cons.prems(1) unfolding selects_def by fastforce
  have sorted_tss: "sorted tss" using Cons.prems(1) by simp
  show ?case
  proof (cases "latest_at d ps ?ref")
    case None
    with single Cons.IH [OF sorted_tss later Cons.prems(3)] show ?thesis by (simp add: selected_points_def d(1))
  next
    case (Some p)
    show ?thesis
    proof (cases "within_limit ev 1 st")
      case True
      then have "within_limit ev 0 (add_samples 1 st)" by (simp add: within_limit_def)
      from Cons.IH [OF sorted_tss later this] Some single True show ?thesis
        by (simp add: selected_points_def d(1) within_limit_def Let_def)
    next
      case False
      with Some single show ?thesis by (simp add: selected_points_def d(1) within_limit_def Let_def)
    qed
  qed
qed

lemma instant_series_spec:
  assumes bl: "buffer_contract bl pos" and "0 \<le> durationMilliseconds (ev_lookbackDelta ev)"
  shows "\<forall>s \<in> set ss. strictly_sorted (ss_Points s) \<Longrightarrow> within_limit ev 0 st \<Longrightarrow>
    instant_series bl ev node ss mat st =
      (let m = selected_matrix ev node ss
       in if within_limit ev (TotalSamples m) st then Inr (add_samples (int (TotalSamples m)) st, mat @ m) else too_many)"
proof (induction ss arbitrary: mat st)
  case Nil
  then show ?case by (simp add: selected_matrix_def TotalSamples_def)
next
  case (Cons s ss)
  let ?qs = "selected_points ev node (ss_Points s) (ev_steps ev)"
  have total: "TotalSamples (selected_matrix ev node (s # ss)) = length ?qs + TotalSamples (selected_matrix ev node ss)"
    by (simp add: selected_matrix_def Let_def TotalSamples_sum)
  have steps: "instant_steps bl ev node (ev_steps ev) (bl_New bl (durationMilliseconds (ev_lookbackDelta ev)) (ss_Points s)) [] st =
      (if within_limit ev (length ?qs) st then Inr (add_samples (int (length ?qs)) st, ?qs) else too_many)"
    using instant_steps_spec [OF bl _ refl assms(2) steps_sorted] Cons.prems by (auto simp: selects_def Let_def)
  show ?case
  proof (cases "within_limit ev (length ?qs) st")
    case True
    then have lim: "within_limit ev 0 (add_samples (int (length ?qs)) st)" by (simp add: within_limit_def)
    have rest_sorted: "\<forall>s \<in> set ss. strictly_sorted (ss_Points s)" using Cons.prems by simp
    from Cons.IH [OF rest_sorted lim] True steps total show ?thesis
      by (simp add: selected_matrix_def Let_def within_limit_def)
  next
    case False
    with steps total show ?thesis by (simp add: within_limit_def too_many_def)
  qed
qed

section \<open>A concrete iterator\<close>

text \<open>A buffered iterator that keeps the contract: its state is the range, the samples and the last seek.\<close>

type_synonym ex_it = "int \<times> point list \<times> int"

definition ex_buffer :: "ex_it buffer_lib" where
  "ex_buffer = \<lparr>
     bl_New = (\<lambda>d ps. (d, ps, 0)),
     bl_Seek = (\<lambda>t (d, ps, _). ((d, ps, t), from_time t ps \<noteq> [])),
     bl_Values = (\<lambda>(d, ps, t). case from_time t ps of [] \<Rightarrow> \<lparr>pt_T = 0, pt_V = 0\<rparr> | p # _ \<Rightarrow> p),
     bl_PeekBack = (\<lambda>(d, ps, t). if before t ps = [] then None else Some (last (before t ps))),
     bl_Buffer = (\<lambda>(d, ps, t). filter (\<lambda>p. t - d \<le> pt_T p) (before t ps)),
     bl_ReduceDelta = (\<lambda>d' (d, ps, t). (d', ps, t)),
     bl_Err = (\<lambda>_. None)\<rparr>"

definition ex_pos :: "int \<Rightarrow> point list \<Rightarrow> int \<Rightarrow> ex_it \<Rightarrow> bool" where
  "ex_pos d ps t it \<longleftrightarrow> it = (d, ps, t)"

lemma ex_buffer_contract: "buffer_contract ex_buffer ex_pos"
  unfolding buffer_contract_def by (auto simp: ex_buffer_def ex_pos_def split: list.split)

definition ex_evaluator :: evaluator where
  "ex_evaluator = \<lparr>ev_startTimestamp = 60000, ev_endTimestamp = 120000, ev_interval = 30000, ev_maxSamples = 100,
     ev_defaultEvalInterval = 0, ev_lookbackDelta = 40000000000, ev_topNode = None, ev_ctx = (\<lambda>_. None)\<rparr>"

text \<open>Samples at 10, 55 and 70 seconds, and a staleness marker at 115 seconds.\<close>

definition ex_series :: sseries where
  "ex_series = \<lparr>ss_Labels = [], ss_Points = [\<lparr>pt_T = 10000, pt_V = 1\<rparr>, \<lparr>pt_T = 55000, pt_V = 2\<rparr>, \<lparr>pt_T = 70000, pt_V = 3\<rparr>,
     \<lparr>pt_T = 115000, pt_V = 0x7ff0000000000002\<rparr>]\<rparr>"

definition ex_selector :: vsel where
  "ex_selector = \<lparr>vs_Id = 0, vs_Offset = 0, vs_LabelMatchers = [], vs_Series = Inr [ex_series]\<rparr>"

lemma ex_steps: "ev_steps ex_evaluator = [60000, 90000, 120000]"
  unfolding ev_steps_def by (simp add: ex_evaluator_def step_list.simps)

lemma ex_sorted: "strictly_sorted (ss_Points ex_series)"
  by (simp add: ex_series_def strictly_sorted_def)

section \<open>Instant selectors\<close>

text \<open>
  C8: what an instant vector selector selects.  Over a buffered iterator that keeps its contract, the
  selector gives for every series the points of the steps at which its latest sample at or before
  the step, shifted by the offset, is at most the lookback delta old and not a staleness marker; series
  without a point are left out.  It fails exactly when these points exceed the sample limit.
\<close>
theorem instant_selector_lookback:
  assumes "buffer_contract bl pos" "0 \<le> durationMilliseconds (ev_lookbackDelta ev)"
    and "vs_Series vs = Inr ss" "\<forall>s \<in> set ss. strictly_sorted (ss_Points s)"
    and "ev_interval ev \<noteq> 0" "ev_topNode ev = None" "ev_ctx ev (st_checks st) = None"
    and "st_currentSamples st \<le> ev_maxSamples ev"
  shows "eval lb bl ev (E_Vector vs) st =
    (let m = selected_matrix ev vs ss; n = int (TotalSamples m)
     in if st_currentSamples st + n \<le> ev_maxSamples ev
        then Inr (\<lparr>st_currentSamples = st_currentSamples st + n, st_checks = st_checks st + 1\<rparr>, VMatrix m)
        else Inl (EvError (ErrTooManySamples ''query execution'')))"
proof -
  let ?st = "st\<lparr>st_checks := st_checks st + 1\<rparr>"
  have "within_limit ev 0 ?st" using assms(8) by (simp add: within_limit_def)
  from instant_series_spec [OF assms(1,2,4) this, of vs "[]"] assms(3,5-7) show ?thesis
    by (subst eval.simps) (auto simp: contextDone_def is_top_def checkForSeriesSetExpansion_def within_limit_def Let_def
        add_samples_def too_many_def query_env_def)
qed

theorem instant_selector_lookback_witness:
  "eval ex_lib ex_buffer ex_evaluator (E_Vector ex_selector) (start_state 0) =
    Inr (\<lparr>st_currentSamples = 2, st_checks = 1\<rparr>,
      VMatrix [\<lparr>sr_Metric = [], sr_Points = [\<lparr>pt_T = 60000, pt_V = 2\<rparr>, \<lparr>pt_T = 90000, pt_V = 3\<rparr>]\<rparr>])"
proof -
  have m: "selected_matrix ex_evaluator ex_selector [ex_series] =
      [\<lparr>sr_Metric = [], sr_Points = [\<lparr>pt_T = 60000, pt_V = 2\<rparr>, \<lparr>pt_T = 90000, pt_V = 3\<rparr>]\<rparr>]"
    unfolding selected_matrix_def selected_points_def ex_steps
    by (simp add: ex_evaluator_def ex_selector_def ex_series_def durationMilliseconds_def go_quot_def latest_at_def Let_def IsStaleNaN_def)
  show ?thesis
    using instant_selector_lookback [OF ex_buffer_contract, of ex_evaluator ex_selector "[ex_series]" "start_state 0" ex_lib] m ex_sorted
    by (simp add: ex_evaluator_def ex_selector_def durationMilliseconds_def go_quot_def start_state_def TotalSamples_def)
qed


section \<open>Range vectors\<close>

definition in_window :: "int \<Rightarrow> int \<Rightarrow> point \<Rightarrow> bool" where
  "in_window mint maxt p \<longleftrightarrow> mint \<le> pt_T p \<and> pt_T p \<le> maxt \<and> \<not> IsStaleNaN (pt_V p)"

definition window :: "point list \<Rightarrow> int \<Rightarrow> int \<Rightarrow> point list" where
  "window ps mint maxt = filter (in_window mint maxt) ps"

lemma strictly_sorted_eqI:
  "strictly_sorted xs \<Longrightarrow> strictly_sorted ys \<Longrightarrow> set xs = set ys \<Longrightarrow> xs = ys"
proof (induction xs arbitrary: ys)
  case (Cons x xs)
  obtain y ys' where ys: "ys = y # ys'" using Cons.prems(3) by (cases ys) auto
  have less: "\<forall>z \<in> set xs. pt_T x < pt_T z" "\<forall>z \<in> set ys'. pt_T y < pt_T z" and sets: "insert x (set xs) = insert y (set ys')"
    using Cons.prems by (simp_all add: ys strictly_sorted_def)
  have "x = y"
  proof (rule ccontr)
    assume "x \<noteq> y"
    with sets have "x \<in> set ys'" "y \<in> set xs" by auto
    with less show False by fastforce
  qed
  moreover have "x \<notin> set xs" "y \<notin> set ys'" using less by auto
  then have "set xs = set ys'" using sets \<open>x = y\<close> by auto
  ultimately show ?case using Cons ys by (simp add: strictly_sorted_def)
qed simp

lemma strictly_sorted_filter: "strictly_sorted ps \<Longrightarrow> strictly_sorted (filter P ps)"
  unfolding strictly_sorted_def by (rule sorted_wrt_filter)

lemma set_before: "strictly_sorted ps \<Longrightarrow> set (before t ps) = {p \<in> set ps. pt_T p < t}"
  by (induction ps) (auto simp: before_def strictly_sorted_def)

lemma strictly_sorted_before: "strictly_sorted ps \<Longrightarrow> strictly_sorted (before t ps)"
  unfolding strictly_sorted_def before_def by (rule sorted_wrt_takeWhile)

lemma dropWhile_window:
  "strictly_sorted ps \<Longrightarrow> m0 \<le> mint \<Longrightarrow> dropWhile (\<lambda>p. pt_T p < mint) (window ps m0 t0) = window ps mint t0"
proof (induction ps)
  case (Cons p ps)
  have "window ps m0 t0 = window ps mint t0" if "mint \<le> pt_T p"
    unfolding window_def using that Cons.prems by (intro filter_cong) (auto simp: in_window_def strictly_sorted_def)
  with Cons show ?case by (auto simp: window_def in_window_def strictly_sorted_def)
qed (simp add: window_def)

lemma buffer_loop_spec:
  assumes "st_currentSamples st + int (length bs) \<le> ev_maxSamples ev"
  shows "\<exists>st'. buffer_loop ev mint bs out st = Inr (st', out @ filter (\<lambda>p. \<not> IsStaleNaN (pt_V p) \<and> mint \<le> pt_T p) bs) \<and>
    st_currentSamples st' \<le> st_currentSamples st + int (length bs) \<and> st_checks st' = st_checks st"
  using assms
proof (induction bs arbitrary: out st)
  case (Cons b bs)
  show ?case
  proof (cases "\<not> IsStaleNaN (pt_V b) \<and> mint \<le> pt_T b")
    case True
    with Cons.IH [of "add_samples 1 st" "out @ [b]"] Cons.prems show ?thesis by auto
  next
    case False
    with Cons.IH [of st out] Cons.prems show ?thesis by auto
  qed
qed simp

text \<open>The iterator and the points after the window that ends at \<open>t0\<close>, or before the first window.\<close>

definition slid :: "'it buffer_lib \<Rightarrow> (int \<Rightarrow> point list \<Rightarrow> int \<Rightarrow> 'it \<Rightarrow> bool) \<Rightarrow> int \<Rightarrow> point list \<Rightarrow> int \<Rightarrow> int \<Rightarrow> 'it \<Rightarrow> point list \<Rightarrow> bool" where
  "slid bl pos d ps mint t0 it out \<longleftrightarrow>
     (it = bl_New bl d ps \<and> out = [] \<and> t0 < mint) \<or> (pos d ps t0 it \<and> (\<exists>m0 \<le> mint. out = window ps m0 t0))"

definition kept_part :: "int \<Rightarrow> point list \<Rightarrow> point list \<times> int" where
  "kept_part mint out =
     (if out \<noteq> [] \<and> mint \<le> pt_T (last out)
      then (let kept = dropWhile (\<lambda>p. pt_T p < mint) out in (kept, pt_T (last kept) + 1))
      else ([], mint))"

lemma sorted_last: "strictly_sorted xs \<Longrightarrow> p \<in> set xs \<Longrightarrow> pt_T p \<le> pt_T (last xs)"
  by (induction xs) (auto simp: strictly_sorted_def less_le split: if_splits)

lemma kept_part_spec:
  assumes ps: "strictly_sorted ps" and s: "slid bl pos d ps mint t0 it out0" and k: "kept_part mint out0 = (out, mint')"
  shows "out = window ps mint t0"
    and "mint \<le> mint'" "\<forall>p \<in> set out. pt_T p < mint'" "\<forall>p \<in> set ps. mint \<le> pt_T p \<and> t0 < pt_T p \<longrightarrow> mint' \<le> pt_T p"
proof -
  have sorted: "strictly_sorted (window ps a b)" for a b unfolding window_def by (rule strictly_sorted_filter [OF ps])
  have keep: "out0 \<noteq> [] \<Longrightarrow> mint \<le> pt_T (last out0) \<Longrightarrow> dropWhile (\<lambda>p. pt_T p < mint) out0 = window ps mint t0"
    using s dropWhile_window [OF ps] unfolding slid_def by blast
  have empty: "window ps mint t0 = []" if "out0 = [] \<or> pt_T (last out0) < mint"
  proof (rule ccontr)
    assume "window ps mint t0 \<noteq> []"
    then obtain p where p: "p \<in> set ps" "in_window mint t0 p" unfolding window_def by (auto simp: filter_empty_conv)
    with s obtain m0 where "m0 \<le> mint" "out0 = window ps m0 t0" unfolding slid_def by (auto simp: in_window_def)
    with p have "p \<in> set out0" "mint \<le> pt_T p" by (auto simp: window_def in_window_def)
    moreover from this(1) have "out0 \<noteq> []" "pt_T p \<le> pt_T (last out0)" using sorted_last sorted \<open>out0 = window ps m0 t0\<close> by auto
    ultimately show False using that by auto
  qed
  show out: "out = window ps mint t0" using k keep empty by (auto simp: kept_part_def Let_def not_le split: if_splits)
  have last_in: "last out \<in> set out" if "out \<noteq> []" using that by simp
  consider "out = []" "mint' = mint" | "out \<noteq> []" "mint' = pt_T (last out) + 1"
  proof (cases "out0 \<noteq> [] \<and> mint \<le> pt_T (last out0)")
    case True
    with k have "mint' = pt_T (last out) + 1" "out = dropWhile (\<lambda>p. pt_T p < mint) out0" by (auto simp: kept_part_def Let_def)
    moreover have "dropWhile (\<lambda>p. pt_T p < mint) out0 \<noteq> []" using True by (auto simp: dropWhile_eq_Nil_conv) (meson last_in_set not_less)
    ultimately show ?thesis by (intro that(2)) simp_all
  next
    case False
    with k show ?thesis by (intro that(1)) (auto simp: kept_part_def)
  qed
  then have "mint \<le> mint' \<and> (\<forall>p \<in> set out. pt_T p < mint') \<and> (\<forall>p \<in> set ps. mint \<le> pt_T p \<and> t0 < pt_T p \<longrightarrow> mint' \<le> pt_T p)"
  proof cases
    case 2
    with last_in have l: "mint \<le> pt_T (last out)" "pt_T (last out) \<le> t0" unfolding out window_def by (auto simp: in_window_def)
    have "\<forall>p \<in> set out. pt_T p \<le> pt_T (last out)" using sorted_last sorted out by blast
    with l 2 show ?thesis by auto
  qed simp
  then show "mint \<le> mint'" "\<forall>p \<in> set out. pt_T p < mint'" "\<forall>p \<in> set ps. mint \<le> pt_T p \<and> t0 < pt_T p \<longrightarrow> mint' \<le> pt_T p"
    by blast+
qed

lemma window_split:
  assumes ps: "strictly_sorted ps" and s: "slid bl pos d ps mint t0 it out0" and k: "kept_part mint out0 = (out, mint')"
    and t: "t0 < maxt" "mint \<le> maxt" and lo: "lo \<le> max mint (t0 + 1)"
  shows "window ps mint maxt =
    out @ filter (\<lambda>p. \<not> IsStaleNaN (pt_V p) \<and> mint' \<le> pt_T p) (filter (\<lambda>p. lo \<le> pt_T p) (before maxt ps)) @
    (case from_time maxt ps of [] \<Rightarrow> [] | p # _ \<Rightarrow> if pt_T p = maxt \<and> \<not> IsStaleNaN (pt_V p) then [p] else [])"
    (is "_ = out @ ?F @ ?C")
proof (rule strictly_sorted_eqI)
  note kept = kept_part_spec [OF ps s k]
  show "strictly_sorted (window ps mint maxt)" unfolding window_def by (rule strictly_sorted_filter [OF ps])
  have F: "set ?F = {p \<in> set ps. pt_T p < maxt \<and> lo \<le> pt_T p \<and> \<not> IsStaleNaN (pt_V p) \<and> mint' \<le> pt_T p}"
    using set_before [OF ps, of maxt] by auto
  have C: "set ?C = {p \<in> set ps. pt_T p = maxt \<and> \<not> IsStaleNaN (pt_V p)}"
  proof (cases "from_time maxt ps")
    case Nil
    then have "before maxt ps = ps" unfolding before_def from_time_def by (simp add: takeWhile_eq_all_conv dropWhile_eq_Nil_conv)
    with set_before [OF ps, of maxt] Nil show ?thesis by fastforce
  next
    case (Cons q qs)
    from from_time_cons [OF Cons] have q: "ps = before maxt ps @ q # qs" "maxt \<le> pt_T q" by simp_all
    from ps q have "\<forall>p \<in> set qs. pt_T q < pt_T p" unfolding strictly_sorted_def by (metis sorted_wrt.simps(2) sorted_wrt_append)
    moreover have "set ps = set (before maxt ps) \<union> insert q (set qs)" using q(1) by (metis list.simps(15) set_append)
    ultimately show ?thesis using Cons q(2) set_before [OF ps, of maxt] by fastforce
  qed
  have "strictly_sorted out" "strictly_sorted ?F" "strictly_sorted ?C"
    using kept(1) strictly_sorted_filter [OF ps] strictly_sorted_filter [OF strictly_sorted_filter [OF strictly_sorted_before [OF ps]]]
    by (auto simp: window_def strictly_sorted_def split: list.split)
  moreover have "\<forall>p \<in> set out. \<forall>q \<in> set ?F \<union> set ?C. pt_T p < pt_T q"
    using F C kept(1,3) t by (fastforce simp: window_def in_window_def)
  moreover have "\<forall>p \<in> set ?F. \<forall>q \<in> set ?C. pt_T p < pt_T q" using F C by auto
  ultimately show "strictly_sorted (out @ ?F @ ?C)" unfolding strictly_sorted_def sorted_wrt_append by simp
  show "set (window ps mint maxt) = set (out @ ?F @ ?C)"
    unfolding set_append F C kept(1) using kept(2,4) t lo
    by (auto simp: window_def in_window_def max_def split: if_splits)
qed

lemma matrixIterSlice_spec:
  assumes bl: "buffer_contract bl pos" and ps: "strictly_sorted ps" and s: "slid bl pos d ps mint t0 it out0"
    and t: "t0 < maxt" "mint \<le> maxt" and reach: "maxt - d \<le> max mint (t0 + 1)"
    and lim: "st_currentSamples st + int (length ps) \<le> ev_maxSamples ev"
  shows "\<exists>st' it'. matrixIterSlice bl ev mint maxt it out0 st = Inr (st', it', window ps mint maxt) \<and> pos d ps maxt it' \<and>
    st_currentSamples st' \<le> st_currentSamples st + int (length ps)"
proof -
  obtain out mint' where k: "kept_part mint out0 = (out, mint')" by fastforce
  have "selects bl pos d ps maxt it" using s t(1) unfolding slid_def selects_def by auto
  then obtain it' where seek: "seek_checked bl maxt it = Inr (it', from_time maxt ps \<noteq> [])" and here: "pos d ps maxt it'"
    using seek_spec [OF bl ps] by blast
  from bl here obtain lo where lo: "lo \<le> maxt - d" "bl_Buffer bl it' = filter (\<lambda>p. lo \<le> pt_T p) (before maxt ps)"
    and vals: "from_time maxt ps \<noteq> [] \<Longrightarrow> bl_Values bl it' = hd (from_time maxt ps)"
    unfolding buffer_contract_def by blast
  have len: "length (before maxt ps) + length (from_time maxt ps) = length ps"
    unfolding before_def from_time_def by (metis length_append takeWhile_dropWhile_id)
  have buf: "length (bl_Buffer bl it') \<le> length (before maxt ps)" by (simp add: lo(2))
  with lim len obtain st1 where loop: "buffer_loop ev mint' (bl_Buffer bl it') out st =
      Inr (st1, out @ filter (\<lambda>p. \<not> IsStaleNaN (pt_V p) \<and> mint' \<le> pt_T p) (bl_Buffer bl it'))"
    "st_currentSamples st1 \<le> st_currentSamples st + int (length (bl_Buffer bl it'))"
    using buffer_loop_spec [of st "bl_Buffer bl it'" ev mint' out] by auto
  have split: "window ps mint maxt = out @ filter (\<lambda>p. \<not> IsStaleNaN (pt_V p) \<and> mint' \<le> pt_T p) (bl_Buffer bl it') @
      (case from_time maxt ps of [] \<Rightarrow> [] | p # _ \<Rightarrow> if pt_T p = maxt \<and> \<not> IsStaleNaN (pt_V p) then [p] else [])"
    unfolding lo(2) using window_split [OF ps s k t, of lo] lo(1) reach by simp
  have unfold_slice: "matrixIterSlice bl ev mint maxt it out0 st =
      (let p = bl_Values bl it'
       in if from_time maxt ps \<noteq> [] \<and> pt_T p = maxt \<and> \<not> IsStaleNaN (pt_V p) then
            if st_currentSamples st1 \<ge> ev_maxSamples ev then too_many
            else Inr (add_samples 1 st1, it', out @ filter (\<lambda>p. \<not> IsStaleNaN (pt_V p) \<and> mint' \<le> pt_T p) (bl_Buffer bl it') @ [p])
          else Inr (st1, it', out @ filter (\<lambda>p. \<not> IsStaleNaN (pt_V p) \<and> mint' \<le> pt_T p) (bl_Buffer bl it')))"
    unfolding matrixIterSlice_def kept_part_def [symmetric] k using seek loop(1) by (simp add: Let_def)
  show ?thesis
  proof (cases "from_time maxt ps")
    case Nil
    with unfold_slice split here loop(2) buf len show ?thesis by simp
  next
    case (Cons q qs)
    then have "bl_Values bl it' = q" "int (length (bl_Buffer bl it')) + 1 \<le> int (length ps)" using vals buf len by simp_all
    with unfold_slice split here loop(2) lim Cons show ?thesis by (auto simp: Let_def)
  qed
qed

text \<open>
  The reference for a function of a range vector: at every step the function gets the samples of the
  window, computed from the series alone.
\<close>

fun window_steps ::
  "promql_lib \<Rightarrow> matrix_call \<Rightarrow> label list \<Rightarrow> point list \<Rightarrow> int list \<Rightarrow> nat \<Rightarrow> enh \<Rightarrow> point list \<Rightarrow> (enh \<times> point list) ev" where
  "window_steps lb mc labels ps [] step enh out = Inr (enh, out)"
| "window_steps lb mc labels ps (ts # tss) step enh out =
     ev_bind (other_args (mc_others mc) step) (\<lambda>vs.
       let w = window ps (ts - mc_offset mc - mc_selRange mc) (ts - mc_offset mc)
       in if w = [] then window_steps lb mc labels ps tss (step + 1) enh out
          else ev_bind (lookup_call (mc_name mc) lb (in_args vs \<lparr>sr_Metric = labels, sr_Points = w\<rparr>) (mc_args mc) (enh\<lparr>enh_ts := ts\<rparr>))
                 (\<lambda>(enh', outVec). window_steps lb mc labels ps tss (step + 1) enh'
                    (case outVec of [] \<Rightarrow> out | s # _ \<Rightarrow> out @ [\<lparr>pt_T = ts, pt_V = pt_V (sm_Point s)\<rparr>])))"

fun spaced :: "int \<Rightarrow> int list \<Rightarrow> bool" where
  "spaced i (a # b # tss) \<longleftrightarrow> b = a + i \<and> spaced i (b # tss)"
| "spaced i tss \<longleftrightarrow> True"

lemma spaced_tl: "spaced i (a # tss) \<Longrightarrow> spaced i tss"
  by (cases tss) auto

lemma step_list_head: "step_list ts e i = [] \<or> (\<exists>tss. step_list ts e i = ts # tss)"
  by (subst (1 2) step_list.simps) simp

lemma spaced_step_list: "spaced i (step_list ts e i)"
proof (induction ts e i rule: step_list.induct)
  case (1 ts e i)
  show ?case
  proof (cases "0 < i \<and> ts \<le> e")
    case True
    have "spaced i (ts # step_list (ts + i) e i)"
      using "1.IH" [OF True] step_list_head [of "ts + i" e i] by auto
    then show ?thesis using True by (subst step_list.simps) simp
  next
    case False
    then show ?thesis by (subst step_list.simps) auto
  qed
qed

definition same_points :: "(ev_state \<times> enh \<times> point list) ev \<Rightarrow> (enh \<times> point list) ev \<Rightarrow> bool" where
  "same_points m r \<longleftrightarrow> (case r of Inl p \<Rightarrow> m = Inl p | Inr (enh, out) \<Rightarrow> \<exists>st. m = Inr (st, enh, out))"

lemma same_points_bind:
  "(\<And>a. m = Inr a \<Longrightarrow> same_points (f a) (g a)) \<Longrightarrow> same_points (ev_bind m f) (ev_bind m g)"
  by (cases m) (simp_all add: same_points_def)

definition buffer_range :: "evaluator \<Rightarrow> matrix_call \<Rightarrow> int \<Rightarrow> int \<Rightarrow> int list \<Rightarrow> bool" where
  "buffer_range ev mc d t0 tss \<longleftrightarrow>
     d = mc_selRange mc \<or> (d = min (mc_selRange mc) (ev_interval ev) \<and> (\<forall>ts tss'. tss = ts # tss' \<longrightarrow> t0 = ts - mc_offset mc - ev_interval ev))"

lemma call_steps_windows:
  assumes bl: "buffer_contract bl pos" and ps: "strictly_sorted ps" and i: "0 < ev_interval ev" and rng: "0 \<le> mc_selRange mc"
  shows "spaced (ev_interval ev) tss \<Longrightarrow> buffer_range ev mc d t0 tss \<Longrightarrow>
    (\<forall>ts tss'. tss = ts # tss' \<longrightarrow> slid bl pos d ps (ts - mc_offset mc - mc_selRange mc) t0 it points \<and> t0 < ts - mc_offset mc) \<Longrightarrow>
    st_currentSamples st + int (length tss) * int (length ps) \<le> ev_maxSamples ev \<Longrightarrow>
    same_points (call_steps lb bl ev mc labels tss step it points enh out st) (window_steps lb mc labels ps tss step enh out)"
proof (induction tss arbitrary: d t0 step it points enh out st)
  case Nil
  then show ?case by (simp add: same_points_def)
next
  case (Cons ts tss)
  let ?maxt = "ts - mc_offset mc" and ?d' = "min (mc_selRange mc) (ev_interval ev)"
  let ?mint = "?maxt - mc_selRange mc"
  have slid: "slid bl pos d ps ?mint t0 it points" "t0 < ?maxt" using Cons.prems(3) by auto
  have reach: "?maxt - d \<le> max ?mint (t0 + 1)" using Cons.prems(2) unfolding buffer_range_def by auto
  have nonneg: "0 \<le> int (length tss) * int (length ps)" by simp
  have total: "int (length (ts # tss)) * int (length ps) = int (length ps) + int (length tss) * int (length ps)"
    by (simp add: algebra_simps)
  have lim: "st_currentSamples st + int (length ps) \<le> ev_maxSamples ev"
    using Cons.prems(4) nonneg unfolding total by linarith
  obtain st1 it1 where slice: "matrixIterSlice bl ev ?mint ?maxt it points st = Inr (st1, it1, window ps ?mint ?maxt)"
      and here: "pos d ps ?maxt it1" and cur: "st_currentSamples st1 \<le> st_currentSamples st + int (length ps)"
    using matrixIterSlice_spec [OF bl ps slid(1,2) _ reach lim] rng by auto
  have lim': "st_currentSamples st1 + int (length tss) * int (length ps) \<le> ev_maxSamples ev"
    using Cons.prems(4) cur unfolding total by linarith
  have tl_ts: "tss = ts' # tss' \<Longrightarrow> ts' = ts + ev_interval ev" for ts' tss' using Cons.prems(1) by auto
  have next_slid: "slid bl pos e ps (ts' - mc_offset mc - mc_selRange mc) ?maxt it2 (window ps ?mint ?maxt) \<and> ?maxt < ts' - mc_offset mc"
    if "pos e ps ?maxt it2" "tss = ts' # tss'" for e it2 ts' tss'
    using that tl_ts [OF that(2)] i unfolding slid_def by (auto intro!: exI [of _ ?mint])
  have reduced: "pos ?d' ps ?maxt (bl_ReduceDelta bl ?d' it1)"
    using bl here Cons.prems(2) unfolding buffer_contract_def buffer_range_def by auto
  have ranges: "buffer_range ev mc d ?maxt tss" "buffer_range ev mc ?d' ?maxt tss"
    using Cons.prems(2) tl_ts unfolding buffer_range_def by auto
  note IH = Cons.IH [OF spaced_tl [OF Cons.prems(1)]]
  have skip: "same_points (call_steps lb bl ev mc labels tss k it1 (window ps ?mint ?maxt) e o' st1) (window_steps lb mc labels ps tss k e o')"
    for k e o' by (rule IH [OF ranges(1) _ lim']) (use next_slid [OF here] in blast)
  have skip_empty: "same_points (call_steps lb bl ev mc labels tss k it1 [] e o' st1) (window_steps lb mc labels ps tss k e o')"
    if "window ps ?mint ?maxt = []" for k e o' using skip [of k e o'] that by simp
  have call: "same_points (call_steps lb bl ev mc labels tss k (bl_ReduceDelta bl ?d' it1) (window ps ?mint ?maxt) e o' st1)
      (window_steps lb mc labels ps tss k e o')"
    for k e o' by (rule IH [OF ranges(2) _ lim']) (use next_slid [OF reduced] in blast)
  show ?case
    unfolding call_steps.simps window_steps.simps Let_def slice ev_bind_simps prod.case
    by (rule same_points_bind) (auto simp: skip_empty call simp del: One_nat_def intro!: same_points_bind)
qed

text \<open>
  C7: functions of range vectors see the right window.  The engine keeps the points of the last
  window, drops the ones that have left it and reads only new ones from an iterator whose buffer it has
  shrunk to the step.  The calls it makes and the points it collects for a series are nevertheless those
  of the reference, which computes the window of every step anew: the samples within the range before
  the step, both ends included, that are not staleness markers.
\<close>
theorem sliding_windows_correct:
  assumes "buffer_contract bl pos" "strictly_sorted (ss_Points s)" "0 < ev_interval ev" "0 \<le> mc_selRange mc"
    and "st_currentSamples st + int (length (ev_steps ev)) * int (length (ss_Points s)) \<le> ev_maxSamples ev"
  shows "case window_steps lb mc (ss_Labels s) (ss_Points s) (ev_steps ev) 0 enh [] of
      Inl p \<Rightarrow> call_steps lb bl ev mc (ss_Labels s) (ev_steps ev) 0 (bl_New bl (mc_selRange mc) (ss_Points s)) [] enh [] st = Inl p
    | Inr (enh', out) \<Rightarrow> \<exists>st'. call_steps lb bl ev mc (ss_Labels s) (ev_steps ev) 0
        (bl_New bl (mc_selRange mc) (ss_Points s)) [] enh [] st = Inr (st', enh', out)"
proof -
  define t0 where "t0 = ev_startTimestamp ev - mc_offset mc - mc_selRange mc - 1"
  have head: "ev_steps ev = ts # tss \<Longrightarrow> ts = ev_startTimestamp ev" for ts tss
    using step_list_head [of "ev_startTimestamp ev" "ev_endTimestamp ev" "ev_interval ev"] unfolding ev_steps_def by auto
  have "same_points (call_steps lb bl ev mc (ss_Labels s) (ev_steps ev) 0 (bl_New bl (mc_selRange mc) (ss_Points s)) [] enh [] st)
      (window_steps lb mc (ss_Labels s) (ss_Points s) (ev_steps ev) 0 enh [])"
    by (rule call_steps_windows [OF assms(1-4) _ _ _ assms(5), of "mc_selRange mc" t0])
      (use head assms(4) in \<open>auto simp: buffer_range_def slid_def t0_def ev_steps_def spaced_step_list\<close>)
  then show ?thesis unfolding same_points_def .
qed

definition ex_call :: matrix_call where
  "ex_call = \<lparr>mc_name = ''count_over_time'', mc_args = [E_Matrix ex_selector 60000000000], mc_others = [None],
     mc_offset = 0, mc_selRange = 60000\<rparr>"

theorem sliding_windows_correct_witness:
  "\<exists>st. call_steps ex_lib ex_buffer ex_evaluator ex_call [] (ev_steps ex_evaluator) 0
      (bl_New ex_buffer 60000 (ss_Points ex_series)) [] new_enh [] (start_state 0) =
    Inr (st, new_enh\<lparr>enh_ts := 120000\<rparr>,
      [\<lparr>pt_T = 60000, pt_V = f_of_int 2\<rparr>, \<lparr>pt_T = 90000, pt_V = f_of_int 2\<rparr>, \<lparr>pt_T = 120000, pt_V = f_of_int 1\<rparr>])"
proof -
  have count: "lookup_call ''count_over_time'' lb vals args enh = funcCountOverTime lb vals args enh" for lb vals args enh
    by (simp add: lookup_call_def FunctionCalls_def)
  have "window_steps ex_lib ex_call [] (ss_Points ex_series) (ev_steps ex_evaluator) 0 new_enh [] =
      Inr (new_enh\<lparr>enh_ts := 120000\<rparr>,
        [\<lparr>pt_T = 60000, pt_V = f_of_int 2\<rparr>, \<lparr>pt_T = 90000, pt_V = f_of_int 2\<rparr>, \<lparr>pt_T = 120000, pt_V = f_of_int 1\<rparr>])"
    unfolding ex_steps ex_call_def ex_series_def
    by (simp add: count funcCountOverTime_def aggrOverTime_def arg_points_def in_args_def one_sample_def plain_sample_def
        window_def in_window_def IsStaleNaN_def new_enh_def)
  with sliding_windows_correct [OF ex_buffer_contract ex_sorted, of ex_evaluator ex_call "start_state 0" ex_lib new_enh]
  show ?thesis
    by (simp add: ex_steps ex_series_def) (simp add: ex_evaluator_def ex_call_def start_state_def)
qed

end
