(* ===== verification/Promql_Types.thy ===== *)
theory Promql_Types
  imports Promql_Select
begin

text \<open>
  The types of PromQL.  The parser gives every expression a type and refuses expressions whose parts
  do not fit; the engine then relies on the types: it converts the matrix of an evaluation to a
  vector, a scalar or a matrix by the static type and indexes it without looking.  This theory shows
  that the evaluation of a well-typed expression has the shape its type promises, and that no panic
  leaves the engine.
\<close>

named_theorems recoverable_rules \<open>computations that panic with errors only\<close>


section \<open>Panics that the engine recovers from\<close>

definition recoverable :: "'a ev \<Rightarrow> bool" where
  "recoverable m \<longleftrightarrow> (\<forall>s. m \<noteq> Inl (EvValue s))"

lemma recoverable_basic [recoverable_rules, simp]:
  "recoverable (Inr a)" "recoverable (ev_errorf s)" "recoverable index_error" "recoverable type_assertion"
  "recoverable too_many" "recoverable divide_by_zero" "recoverable (Inl (EvRuntime s))" "recoverable (Inl (EvError e))"
  "recoverable same_labelset_error" "recoverable unhandled"
  by (simp_all add: recoverable_def ev_errorf_def index_error_def type_assertion_def too_many_def divide_by_zero_def
      same_labelset_error_def unhandled_def)

lemma recoverable_bind [recoverable_rules, intro]:
  "recoverable m \<Longrightarrow> (\<And>a. m = Inr a \<Longrightarrow> recoverable (f a)) \<Longrightarrow> recoverable (ev_bind m f)"
  by (cases m) (auto simp: recoverable_def)

lemma recoverable_helpers [recoverable_rules, simp]:
  "recoverable (first_V vec)" "recoverable (arg_vector vals i)" "recoverable (arg_points vals i)"
  "recoverable (arg_string args i)" "recoverable (one_sample enh v)" "recoverable (no_sample enh)"
  "recoverable (lift_outcome m)" "recoverable (as_matrix w)"
  by (auto simp: first_V_def arg_vector_def arg_points_def arg_string_def one_sample_def no_sample_def lift_outcome_def
      as_matrix_def split: list.splits pvalue.splits expr.splits outcome.splits)

lemma recoverable_arg_scalar [recoverable_rules, simp]: "recoverable (arg_scalar vals i)"
  unfolding arg_scalar_def by (rule recoverable_bind) simp_all

lemma recoverable_source_labels [recoverable_rules, simp]: "recoverable (source_labels lb args)"
  by (induction args) (auto intro!: recoverable_bind)

lemma recoverable_aggr [recoverable_rules]:
  "(\<And>ps. recoverable (f ps)) \<Longrightarrow> recoverable (aggrOverTime f lb vals args enh)"
  unfolding aggrOverTime_def by (auto intro!: recoverable_bind)

lemma recoverable_simple [recoverable_rules, simp]: "recoverable (simpleFunc f lb vals args enh)"
  unfolding simpleFunc_def by (auto intro!: recoverable_bind)

lemma recoverable_date [recoverable_rules, simp]: "recoverable (dateWrapper f lb vals args enh)"
  unfolding dateWrapper_def by (auto intro!: recoverable_bind)

lemma recoverable_extrapolated [recoverable_rules, simp]: "recoverable (extrapolatedRate c r lb vals args enh)"
  unfolding extrapolatedRate_def by (auto simp: Let_def split: list.split expr.split intro!: recoverable_bind)

lemma recoverable_instantValue [recoverable_rules, simp]: "recoverable (instantValue r lb vals args enh)"
  unfolding instantValue_def by (auto simp: Let_def intro!: recoverable_bind)

lemma recoverable_best [recoverable_rules, simp]:
  "recoverable (best_of b ps)" "recoverable (count_neighbours P ps)"
  by (auto simp: best_of_def count_neighbours_def split: list.split)

lemma recoverable_quantiles [recoverable_rules, simp]: "recoverable (quantiles_loop q mbs hs out)"
  by (induction q mbs hs out rule: quantiles_loop.induct) (auto split: option.split intro!: recoverable_bind)

lemmas function_defs =
  funcTime_def funcDelta_def funcRate_def funcIncrease_def funcIrate_def funcIdelta_def funcHoltWinters_def
  funcSort_def funcSortDesc_def funcClampMax_def funcClampMin_def funcRound_def funcScalar_def funcAbs_def funcCeil_def
  funcFloor_def funcExp_def funcSqrt_def funcLn_def funcLog2_def funcLog10_def funcTimestamp_def funcVector_def
  funcAbsent_def funcDaysInMonth_def funcDayOfMonth_def funcDayOfWeek_def funcHour_def funcMinute_def funcMonth_def
  funcYear_def funcAvgOverTime_def funcCountOverTime_def funcMaxOverTime_def funcMinOverTime_def funcSumOverTime_def
  funcQuantileOverTime_def funcStddevOverTime_def funcStdvarOverTime_def funcAbsentOverTime_def funcDeriv_def
  funcPredictLinear_def funcResets_def funcChanges_def funcHistogramQuantile_def funcLabelReplace_def funcLabelJoin_def

lemma recoverable_functions:
  assumes "f \<in> snd ` set FunctionCalls"
  shows "recoverable (f lb vals args enh)"
  using assms unfolding FunctionCalls_def
  by (auto simp: function_defs Let_def split: list.split option.split prod.split
      intro!: recoverable_bind recoverable_aggr)

lemma recoverable_lookup [recoverable_rules, simp]: "recoverable (lookup_call name lb vals args enh)"
proof (cases "map_of FunctionCalls name")
  case (Some f)
  then have "f \<in> snd ` set FunctionCalls" using map_of_SomeD [OF Some] by force
  from recoverable_functions [OF this] Some show ?thesis by (simp add: lookup_call_def)
qed (simp add: lookup_call_def)


section \<open>Operators, aggregations and selectors\<close>

lemma recoverable_binop [recoverable_rules, simp]:
  "recoverable (scalarBinop lb op a b)" "recoverable (vectorElemBinop lb op a b)"
  "recoverable (record_match lb m sig metric matched)"
  by (auto simp: scalarBinop_def vectorElemBinop_def record_match_def Let_def split: item_type.split option.split)

lemma recoverable_right_loop [recoverable_rules, simp]: "recoverable (right_loop lb m enh vs sigs)"
  by (induction vs arbitrary: enh sigs) (auto simp: Let_def split: prod.split option.split)

lemma recoverable_binop_loop [recoverable_rules, simp]: "recoverable (binop_loop lb op m rb sigs enh matched vs out)"
  by (induction vs arbitrary: enh matched out)
    (auto simp: Let_def split: prod.split option.split intro!: recoverable_bind)

lemma recoverable_vector_scalar_loop [recoverable_rules, simp]: "recoverable (vector_scalar_loop lb op r sw rb enh vs out)"
  by (induction vs arbitrary: enh out)
    (auto simp: Let_def split: prod.split intro!: recoverable_bind)

definition set_operator :: "item_type \<Rightarrow> bool" where
  "set_operator op \<longleftrightarrow> op \<in> {I_LAND, I_LOR, I_LUNLESS}"

lemma recoverable_vector_vector [recoverable_rules]:
  assumes "set_operator op \<longleftrightarrow> vm_Card m = CardManyToMany"
  shows "recoverable (vector_vector_node lb op m rb st vecs enh)"
  using assms
  by (auto simp: vector_vector_node_def pure_node_def set_operator_def VectorAnd_def VectorOr_def VectorUnless_def
      VectorBinop_def Let_def split: item_type.split prod.split intro!: recoverable_bind)

lemma recoverable_add_to_group [recoverable_rules, simp]: "recoverable (add_to_group lb op k s g)"
  by (auto simp: add_to_group_def Let_def split: item_type.split)

lemma recoverable_agg_loop [recoverable_rules, simp]: "recoverable (agg_loop lb op w gr vl k vec groups)"
  by (induction vec arbitrary: groups)
    (auto simp: Let_def split: option.split intro!: recoverable_bind)

lemma recoverable_group_result [recoverable_rules, simp]: "recoverable (group_result lb op q g)"
  by (auto simp: group_result_def Let_def split: item_type.split intro!: recoverable_bind)

lemma recoverable_result_loop [recoverable_rules, simp]: "recoverable (result_loop lb op q groups ks out)"
  by (induction ks arbitrary: out) (auto split: option.split intro!: recoverable_bind)

lemma recoverable_aggregation [recoverable_rules, simp]: "recoverable (aggregation lb op gr w param vec)"
  by (auto simp: aggregation_def Let_def split: agg_param.split intro!: recoverable_bind)

lemma recoverable_selectors [recoverable_rules, simp]:
  "recoverable (contextDone ev env st)" "recoverable (seek_checked bl t it)" "recoverable (subquery_evaluator ev rng off step)"
  by (auto simp: contextDone_def seek_checked_def subquery_evaluator_def Let_def split: option.split prod.split)

lemma recoverable_single [recoverable_rules, simp]: "recoverable (vectorSelectorSingle bl ev vs ts it)"
  by (auto simp: vectorSelectorSingle_def Let_def split: prod.split intro!: recoverable_bind)

lemma recoverable_vector_loop [recoverable_rules, simp]: "recoverable (vector_selector_loop bl ev vs ts ss vec st)"
  by (induction ss arbitrary: vec st)
    (auto simp: Let_def split: prod.split option.split intro!: recoverable_bind)

lemma recoverable_instant_steps [recoverable_rules, simp]: "recoverable (instant_steps bl ev vs tss it ps st)"
  by (induction tss arbitrary: it ps st) (auto split: option.split intro!: recoverable_bind)

lemma recoverable_instant_series [recoverable_rules, simp]: "recoverable (instant_series bl ev vs ss mat st)"
  by (induction ss arbitrary: mat st) (auto intro!: recoverable_bind)

lemma recoverable_buffer_loop [recoverable_rules, simp]: "recoverable (buffer_loop ev mint ps out st)"
  by (induction ps arbitrary: out st) auto

lemma recoverable_slice [recoverable_rules, simp]: "recoverable (matrixIterSlice bl ev mint maxt it out st)"
  by (auto simp: matrixIterSlice_def Let_def split: prod.split intro!: recoverable_bind)

lemma recoverable_matrix_loop [recoverable_rules, simp]: "recoverable (matrix_selector_loop bl ev d mint maxt ss mat st)"
  by (induction ss arbitrary: mat st) (auto intro!: recoverable_bind)

lemma recoverable_gather_series [recoverable_rules, simp]: "recoverable (gather_series ev ts ss vec m st)"
  by (induction ss arbitrary: vec m st) (auto split: list.split)

lemma recoverable_gather [recoverable_rules, simp]: "recoverable (gather ev ts ms st)"
  by (induction ms arbitrary: st) (auto intro!: recoverable_bind)

lemma recoverable_rangeEval [recoverable_rules]:
  assumes "\<And>st vecs enh. recoverable (f st vecs enh)"
  shows "recoverable (rangeEval lb ev f n mats st)"
proof -
  have step: "recoverable (range_step lb ev f ts temp enh mats out st)" for ts temp enh mats out st
    using assms by (auto simp: range_step_def Let_def intro!: recoverable_bind)
  have "recoverable (range_loop lb ev f tss temp enh mats out st)" for tss temp enh mats out st
    by (induction tss arbitrary: temp enh mats out st) (auto split: step_result.split intro!: recoverable_bind step)
  then show ?thesis by (auto simp: rangeEval_def intro!: recoverable_bind)
qed


section \<open>Well-typed expressions\<close>

text \<open>
  What the parser checks of an expression, as far as the engine relies on it: the types of operands,
  the cardinality that belongs to set operators, and the return types in its table of functions, of
  which only \<open>time\<close> and \<open>scalar\<close> are scalar.  \<open>names\<close> gives the functions of the calls by their nodes.
\<close>

definition scalar_functions :: "string list" where
  "scalar_functions = [''time'', ''scalar'']"

fun well_typed :: "(nat \<Rightarrow> string) \<Rightarrow> expr \<Rightarrow> bool" where
  "well_typed names (E_Number v) = True"
| "well_typed names (E_String s) = True"
| "well_typed names (E_Paren e) = well_typed names e"
| "well_typed names (E_Unary op e) = (well_typed names e \<and> expr_Type e \<in> {VT_Scalar, VT_Vector})"
| "well_typed names (E_Binary op l r m b) =
     (well_typed names l \<and> well_typed names r \<and>
      expr_Type l \<in> {VT_Scalar, VT_Vector} \<and> expr_Type r \<in> {VT_Scalar, VT_Vector} \<and>
      (expr_Type l = VT_Vector \<and> expr_Type r = VT_Vector \<longrightarrow> (set_operator op \<longleftrightarrow> vm_Card m = CardManyToMany)))"
| "well_typed names (E_Vector vs) = True"
| "well_typed names (E_Matrix vs rng) = True"
| "well_typed names (E_Subquery e rng offset step) = (well_typed names e \<and> expr_Type e = VT_Vector)"
| "well_typed names (E_Aggregate op e p grouping without) =
     (well_typed names e \<and> expr_Type e = VT_Vector \<and>
      (case p of None \<Rightarrow> True | Some q \<Rightarrow> well_typed names q \<and> expr_Type q \<in> {VT_Scalar, VT_String}))"
| "well_typed names (E_Call i fn args) =
     (list_all (well_typed names) args \<and>
      fn_ReturnType fn = (if fn_Name fn \<in> set scalar_functions then VT_Scalar else VT_Vector) \<and>
      (fn_Name fn \<in> set scalar_functions \<longrightarrow> list_all (\<lambda>a. expr_Type a \<noteq> VT_Matrix) args) \<and>
      names i = fn_Name fn)"

text \<open>The storage panics with errors only, when the series of the selectors are expanded.\<close>

definition sound_series :: "expr \<Rightarrow> bool" where
  "sound_series e \<longleftrightarrow> (\<forall>vs \<in> set (selectors e). recoverable (vs_Series vs))"

lemma well_typed_unwrap: "well_typed names (unwrapParenExpr e) = well_typed names e"
  by (induction e rule: unwrapParenExpr.induct) simp_all

lemma selectors_unwrap: "selectors (unwrapParenExpr e) = selectors e"
  by (induction e rule: unwrapParenExpr.induct) simp_all

lemma expr_Type_unwrap: "expr_Type (unwrapParenExpr e) = expr_Type e"
  by (induction e rule: unwrapParenExpr.induct) simp_all

text \<open>The arguments of a call after the search for a range vector.\<close>

lemma find_matrix_arg_all:
  assumes "find_matrix_arg as = (as', i)"
    and "list_all P as" and "\<And>a. P a \<Longrightarrow> P (unwrapParenExpr a)"
  shows "list_all P as'"
  using assms(1,2) by (induction as arbitrary: as' i) (auto simp: Let_def assms(3) split: if_splits prod.splits)


section \<open>Evaluation panics with errors only\<close>

lemma recoverable_scalar_at [recoverable_rules, simp]: "recoverable (scalar_at m step)"
  by (auto simp: scalar_at_def split: list.split)

lemma recoverable_other_args [recoverable_rules, simp]: "recoverable (other_args os step)"
  by (induction os step rule: other_args.induct) (auto intro!: recoverable_bind)

lemma recoverable_call_steps [recoverable_rules, simp]:
  "recoverable (call_steps lb bl ev mc labels tss step it points enh out st)"
  by (induction tss arbitrary: step it points enh out st) (auto simp: Let_def intro!: recoverable_bind)

lemma recoverable_call_series [recoverable_rules, simp]: "recoverable (call_series lb bl ev mc ss enh mat st)"
  by (induction ss arbitrary: enh mat st) (auto intro!: recoverable_bind)

lemma recoverable_matrix_call [recoverable_rules]:
  "recoverable (vs_Series vs) \<Longrightarrow> recoverable (matrix_call_result lb bl ev mc vs st)"
  by (auto simp: matrix_call_result_def checkForSeriesSetExpansion_def intro!: recoverable_bind)

lemma recoverable_nodes [recoverable_rules]:
  "recoverable (number_node v st vecs enh)" "recoverable (scalar_scalar_node lb op st vecs enh)"
  "recoverable (vector_scalar_node lb op sw rb st vecs enh)" "recoverable (aggregate_node lb op gr w p st vecs enh)"
  "recoverable (aggregate_string_node lb op gr w x st vecs enh)" "recoverable (call_node lb name args st vecs enh)"
  by (auto simp: number_node_def scalar_scalar_node_def vector_scalar_node_def VectorscalarBinop_def aggregate_node_def
      aggregate_string_node_def call_node_def pure_node_def intro!: recoverable_bind)

lemma recoverable_timestamp_node [recoverable_rules]:
  "recoverable (vs_Series vs) \<Longrightarrow> recoverable (timestamp_node lb bl ev vs args st vecs enh)"
  by (auto simp: timestamp_node_def vectorSelector_def checkForSeriesSetExpansion_def intro!: recoverable_bind)

lemma recoverable_range_value [recoverable_rules]:
  assumes "\<And>st vecs enh. recoverable (f st vecs enh)"
  shows "recoverable (range_value lb ev f st0 r)"
  unfolding range_value_def by (rule recoverable_bind) (auto intro: recoverable_rangeEval assms)

lemma recoverable_eval_top:
  "sound_series e \<Longrightarrow> recoverable (eval_top lb e st)"
  by (auto simp: eval_top_def sound_series_def checkForSeriesSetExpansion_def split: list.split intro!: recoverable_bind)

lemma recoverable_evals:
  assumes "\<And>e st. Some e \<in> set os \<Longrightarrow> recoverable (eval lb bl ev e st)"
  shows "recoverable (evals lb bl ev os st)"
  using assms
proof (induction os arbitrary: st)
  case (Cons o' os)
  then show ?case by (cases o') (auto intro!: recoverable_bind)
qed simp

lemma recoverable_binary_node:
  assumes "well_typed names (E_Binary op l r m b)" "binary_node lb op (expr_Type l) (expr_Type r) m b = Some f"
  shows "recoverable (f st vecs enh)"
  using assms by (auto simp: binary_node_def split: if_splits intro: recoverable_rules)

lemma operands_subset: "Some e \<in> set (operands os) \<Longrightarrow> Some e \<in> set os"
  by (auto simp: operands_def split: option.splits if_splits)

lemma omit_arg_subset: "Some e \<in> set (omit_arg k as) \<Longrightarrow> e \<in> set as"
  by (auto simp: omit_arg_def in_set_enumerate_eq split: if_splits)

lemma recoverable_operands:
  assumes "\<And>e st. Some e \<in> set os \<Longrightarrow> recoverable (eval lb bl ev e st)"
    and "\<And>st vecs enh. recoverable (f st vecs enh)"
  shows "recoverable (ev_bind (evals lb bl ev (operands os) st) (range_value lb ev f st))"
  by (rule recoverable_bind, rule recoverable_evals)
    (auto intro: assms(1) recoverable_range_value assms(2) dest: operands_subset)

lemma recoverable_call:
  assumes IH: "\<And>a st. a \<in> set args' \<Longrightarrow> recoverable (eval lb bl ev a st)"
    and sound: "\<And>a. a \<in> set args' \<Longrightarrow> sound_series a"
    and k: "k < length args'"
  shows "recoverable (ev_bind (case args' ! k of
       E_Subquery q rng offset step \<Rightarrow>
         ev_bind (eval lb bl ev (args' ! k) st) (\<lambda>(st', v).
         ev_bind (as_matrix v) (\<lambda>m. Inr (st', subquery_selector m rng offset, rng)))
     | E_Matrix vs rng \<Rightarrow> Inr (st, vs, rng)
     | _ \<Rightarrow> type_assertion)
   (\<lambda>(st1, vs, rng).
   ev_bind (evals lb bl ev (omit_arg k args') st1) (\<lambda>(st2, ms). matrix_call_result lb bl ev (mc vs rng ms) vs st2)))"
proof (rule recoverable_bind, goal_cases)
  case 1
  have "recoverable (eval lb bl ev (args' ! k) st)" using IH k by simp
  then show ?case by (auto split: expr.split intro!: recoverable_bind)
next
  case (2 r)
  obtain st1 vs rng where r: "r = (st1, vs, rng)" by (cases r) auto
  have "recoverable (vs_Series vs)"
    using 2 sound [of "args' ! k"] k
    by (auto simp: r ev_bind_Inr_iff type_assertion_def subquery_selector_def sound_series_def split: expr.splits)
  moreover have "recoverable (evals lb bl ev (omit_arg k args') st1)"
    by (rule recoverable_evals) (auto intro: IH dest: omit_arg_subset)
  ultimately show ?case by (auto simp: r intro!: recoverable_bind recoverable_matrix_call)
qed

text \<open>The node of a call, of an aggregation and of a binary operator, from their operands.\<close>

definition good_arg :: "promql_lib \<Rightarrow> 'it buffer_lib \<Rightarrow> evaluator \<Rightarrow> expr \<Rightarrow> bool" where
  "good_arg lb bl ev a \<longleftrightarrow> sound_series a \<and> (\<forall>st. recoverable (eval lb bl ev (unwrapParenExpr a) st) \<and> recoverable (eval lb bl ev a st))"

lemma unwrap_idem [simp]: "unwrapParenExpr (unwrapParenExpr e) = unwrapParenExpr e"
  by (induction e rule: unwrapParenExpr.induct) simp_all

lemma good_arg_unwrap: "good_arg lb bl ev a \<Longrightarrow> good_arg lb bl ev (unwrapParenExpr a)"
  by (simp add: good_arg_def sound_series_def selectors_unwrap)

lemma recoverable_eval_call:
  assumes e: "e = E_Call i fn args" and good: "list_all (good_arg lb bl ev) args" and top_e: "sound_series e"
  shows "recoverable (eval lb bl ev e st)"
proof (subst eval.simps, rule recoverable_bind, goal_cases)
  case (2 st1)
  obtain as' k where as': "find_matrix_arg args = (as', k)" by (cases "find_matrix_arg args") auto
  have "list_all (good_arg lb bl ev) as'"
    by (rule find_matrix_arg_all [OF as' good]) (rule good_arg_unwrap)
  then have IH: "recoverable (eval lb bl ev a st')" "sound_series a" if "a \<in> set as'" for a st'
    using that by (auto simp: list_all_iff good_arg_def)
  have ts: "recoverable (vs_Series vs)" if "timestamp_selector (fn_Name fn) args = Some vs" for vs
    using that good by (auto simp: timestamp_selector_def good_arg_def sound_series_def split: list.splits expr.splits if_splits)
  have plain: "recoverable (ev_bind (evals lb bl ev (operands (map Some as')) st1)
      (range_value lb ev (call_node lb (fn_Name fn) as') st1))"
    by (rule recoverable_operands) (auto intro: IH recoverable_nodes)
  have range_arg: "j < length as'" if "k = Some j" for j using find_matrix_arg_nth [of args as' j] as' that by simp
  show ?case
  proof (cases "ev_interval ev = 0 \<or> is_top ev e")
    case True
    then show ?thesis using recoverable_eval_top [OF top_e] by auto
  next
    case False
    then show ?thesis
      using plain recoverable_call [OF IH range_arg]
      by (auto simp: e as' split: option.split intro!: recoverable_range_value recoverable_timestamp_node ts)
  qed
qed simp

lemma recoverable_eval_aggregate:
  assumes e: "e = E_Aggregate op e' p grouping without" and good: "good_arg lb bl ev e'" "\<And>q. p = Some q \<Longrightarrow> good_arg lb bl ev q"
  shows "recoverable (eval lb bl ev e st)"
proof (subst eval.simps, rule recoverable_bind, goal_cases)
  case (2 st1)
  have p: "recoverable (eval lb bl ev q st')" if "Some q = map_option unwrapParenExpr p" for q st'
    using that good(2) by (cases p) (auto simp: good_arg_def)
  show ?case
    using good(1) p by (auto simp: e is_top_def good_arg_def Let_def split: option.split intro!: recoverable_operands recoverable_nodes)
qed simp

lemma recoverable_eval:
  "well_typed names e \<Longrightarrow> sound_series e \<Longrightarrow> recoverable (eval lb bl ev e st)"
proof (induction e arbitrary: ev st rule: measure_induct_rule [of size])
  case (less e)
  have sub: "recoverable (eval lb bl ev' a st')" if "size a < size e" "well_typed names a" "sound_series a" for a ev' st'
    using less.IH that by blast
  have good: "good_arg lb bl ev a" if "size a < size e" "well_typed names a" "sound_series a" for a
    unfolding good_arg_def using that unwrap_size [of a]
    by (auto simp: well_typed_unwrap sound_series_def selectors_unwrap intro!: sub)
  show ?case
  proof (cases e)
    case (E_Call i fn args)
    then have "list_all (good_arg lb bl ev) args"
      using less.prems size_mem_less [of _ args] by (auto simp: list_all_iff sound_series_def less_SucI intro!: good)
    then show ?thesis using recoverable_eval_call [OF E_Call] less.prems(2) by blast
  next
    case (E_Aggregate op e' p grouping without)
    then show ?thesis
      by (rule recoverable_eval_aggregate)
        (use less.prems E_Aggregate in \<open>auto intro!: good simp: sound_series_def split: option.splits\<close>)
  next
    case (E_Binary op l r m b)
    have lr: "recoverable (eval lb bl ev l st')" "recoverable (eval lb bl ev r st')" for st'
      using less.prems E_Binary by (auto intro!: sub simp: sound_series_def)
    have "well_typed names (E_Binary op l r m b)" using less.prems(1) E_Binary by simp
    from recoverable_binary_node [OF this, of lb] lr show ?thesis
      unfolding E_Binary by (subst eval.simps) (auto simp: is_top_def split: option.split intro!: recoverable_bind [of "contextDone _ _ _"] recoverable_operands)
  qed (unfold eval.simps [of lb bl ev e st], use less.prems sub in \<open>auto simp: Let_def sound_series_def
      checkForSeriesSetExpansion_def matrixSelector_def
      intro!: recoverable_bind recoverable_range_value recoverable_nodes recoverable_eval_top\<close>)
qed


section \<open>The shape of results\<close>

text \<open>
  A scalar is one series with a point at every step; every series of the vector of an instant query
  has a point.
\<close>

definition scalar_shape :: "evaluator \<Rightarrow> matrix \<Rightarrow> bool" where
  "scalar_shape ev m \<longleftrightarrow>
     (if ev_steps ev = [] then m = [] else \<exists>s. m = [s] \<and> map pt_T (sr_Points s) = ev_steps ev)"

definition vector_shape :: "evaluator \<Rightarrow> matrix \<Rightarrow> bool" where
  "vector_shape ev m \<longleftrightarrow>
     (0 < ev_interval ev \<and> ev_startTimestamp ev = ev_endTimestamp ev \<longrightarrow> (\<forall>s \<in> set m. sr_Points s \<noteq> []))"

definition has_shape :: "evaluator \<Rightarrow> value_type \<Rightarrow> pvalue \<Rightarrow> bool" where
  "has_shape ev t v \<longleftrightarrow>
     (case (t, v) of
        (VT_String, VString _ _) \<Rightarrow> True
      | (VT_Scalar, VMatrix m) \<Rightarrow> scalar_shape ev m
      | (VT_Vector, VMatrix m) \<Rightarrow> vector_shape ev m
      | (VT_Matrix, VMatrix m) \<Rightarrow> True
      | _ \<Rightarrow> False)"

definition range_permutes :: "promql_lib \<Rightarrow> bool" where
  "range_permutes lb \<longleftrightarrow> (\<forall>ks. mset (G_Range lb ks) = mset ks)"

lemma range_permutes_small:
  assumes "range_permutes lb"
  shows "G_Range lb [] = []" "G_Range lb [h] = [h]"
  using assms unfolding range_permutes_def by (metis mset_zero_iff, metis mset_single_iff mset.simps mset_single_iff_right)

lemma steps_instant:
  "ev_startTimestamp ev = ev_endTimestamp ev \<Longrightarrow> ev_steps ev = (if 0 < ev_interval ev then [ev_startTimestamp ev] else [])"
  unfolding ev_steps_def by (subst step_list.simps, subst step_list.simps) simp

definition one_series :: "promql_lib \<Rightarrow> point list \<Rightarrow> seriess" where
  "one_series lb ps = (if ps = [] then [] else [(L_Hash lb [], \<lparr>sr_Metric = [], sr_Points = ps\<rparr>)])"

lemma add_point_one_series:
  "sm_Metric s = [] \<Longrightarrow> add_point lb ts s (one_series lb ps) = one_series lb (ps @ [(sm_Point s)\<lparr>pt_T := ts\<rparr>])"
  by (simp add: add_point_def one_series_def Let_def)

definition scalar_node :: "node_fun \<Rightarrow> bool" where
  "scalar_node f \<longleftrightarrow> (\<forall>st vecs enh st' enh' out. f st vecs enh = Inr (st', enh', out) \<longrightarrow> (\<exists>v. out = [plain_sample v]))"

lemma range_loop_scalar:
  assumes "scalar_node f" "range_permutes lb" "ev_startTimestamp ev \<noteq> ev_endTimestamp ev"
  shows "range_loop lb ev f tss temp enh mats (one_series lb ps) st = Inr (st', m) \<Longrightarrow>
    \<exists>ps'. m = map snd (one_series lb ps') \<and> map pt_T ps' = map pt_T ps @ tss"
proof (induction tss arbitrary: temp enh mats ps st)
  case Nil
  then show ?case
    by (intro exI [of _ ps]) (auto simp: one_series_def range_permutes_small [OF assms(2)])
next
  case (Cons ts tss)
  from Cons.prems obtain st1 temp1 enh1 mats1 r where
    step: "range_step lb ev f ts temp enh mats (one_series lb ps) st = Inr (st1, temp1, enh1, mats1, r)"
    and next_steps: "(case r of StepDone m \<Rightarrow> Inr (st1, m) | StepNext out \<Rightarrow> range_loop lb ev f tss temp1 enh1 mats1 out st1) = Inr (st', m)"
    by (auto simp: ev_bind_Inr_iff)
  from step assms(1,3) obtain v where "r = StepNext (add_point lb ts (plain_sample v) (one_series lb ps))"
    unfolding range_step_def scalar_node_def
    by (fastforce simp: ev_bind_Inr_iff Let_def too_many_def same_labelset_error_def ev_errorf_def split: if_splits)
  then have "r = StepNext (one_series lb (ps @ [\<lparr>pt_T = ts, pt_V = v\<rparr>]))"
    by (simp add: add_point_one_series plain_sample_def)
  with next_steps Cons.IH [of temp1 enh1 mats1 "ps @ [\<lparr>pt_T = ts, pt_V = v\<rparr>]" st1] show ?case by simp
qed

lemma range_loop_instant:
  assumes "ev_startTimestamp ev = ev_endTimestamp ev" "range_permutes lb"
    and "range_loop lb ev f (ev_steps ev) temp enh mats [] st = Inr (st', m)"
  obtains "ev_steps ev = []" "m = []"
    | st1 vecs enh1 st2 enh2 result where "ev_steps ev = [ev_startTimestamp ev]"
        "f st1 vecs enh1 = Inr (st2, enh2, result)" "m = instant_matrix (ev_startTimestamp ev) result"
proof (cases "0 < ev_interval ev")
  case True
  then have steps: "ev_steps ev = [ev_startTimestamp ev]" using steps_instant [OF assms(1)] by simp
  from assms(3) obtain st1 temp1 enh1 mats1 r where
    step: "range_step lb ev f (ev_startTimestamp ev) temp enh mats [] st = Inr (st1, temp1, enh1, mats1, r)"
    and m: "(case r of StepDone m \<Rightarrow> Inr (st1, m) | StepNext out \<Rightarrow> range_loop lb ev f [] temp1 enh1 mats1 out st1) = Inr (st', m)"
    unfolding steps by (auto simp: ev_bind_Inr_iff simp del: range_loop.simps(1))
  from step assms(1) obtain st1 vecs enh1 st2 enh2 result where
    "f st1 vecs enh1 = Inr (st2, enh2, result)" "r = StepDone (instant_matrix (ev_startTimestamp ev) result)"
    unfolding range_step_def
    by (fastforce simp: ev_bind_Inr_iff Let_def too_many_def same_labelset_error_def ev_errorf_def split: if_splits)
  with steps m show ?thesis by (intro that(2)) auto
next
  case False
  then have "ev_steps ev = []" using steps_instant [OF assms(1)] by simp
  with assms(3) show ?thesis by (intro that(1)) (auto simp: range_permutes_small [OF assms(2)])
qed

lemma rangeEval_scalar:
  assumes "scalar_node f" "range_permutes lb" "rangeEval lb ev f n mats st = Inr (st', m)"
  shows "scalar_shape ev m"
proof -
  from assms(3) obtain st1 where loop: "range_loop lb ev f (ev_steps ev) (st_currentSamples st) new_enh mats [] st = Inr (st1, m)"
    by (auto simp: rangeEval_def ev_bind_Inr_iff)
  show ?thesis
  proof (cases "ev_startTimestamp ev = ev_endTimestamp ev")
    case True
    from True assms(2) loop show ?thesis
    proof (cases rule: range_loop_instant)
      case 1
      then show ?thesis by (simp add: scalar_shape_def)
    next
      case (2 st1 vecs enh1 st2 enh2 result)
      with assms(1) obtain v where "result = [plain_sample v]" unfolding scalar_node_def by blast
      with 2 show ?thesis by (simp add: scalar_shape_def instant_matrix_def)
    qed
  next
    case False
    have "range_loop lb ev f (ev_steps ev) (st_currentSamples st) new_enh mats (one_series lb []) st = Inr (st1, m)"
      using loop by (simp add: one_series_def)
    from range_loop_scalar [OF assms(1,2) False this]
    obtain ps where ps: "m = map snd (one_series lb ps)" "map pt_T ps = ev_steps ev" by auto
    then have "ps = [] \<longleftrightarrow> ev_steps ev = []" by auto
    with ps show ?thesis by (auto simp: scalar_shape_def one_series_def)
  qed
qed

lemma rangeEval_vector:
  assumes "range_permutes lb" "rangeEval lb ev f n mats st = Inr (st', m)"
  shows "vector_shape ev m"
proof -
  from assms(2) obtain st1 where loop: "range_loop lb ev f (ev_steps ev) (st_currentSamples st) new_enh mats [] st = Inr (st1, m)"
    by (auto simp: rangeEval_def ev_bind_Inr_iff)
  have "\<forall>s \<in> set m. sr_Points s \<noteq> []" if "ev_startTimestamp ev = ev_endTimestamp ev"
    using that assms(1) loop by (cases rule: range_loop_instant) (auto simp: instant_matrix_def)
  then show ?thesis by (simp add: vector_shape_def)
qed

lemma range_value_shape:
  assumes "range_permutes lb" "range_value lb ev f st0 r = Inr (st', v)"
  shows "has_shape ev VT_Vector v" "scalar_node f \<Longrightarrow> has_shape ev VT_Scalar v"
  using assms rangeEval_vector [OF assms(1)] rangeEval_scalar [OF _ assms(1)]
  by (auto simp: range_value_def ev_bind_Inr_iff has_shape_def)

lemma scalar_lookup:
  "map_of FunctionCalls ''time'' = Some funcTime" "map_of FunctionCalls ''scalar'' = Some funcScalar"
  by (simp_all add: FunctionCalls_def)

lemma scalar_call:
  assumes "name \<in> set scalar_functions" "lookup_call name lb vals args enh = Inr (enh', out)"
  shows "\<exists>v. out = [plain_sample v]"
proof -
  from assms(1) consider "name = ''time''" | "name = ''scalar''" unfolding scalar_functions_def by auto
  then show ?thesis
  proof cases
    case 1
    with assms(2) show ?thesis by (simp add: lookup_call_def scalar_lookup funcTime_def one_sample_def) blast
  next
    case 2
    with assms(2) have "funcScalar lb vals args enh = Inr (enh', out)" by (simp add: lookup_call_def scalar_lookup)
    then obtain v :: vector where "(case v of [s] \<Rightarrow> one_sample enh (pt_V (sm_Point s)) | _ \<Rightarrow> one_sample enh f_nan) = Inr (enh', out)"
      unfolding funcScalar_def ev_bind_Inr_iff by blast
    then show ?thesis by (cases v rule: remdups_adj.cases) (auto simp: one_sample_def)
  qed
qed

lemma scalar_nodes:
  "scalar_node (number_node v)" "scalar_node (scalar_scalar_node lb op)"
  "name \<in> set scalar_functions \<Longrightarrow> scalar_node (call_node lb name args)"
  by (auto simp: scalar_node_def number_node_def scalar_scalar_node_def call_node_def pure_node_def ev_bind_Inr_iff
      dest: scalar_call)

lemma instant_series_points:
  "instant_series bl ev vs ss mat st = Inr (st', m) \<Longrightarrow> \<forall>s \<in> set mat. sr_Points s \<noteq> [] \<Longrightarrow> \<forall>s \<in> set m. sr_Points s \<noteq> []"
  by (induction ss arbitrary: mat st) (fastforce simp: ev_bind_Inr_iff split: if_splits)+

lemma call_steps_length:
  "call_steps lb bl ev mc labels tss step it points enh out st = Inr (st', enh', ps) \<Longrightarrow> length ps \<le> length out + length tss"
proof (induction tss arbitrary: step it points enh out st)
  case (Cons ts tss)
  from Cons.prems obtain vs st1 it1 points1 where
    rest_steps: "(if points1 = [] then call_steps lb bl ev mc labels tss (step + 1) it1 points1 enh out st1
      else ev_bind (lookup_call (mc_name mc) lb (in_args vs \<lparr>sr_Metric = labels, sr_Points = points1\<rparr>) (mc_args mc) (enh\<lparr>enh_ts := ts\<rparr>))
        (\<lambda>(enh', outVec). call_steps lb bl ev mc labels tss (step + 1)
           (bl_ReduceDelta bl (min (mc_selRange mc) (ev_interval ev)) it1) points1 enh'
           (case outVec of [] \<Rightarrow> out | s # _ \<Rightarrow> out @ [\<lparr>pt_T = ts, pt_V = pt_V (sm_Point s)\<rparr>]) st1)) = Inr (st', enh', ps)"
    by (auto simp: ev_bind_Inr_iff Let_def)
  show ?case
  proof (cases "points1 = []")
    case True
    with rest_steps Cons.IH show ?thesis by fastforce
  next
    case False
    with rest_steps obtain enh1 and outVec :: vector where
      "call_steps lb bl ev mc labels tss (step + 1) (bl_ReduceDelta bl (min (mc_selRange mc) (ev_interval ev)) it1) points1 enh1
         (case outVec of [] \<Rightarrow> out | s # _ \<Rightarrow> out @ [\<lparr>pt_T = ts, pt_V = pt_V (sm_Point s)\<rparr>]) st1 = Inr (st', enh', ps)"
      by (auto simp: ev_bind_Inr_iff)
    from Cons.IH [OF this] show ?thesis by (cases outVec) auto
  qed
qed simp

lemma call_series_points:
  "call_series lb bl ev mc ss enh mat st = Inr (st', m) \<Longrightarrow>
   \<forall>s \<in> set mat. sr_Points s \<noteq> [] \<and> length (sr_Points s) \<le> length (ev_steps ev) \<Longrightarrow>
   \<forall>s \<in> set m. sr_Points s \<noteq> [] \<and> length (sr_Points s) \<le> length (ev_steps ev)"
proof (induction ss arbitrary: enh mat st)
  case (Cons s ss)
  from Cons.prems obtain st1 enh1 ps where steps:
    "call_steps lb bl ev mc (ss_Labels s) (ev_steps ev) 0 (bl_New bl (mc_selRange mc) (ss_Points s)) [] enh [] st = Inr (st1, enh1, ps)"
    by (auto simp: ev_bind_Inr_iff)
  from call_steps_length [OF this] have "length ps \<le> length (ev_steps ev)" by simp
  with Cons.prems steps show ?case
    by (auto simp: too_many_def split: if_splits dest!: Cons.IH)
qed simp

lemma absent_shape:
  assumes "\<forall>s \<in> set mat. sr_Points s \<noteq> [] \<and> length (sr_Points s) \<le> length (ev_steps ev)"
  shows "vector_shape ev (absent_matrix lb ev arg mat)"
  unfolding vector_shape_def
proof (intro impI, elim conjE)
  assume i: "0 < ev_interval ev" and eq: "ev_startTimestamp ev = ev_endTimestamp ev"
  then have steps: "ev_steps ev = [ev_startTimestamp ev]" by (simp add: steps_instant)
  have one: "nat (1 + go_quot (ev_endTimestamp ev - ev_startTimestamp ev) (ev_interval ev)) = 1"
    using eq by (simp add: go_quot_def)
  show "\<forall>s \<in> set (absent_matrix lb ev arg mat). sr_Points s \<noteq> []"
  proof (cases mat)
    case Nil
    then show ?thesis by (simp add: absent_matrix_def Let_def steps)
  next
    case (Cons s ms)
    with assms steps have "sr_Points s \<noteq> []" "length (sr_Points s) \<le> 1" by simp_all
    then have "length (sr_Points s) = 1" by (cases "sr_Points s") simp_all
    with Cons show ?thesis by (simp add: absent_matrix_def Let_def one)
  qed
qed

lemma matrix_call_shape:
  assumes "matrix_call_result lb bl ev mc vs st = Inr (st', v)"
  shows "has_shape ev VT_Vector v"
proof -
  from assms obtain ss st1 mat where ss: "call_series lb bl ev mc ss new_enh [] st = Inr (st1, mat)"
    and v: "v = VMatrix mat \<or> v = VMatrix (absent_matrix lb ev (hd (mc_args mc)) mat)"
    by (auto simp: matrix_call_result_def ev_bind_Inr_iff same_labelset_error_def ev_errorf_def split: if_splits)
  from call_series_points [OF ss] have "\<forall>s \<in> set mat. sr_Points s \<noteq> [] \<and> length (sr_Points s) \<le> length (ev_steps ev)" by simp
  with v absent_shape [OF this] show ?thesis by (auto simp: has_shape_def vector_shape_def)
qed

lemma eval_top_shape: "eval_top lb e st = Inr (st', v) \<Longrightarrow> has_shape ev VT_Vector v"
  by (auto simp: eval_top_def ev_bind_Inr_iff ev_errorf_def has_shape_def vector_shape_def getPushdownResult_def split: list.splits)

lemma negate_shape:
  assumes "has_shape ev t (VMatrix m)" "t \<in> {VT_Scalar, VT_Vector}"
  shows "has_shape ev t (VMatrix (negate_matrix lb m))"
  using assms by (auto simp: has_shape_def scalar_shape_def vector_shape_def negate_matrix_def comp_def split: if_splits)

lemma binary_shape:
  assumes "range_permutes lb" "binary_node lb op (expr_Type l) (expr_Type r) m b = Some f" "range_value lb ev f st0 x = Inr (st', v)"
  shows "has_shape ev (expr_Type (E_Binary op l r m b)) v"
  using assms(2) range_value_shape [OF assms(1,3)] scalar_nodes(2) [of lb op]
  by (auto simp: binary_node_def split: if_splits)

lemma scalar_call_args:
  assumes "find_matrix_arg as = (as', k)" "list_all (\<lambda>a. expr_Type a \<noteq> VT_Matrix) as"
  shows "k = None"
proof (rule ccontr)
  assume "k \<noteq> None"
  then obtain j where j: "k = Some j" by blast
  have "list_all (\<lambda>a. expr_Type a \<noteq> VT_Matrix) as'"
    by (rule find_matrix_arg_all [OF assms]) (simp add: expr_Type_unwrap)
  with find_matrix_arg_nth [of as as' j] assms(1) j have "expr_Type (as' ! j) \<noteq> VT_Matrix" "is_matrix_arg (as' ! j)"
    by (simp_all add: list_all_iff)
  then show False by (auto simp: is_matrix_arg_def split: expr.splits)
qed

lemma call_shape:
  assumes lb: "range_permutes lb" and wt: "well_typed names (E_Call i fn args)"
    and node: "\<And>n. ev_topNode ev = Some n \<Longrightarrow> names n \<notin> set scalar_functions"
    and ev: "eval lb bl ev (E_Call i fn args) st = Inr (st', v)"
  shows "has_shape ev (fn_ReturnType fn) v"
proof -
  obtain as' k where as': "find_matrix_arg args = (as', k)" by (cases "find_matrix_arg args") auto
  have scalar: "k = None" "\<not> is_top ev (E_Call i fn args)" "timestamp_selector (fn_Name fn) args = None"
      if "fn_Name fn \<in> set scalar_functions"
  proof -
    show "k = None" using wt that scalar_call_args [OF as'] by simp
    show "\<not> is_top ev (E_Call i fn args)" using wt that node [of i] by (auto simp: is_top_def split: option.splits)
    have "fn_Name fn \<noteq> ''timestamp''" using that by (auto simp: scalar_functions_def)
    then show "timestamp_selector (fn_Name fn) args = None" by (auto simp: timestamp_selector_def split: list.splits expr.splits)
  qed
  have type: "fn_ReturnType fn = (if fn_Name fn \<in> set scalar_functions then VT_Scalar else VT_Vector)" using wt by simp
  note range_shape = range_value_shape [OF lb]
  show ?thesis
  proof (cases "fn_Name fn \<in> set scalar_functions")
    case True
    with ev scalar as' type range_shape(2) scalar_nodes(3) [OF True] show ?thesis
      by (subst (asm) eval.simps) (auto simp: ev_bind_Inr_iff divide_by_zero_def index_error_def split: if_splits)
  next
    case False
    with ev as' type range_shape(1) show ?thesis
      by (subst (asm) eval.simps)
        (auto simp: ev_bind_Inr_iff divide_by_zero_def index_error_def
          intro: eval_top_shape matrix_call_shape split: if_splits option.splits)
  qed
qed

lemma eval_shape:
  assumes "range_permutes lb"
  shows "well_typed names e \<Longrightarrow> (\<And>n. ev_topNode ev = Some n \<Longrightarrow> names n \<notin> set scalar_functions) \<Longrightarrow>
    eval lb bl ev e st = Inr (st', v) \<Longrightarrow> has_shape ev (expr_Type e) v"
proof (induction e arbitrary: ev st st' v)
  case (E_Call i fn args)
  from call_shape [OF assms E_Call.prems] show ?case by simp
next
  case (E_Number x)
  then show ?case using range_value_shape(2) [OF assms _ scalar_nodes(1)]
    by (subst (asm) eval.simps) (auto simp: ev_bind_Inr_iff divide_by_zero_def is_top_def split: if_splits option.splits)
next
  case (E_String x)
  then show ?case
    by (subst (asm) eval.simps) (auto simp: ev_bind_Inr_iff divide_by_zero_def is_top_def has_shape_def split: if_splits option.splits)
next
  case (E_Paren e)
  from E_Paren.prems(3) obtain st1 where "eval lb bl ev e st1 = Inr (st', v)"
    by (subst (asm) eval.simps) (auto simp: ev_bind_Inr_iff divide_by_zero_def is_top_def split: if_splits option.splits)
  from E_Paren.IH [OF _ E_Paren.prems(2) this] E_Paren.prems(1) show ?case by simp
next
  case (E_Unary op e)
  from E_Unary.prems(3) obtain st1 m where "eval lb bl ev e st1 = Inr (st', VMatrix m)"
    "v = VMatrix m \<or> v = VMatrix (negate_matrix lb m)"
    by (subst (asm) eval.simps) (auto simp: ev_bind_Inr_iff divide_by_zero_def is_top_def as_matrix_def type_assertion_def
        same_labelset_error_def ev_errorf_def Let_def split: if_splits option.splits pvalue.splits)
  with E_Unary.IH [of ev st1 st' "VMatrix m"] E_Unary.prems(1,2) negate_shape [of ev "expr_Type e" m lb]
  show ?case by auto
next
  case (E_Binary op l r m b)
  from E_Binary.prems(3) obtain f st1 x where "binary_node lb op (expr_Type l) (expr_Type r) m b = Some f"
    "range_value lb ev f st1 x = Inr (st', v)"
    by (subst (asm) eval.simps) (auto simp: ev_bind_Inr_iff divide_by_zero_def is_top_def unhandled_def ev_errorf_def
        split: if_splits option.splits)
  from binary_shape [OF assms this] show ?case .
next
  case (E_Vector vs)
  from E_Vector.prems(3) show ?case
    by (subst (asm) eval.simps) (auto simp: ev_bind_Inr_iff divide_by_zero_def has_shape_def vector_shape_def
        intro: eval_top_shape [unfolded has_shape_def, simplified] dest: instant_series_points split: if_splits)
next
  case (E_Matrix vs rng)
  from E_Matrix.prems(3) show ?case
    by (subst (asm) eval.simps) (auto simp: ev_bind_Inr_iff divide_by_zero_def is_top_def ev_errorf_def has_shape_def
        split: if_splits option.splits)
next
  case (E_Subquery e rng offset step)
  from E_Subquery.prems(3) obtain ev' st1 where ev': "subquery_evaluator ev rng offset step = Inr ev'"
    "eval lb bl ev' e st1 = Inr (st', v)"
    by (subst (asm) eval.simps) (auto simp: ev_bind_Inr_iff divide_by_zero_def is_top_def split: if_splits option.splits)
  from ev'(1) have "ev_topNode ev' = None" by (auto simp: subquery_evaluator_def Let_def divide_by_zero_def split: if_splits)
  with E_Subquery.IH [of ev' st1 st' v] E_Subquery.prems(1) ev'(2) have "has_shape ev' VT_Vector v" by auto
  then show ?case by (auto simp: has_shape_def split: pvalue.splits)
next
  case (E_Aggregate op e p grouping without)
  from E_Aggregate.prems(3) obtain f st1 x where "range_value lb ev f st1 x = Inr (st', v)"
    by (subst (asm) eval.simps) (auto simp: ev_bind_Inr_iff divide_by_zero_def is_top_def Let_def split: if_splits option.splits)
  from range_value_shape(1) [OF assms this] show ?case by simp
qed


section \<open>Preparation keeps types\<close>

text \<open>
  What the engine relies on in its storage: the expansion of a series set panics with errors only,
  and a node that the storage evaluates itself is a call of a function that returns a vector, on the
  path to the selector.
\<close>

definition storage_contract :: "'q select_fun \<Rightarrow> bool" where
  "storage_contract select \<longleftrightarrow>
     (\<forall>q h path ms q' ss n w. select q h path ms = (q', Inr (ss, n), w) \<longrightarrow>
        recoverable ss \<and> (\<forall>i. n = Some i \<longrightarrow> (\<exists>name. N_Call i name \<in> set path \<and> name \<notin> set scalar_functions)))"

definition path_named :: "(nat \<Rightarrow> string) \<Rightarrow> path_node list \<Rightarrow> bool" where
  "path_named names path \<longleftrightarrow> (\<forall>i name. N_Call i name \<in> set path \<longrightarrow> names i = name)"

definition top_vector :: "(nat \<Rightarrow> string) \<Rightarrow> 'q pop_state \<Rightarrow> bool" where
  "top_vector names po \<longleftrightarrow> (\<forall>n. po_topNode po = Some n \<longrightarrow> names n \<notin> set scalar_functions)"

definition keeps_types :: "expr \<Rightarrow> expr \<Rightarrow> bool" where
  "keeps_types e e' \<longleftrightarrow> expr_Type e' = expr_Type e \<and> (\<forall>names. well_typed names e \<longrightarrow> well_typed names e') \<and>
     (sound_series e \<longrightarrow> sound_series e')"

lemma keeps_types_refl [simp]: "keeps_types e e"
  by (simp add: keeps_types_def)

lemma populate_selector_sound:
  assumes "storage_contract sel" "populate_selector lb sel ng s path n po = (n', po')"
  shows "recoverable (vs_Series n) \<Longrightarrow> recoverable (vs_Series n')"
    and "path_named names path \<Longrightarrow> top_vector names po \<Longrightarrow> top_vector names po'"
  using assms
  by (fastforce simp: populate_selector_def Let_def storage_contract_def top_vector_def path_named_def split: if_splits prod.splits sum.splits)+

definition populated_ok :: "(nat \<Rightarrow> string) \<Rightarrow> path_node list \<Rightarrow> expr \<Rightarrow> 'q pop_state \<Rightarrow> expr \<Rightarrow> 'q pop_state \<Rightarrow> bool" where
  "populated_ok names path e po e' po' \<longleftrightarrow> keeps_types e e' \<and>
     (well_typed names e \<longrightarrow> path_named names path \<longrightarrow> top_vector names po \<longrightarrow> top_vector names po')"

lemma path_named_snoc [simp]:
  "path_named names (path @ [N_Other]) = path_named names path"
  "path_named names (path @ [N_Binary]) = path_named names path"
  "path_named names (path @ [N_Subquery r t]) = path_named names path"
  "path_named names (path @ [N_Aggregate op w g]) = path_named names path"
  "path_named names (path @ [N_Call i name]) \<longleftrightarrow> names i = name \<and> path_named names path"
  by (auto simp: path_named_def)

lemma populate_list_types:
  assumes "\<And>a path po a' po'. a \<in> set as \<Longrightarrow> populate lb sel ng s path a po = (a', po') \<Longrightarrow> populated_ok names path a po a' po'"
  shows "populate_list lb sel ng s path as po = (as', po') \<Longrightarrow>
    list_all2 keeps_types as as' \<and>
    (list_all (well_typed names) as \<longrightarrow> path_named names path \<longrightarrow> top_vector names po \<longrightarrow> top_vector names po')"
  using assms
proof (induction as arbitrary: po as')
  case (Cons a as)
  obtain a1 po1 where a: "populate lb sel ng s path a po = (a1, po1)" by fastforce
  obtain as1 po2 where as: "populate_list lb sel ng s path as po1 = (as1, po2)" by fastforce
  with a Cons.prems(1) have eq: "as' = a1 # as1" "po2 = po'" by auto
  have "populated_ok names path a po a1 po1" using Cons.prems(2) [OF _ a] by simp
  moreover have "list_all2 keeps_types as as1 \<and>
      (list_all (well_typed names) as \<longrightarrow> path_named names path \<longrightarrow> top_vector names po1 \<longrightarrow> top_vector names po')"
    by (rule Cons.IH) (use as eq Cons.prems(2) in auto)
  ultimately show ?case by (simp add: eq populated_ok_def)
qed simp

lemma keeps_types_call:
  assumes "list_all2 keeps_types as as'"
  shows "keeps_types (E_Call i fn as) (E_Call i fn as')"
proof -
  have "list_all P as \<longrightarrow> list_all P as'" if "\<And>a a'. keeps_types a a' \<Longrightarrow> P a \<Longrightarrow> P a'" for P
    using assms by (induction) (auto intro: that)
  from this [of "well_typed _"] this [of "\<lambda>a. expr_Type a \<noteq> VT_Matrix"] this [of sound_series]
  show ?thesis by (auto simp: keeps_types_def sound_series_def list_all_iff)
qed

lemma keeps_types_operands:
  assumes "keeps_types l l'" "keeps_types r r'"
  shows "keeps_types (E_Binary op l r m b) (E_Binary op l' r' m b)"
    "keeps_types (E_Aggregate op l (Some r) g w) (E_Aggregate op l' (Some r') g w)"
proof -
  from assms have t: "expr_Type l' = expr_Type l" "expr_Type r' = expr_Type r" by (simp_all add: keeps_types_def)
  from assms have w: "well_typed names l \<Longrightarrow> well_typed names l'" "well_typed names r \<Longrightarrow> well_typed names r'" for names
    by (simp_all add: keeps_types_def)
  from assms have "sound_series l \<longrightarrow> sound_series l'" "sound_series r \<longrightarrow> sound_series r'" by (simp_all add: keeps_types_def)
  then have "sound_series l \<and> sound_series r \<longrightarrow> sound_series l' \<and> sound_series r'" by simp
  then have s: "(\<forall>vs \<in> set (selectors l) \<union> set (selectors r). recoverable (vs_Series vs)) \<longrightarrow>
      (\<forall>vs \<in> set (selectors l') \<union> set (selectors r'). recoverable (vs_Series vs))"
    unfolding sound_series_def ball_Un .
  show "keeps_types (E_Binary op l r m b) (E_Binary op l' r' m b)"
    "keeps_types (E_Aggregate op l (Some r) g w) (E_Aggregate op l' (Some r') g w)"
    unfolding keeps_types_def sound_series_def using w s by (simp_all add: t)
qed

lemma populated_stopped: "po_stopped po \<Longrightarrow> populate lb sel ng s path e po = (e', po') \<Longrightarrow> populated_ok names path e po e' po'"
  by (cases e) (simp_all add: populated_ok_def)

lemma populated_aggregate:
  assumes "\<not> po_stopped po" "populate lb sel ng s path (E_Aggregate op e p grouping without) po = (e', po')"
    and IH: "\<And>x path po x' po'. x = e \<or> p = Some x \<Longrightarrow> populate lb sel ng s path x po = (x', po') \<Longrightarrow> populated_ok names path x po x' po'"
  shows "populated_ok names path (E_Aggregate op e p grouping without) po e' po'"
proof -
  let ?path = "path @ [N_Aggregate op without grouping]"
  obtain e1 po1 where e1: "populate lb sel ng s ?path e po = (e1, po1)" by fastforce
  then have e: "populated_ok names ?path e po e1 po1" using IH by blast
  show ?thesis
  proof (cases p)
    case None
    with assms(1,2) e1 have "e' = E_Aggregate op e1 None grouping without" "po' = po1" by simp_all
    with e None show ?thesis by (simp add: populated_ok_def keeps_types_def sound_series_def)
  next
    case (Some q)
    obtain q1 po2 where q1: "populate lb sel ng s ?path q po1 = (q1, po2)" by fastforce
    have "populated_ok names ?path q po1 q1 po2" using IH [OF _ q1] Some by blast
    moreover have "e' = E_Aggregate op e1 (Some q1) grouping without" "po' = po2" using assms(1,2) e1 q1 Some by simp_all
    ultimately show ?thesis using e Some keeps_types_operands(2) [of e e1 q q1] by (simp add: populated_ok_def)
  qed
qed

lemma populated_binary:
  assumes "\<not> po_stopped po" "populate lb sel ng s path (E_Binary op l r m b) po = (e', po')"
    and IH: "\<And>x path po x' po'. x = l \<or> x = r \<Longrightarrow> populate lb sel ng s path x po = (x', po') \<Longrightarrow> populated_ok names path x po x' po'"
  shows "populated_ok names path (E_Binary op l r m b) po e' po'"
proof -
  obtain l1 po1 where l: "populate lb sel ng s (path @ [N_Binary]) l po = (l1, po1)" by fastforce
  obtain r1 po2 where r: "populate lb sel ng s (path @ [N_Binary]) r po1 = (r1, po2)" by fastforce
  have "populated_ok names (path @ [N_Binary]) l po l1 po1" "populated_ok names (path @ [N_Binary]) r po1 r1 po2"
    using IH l r by blast+
  moreover have "e' = E_Binary op l1 r1 m b" "po' = po2" using assms(1,2) l r by simp_all
  ultimately show ?thesis using keeps_types_operands(1) [of l l1 r r1] by (simp add: populated_ok_def)
qed

lemma populated_call:
  assumes "\<not> po_stopped po" "populate lb sel ng s path (E_Call i fn args) po = (e', po')"
    and IH: "\<And>a path po a' po'. a \<in> set args \<Longrightarrow> populate lb sel ng s path a po = (a', po') \<Longrightarrow> populated_ok names path a po a' po'"
  shows "populated_ok names path (E_Call i fn args) po e' po'"
proof -
  obtain as1 po1 where as1: "populate_list lb sel ng s (path @ [N_Call i (fn_Name fn)]) args po = (as1, po1)" by fastforce
  then have "e' = E_Call i fn as1" "po' = po1" using assms(1,2) by simp_all
  moreover have "list_all2 keeps_types args as1 \<and>
      (list_all (well_typed names) args \<longrightarrow> path_named names (path @ [N_Call i (fn_Name fn)]) \<longrightarrow> top_vector names po \<longrightarrow> top_vector names po1)"
    by (rule populate_list_types [OF _ as1]) (rule IH)
  ultimately show ?thesis using keeps_types_call [of args as1 i fn] by (simp add: populated_ok_def)
qed

lemma populate_types:
  assumes "storage_contract sel"
  shows "populate lb sel ng s path e po = (e', po') \<Longrightarrow> populated_ok names path e po e' po'"
proof (induction e arbitrary: path po e' po')
  case (E_Call i fn args)
  show ?case
    by (cases "po_stopped po", erule populated_stopped [OF _ E_Call.prems], erule populated_call [OF _ E_Call.prems], rule E_Call.IH)
next
  case (E_Aggregate op e p grouping without)
  have IH: "populated_ok names path x po x' po'" if "x = e \<or> p = Some x" "populate lb sel ng s path x po = (x', po')" for x path po x' po'
    using E_Aggregate.IH(1) [of path po x' po'] E_Aggregate.IH(2) [of x path po x' po'] that by auto
  show ?case
    by (cases "po_stopped po", erule populated_stopped [OF _ E_Aggregate.prems], erule populated_aggregate [OF _ E_Aggregate.prems IH])
next
  case (E_Binary op l r m b)
  have IH: "populated_ok names path x po x' po'" if "x = l \<or> x = r" "populate lb sel ng s path x po = (x', po')" for x path po x' po'
    using E_Binary.IH(1) [of path po x' po'] E_Binary.IH(2) [of path po x' po'] that by auto
  show ?case
    by (cases "po_stopped po", erule populated_stopped [OF _ E_Binary.prems], erule populated_binary [OF _ E_Binary.prems IH])
next
  case (E_Vector vs)
  obtain n1 po1 where n1: "populate_selector lb sel ng s path vs po = (n1, po1)" by fastforce
  from populate_selector_sound [OF assms n1] E_Vector n1 show ?case
    by (cases "po_stopped po") (auto simp: populated_ok_def keeps_types_def sound_series_def)
next
  case (E_Matrix vs rng)
  obtain n1 po1 where n1: "populate_selector lb sel ng s (path @ [N_Other]) vs (po\<lparr>po_evalRange := rng\<rparr>) = (n1, po1)" by fastforce
  have tv: "top_vector names (po\<lparr>po_evalRange := rng\<rparr>) = top_vector names po" by (simp add: top_vector_def)
  show ?case
  proof (cases "po_stopped po")
    case False
    with E_Matrix n1 have "e' = E_Matrix n1 rng" "po' = po1" by simp_all
    with populate_selector_sound(1) [OF assms n1] populate_selector_sound(2) [OF assms n1, of names] show ?thesis
      by (simp add: populated_ok_def keeps_types_def sound_series_def tv)
  qed (use E_Matrix in \<open>simp add: populated_ok_def\<close>)
next
  case (E_Paren e)
  obtain e1 po1 where e1: "populate lb sel ng s (path @ [N_Other]) e po = (e1, po1)" by fastforce
  from E_Paren.IH [OF e1] E_Paren.prems e1 show ?case
    by (cases "po_stopped po") (auto simp: populated_ok_def keeps_types_def sound_series_def)
next
  case (E_Unary op e)
  obtain e1 po1 where e1: "populate lb sel ng s (path @ [N_Other]) e po = (e1, po1)" by fastforce
  from E_Unary.IH [OF e1] E_Unary.prems e1 show ?case
    by (cases "po_stopped po") (auto simp: populated_ok_def keeps_types_def sound_series_def)
next
  case (E_Subquery e rng offset step)
  obtain e1 po1 where e1: "populate lb sel ng s (path @ [N_Subquery rng offset]) e po = (e1, po1)" by fastforce
  from E_Subquery.IH [OF e1] E_Subquery.prems e1 show ?case
    by (cases "po_stopped po") (auto simp: populated_ok_def keeps_types_def sound_series_def)
qed (simp_all add: populated_ok_def)


section \<open>Queries\<close>

text \<open>The value that belongs to the type of an expression: the matrix of a range query is one always.\<close>

definition result_typed :: "eval_stmt \<Rightarrow> pvalue \<Rightarrow> bool" where
  "result_typed s v \<longleftrightarrow>
     (if is_instant s then
        (case (expr_Type (es_Expr s), v) of
           (VT_Vector, VVector _) \<Rightarrow> True
         | (VT_Scalar, VScalar _ _) \<Rightarrow> True
         | (VT_Matrix, VMatrix _) \<Rightarrow> True
         | (VT_String, VString _ _) \<Rightarrow> True
         | _ \<Rightarrow> False)
      else (case v of VMatrix _ \<Rightarrow> True | _ \<Rightarrow> False))"

lemma instant_vector_returns: "\<forall>s \<in> set m. sr_Points s \<noteq> [] \<Longrightarrow> \<exists>v. instant_vector start m = Return v"
  by (induction m) (auto simp: instant_sample_def split: list.splits)

lemma instant_value_returns:
  assumes "has_shape ev t val" "0 < ev_interval ev" "ev_startTimestamp ev = ev_endTimestamp ev"
    and "is_instant s" "expr_Type (es_Expr s) = t"
  shows "\<exists>v. instant_value t start val = Return v \<and> result_typed s v"
proof -
  have steps: "ev_steps ev = [ev_startTimestamp ev]" using assms(2,3) by (simp add: steps_instant)
  have scalar: "\<exists>x p ps. m = [\<lparr>sr_Metric = x, sr_Points = p # ps\<rparr>]" if "scalar_shape ev m" for m
  proof -
    from that steps obtain x where x: "m = [x]" "map pt_T (sr_Points x) = [ev_startTimestamp ev]"
      by (auto simp: scalar_shape_def)
    then obtain p ps where "sr_Points x = p # ps" by (cases "sr_Points x") auto
    with x show ?thesis by (cases x) auto
  qed
  show ?thesis
  proof (cases val)
    case (VMatrix m)
    show ?thesis
    proof (cases t)
      case VT_Vector
      with VMatrix assms instant_vector_returns [of m start] show ?thesis
        by (auto simp: has_shape_def vector_shape_def instant_value_def result_typed_def)
    next
      case VT_Scalar
      with VMatrix assms scalar [of m] show ?thesis
        by (auto simp: has_shape_def instant_value_def result_typed_def instant_sample_def)
    qed (use VMatrix assms in \<open>auto simp: has_shape_def instant_value_def result_typed_def\<close>)
  qed (use assms in \<open>auto simp: has_shape_def instant_value_def result_typed_def split: value_type.splits\<close>)
qed

lemma Eval_typed:
  assumes "range_permutes lb" "well_typed names e" "sound_series e"
    and "\<And>n. ev_topNode ev = Some n \<Longrightarrow> names n \<notin> set scalar_functions"
  obtains err where "Eval lb bl ev e st = Return (Inl err)"
    | st' v where "Eval lb bl ev e st = Return (Inr (st', v))" "has_shape ev (expr_Type e) v"
proof (cases "eval lb bl ev e st")
  case (Inl p)
  have "recoverable (eval lb bl ev e st)" by (rule recoverable_eval [OF assms(2,3)])
  with Inl obtain err where "recover_panic p = Return err"
    by (cases p) (auto simp: recoverable_def recover_panic_def)
  with Inl show ?thesis by (intro that(1)) (simp add: Eval_def)
next
  case (Inr r)
  obtain st' v where r: "r = (st', v)" by (cases r)
  from eval_shape [OF assms(1,2,4) Inr [unfolded r]] Inr r show ?thesis by (intro that(2)) (simp_all add: Eval_def)
qed

definition typed_return :: "eval_stmt \<Rightarrow> exec_result outcome \<Rightarrow> bool" where
  "typed_return s o' \<longleftrightarrow> (\<exists>r w. o' = Return (r, w) \<and> (\<forall>v. r = Inr v \<longrightarrow> result_typed s v))"

lemma typed_return_simps [simp]:
  "typed_return s (Return (Inl err, w))" "typed_return s (Return (Inr v, w)) \<longleftrightarrow> result_typed s v"
  by (simp_all add: typed_return_def)

text \<open>The value of an evaluation is turned into the result of the query.\<close>

lemma evaluated_typed:
  assumes shape: "has_shape (stmt_evaluator ng di ctx node s) (expr_Type (es_Expr s)) v"
    and "is_instant s \<or> expr_Type (es_Expr s) \<in> {VT_Scalar, VT_Vector}"
  shows "typed_return s
    (if is_instant s
     then outcome_bind (instant_value (expr_Type (es_Expr s)) start v) (\<lambda>v. Return (Inr v, w))
     else (case v of
             VMatrix mat \<Rightarrow>
               (case c of
                  Some err \<Rightarrow> Return (Inl (contextErr err evaluation_env), w)
                | None \<Rightarrow> Return (Inr (VMatrix (sort_matrix lb mat)), w))
           | _ \<Rightarrow> Panic ''invalid expression type''))"
proof (cases "is_instant s")
  case True
  let ?ev = "stmt_evaluator ng di ctx node s"
  have "0 < ev_interval ?ev" "ev_startTimestamp ?ev = ev_endTimestamp ?ev" using True by (simp_all add: stmt_evaluator_def)
  from instant_value_returns [OF shape this True refl, of start]
  obtain x where "instant_value (expr_Type (es_Expr s)) start v = Return x" "result_typed s x" by blast
  with True show ?thesis by simp
next
  case False
  with shape assms(2) obtain m where "v = VMatrix m" by (auto simp: has_shape_def split: pvalue.splits)
  with False show ?thesis by (auto simp: result_typed_def split: option.split)
qed

lemma execEvalStmt_typed:
  assumes "well_typed names (es_Expr s)" "sound_series (es_Expr s)"
    and type: "is_instant s \<or> expr_Type (es_Expr s) \<in> {VT_Scalar, VT_Vector}"
    and "range_permutes lb" "storage_contract select"
  shows "typed_return s (execEvalStmt lb bl openQuerier select ng di ctx n s)"
proof (cases "openQuerier (FromTime (findMinTime ng s)) (FromTime (es_End s))")
  case (Inl err)
  then show ?thesis by (simp add: execEvalStmt_def)
next
  case (Inr qr)
  obtain e po where po: "populateSeries lb select qr ng s = (e, po)" by fastforce
  let ?ev = "stmt_evaluator ng di ctx (po_topNode po) s"
  let ?po = "\<lparr>po_evalRange = 0, po_warnings = [], po_err = None, po_topNode = None, po_stopped = False, po_querier = qr\<rparr>"
  have "populated_ok names [] (es_Expr s) ?po e po"
    using populate_types [OF assms(5)] po unfolding populateSeries_def by blast
  then have wt: "well_typed names e" "sound_series e" "expr_Type e = expr_Type (es_Expr s)" "top_vector names po"
    using assms(1,2) by (auto simp: populated_ok_def keeps_types_def path_named_def top_vector_def)
  have node: "names i \<notin> set scalar_functions" if "ev_topNode ?ev = Some i" for i
    using wt(4) that by (simp add: top_vector_def stmt_evaluator_def)
  show ?thesis
  proof (cases "po_err po")
    case None
    show ?thesis
    proof (rule Eval_typed [OF assms(4) wt(1,2) node, of ?ev bl "start_state n"])
      fix st v
      assume "Eval lb bl ?ev e (start_state n) = Return (Inr (st, v))" and shape: "has_shape ?ev (expr_Type e) v"
      then show ?thesis
        using evaluated_typed [OF shape [unfolded wt(3)] type] by (simp add: execEvalStmt_def Inr po None Let_def cong: if_cong)
    qed (simp_all add: execEvalStmt_def Inr po None Let_def)
  qed (simp add: execEvalStmt_def Inr po Let_def)
qed


definition ex_select :: "unit select_fun" where
  "ex_select q h path ms = (q, Inr (Inr [ex_series], None), [])"

definition ex_query :: query where
  "ex_query = newQuery (E_Binary I_ADD (E_Number f_one) (E_Vector ex_selector) ex_many False) 60000000000 60000000000 0"


end
