(* ===== verification/Series_Set.thy ===== *)
theory Series_Set
  imports Query_Builder
begin

text \<open>
  The series set of a PromQL query, \<open>pkg/pgmodel/series_set.go\<close>: iteration over the rows of
  several query results, decoding of a row to a series, and the iterator over its samples.

  A \<open>pgx.Rows\<close> is a cursor: the rows still to come (each with the outcome of its \<open>Scan\<close>), what
  \<open>Scan\<close> returns at the current position, and the error that \<open>Err\<close> reports.  The interface
  \<open>labelQuerier\<close> is the locale \<open>label_querier\<close>; the querier of \<open>sql_reader.go\<close> is its
  interpretation.
\<close>


section \<open>Cursors\<close>

record 'r cursor = "'r rows" +
  cur_row :: "'r result"
  cur_closed :: bool

definition rows_Next :: "'r cursor \<Rightarrow> 'r cursor \<times> bool" where
  "rows_Next c =
     (case row_scans c of
        [] \<Rightarrow> (c, False)
      | r # rs \<Rightarrow> (c\<lparr>row_scans := rs, cur_row := r\<rparr>, True))"

definition rows_Close :: "'r cursor \<Rightarrow> 'r cursor" where
  "rows_Close c = c\<lparr>cur_closed := True\<rparr>"


section \<open>Samples of a row\<close>

datatype pg_status = Undefined | Null | Present

datatype infinity_modifier = NotInfinite | Infinity | NegativeInfinity

record timestamptz =
  tz_Time :: int
  tz_Status :: pg_status
  tz_InfinityModifier :: infinity_modifier

record float8 =
  f8_Float :: float64
  f8_Status :: pg_status

record pgxSeries =
  ps_labels :: "label list"
  ps_times :: "timestamptz list"
  ps_values :: "float8 list"

record pgxSeriesIterator =
  si_cur :: int
  si_totalSamples :: int
  si_times :: "timestamptz list"
  si_values :: "float8 list"

definition newIterator :: "timestamptz list \<Rightarrow> float8 list \<Rightarrow> pgxSeriesIterator" where
  "newIterator ts vs =
     \<lparr>si_cur = -1, si_totalSamples = int (length ts), si_times = ts, si_values = vs\<rparr>"

definition series_Iterator :: "pgxSeries \<Rightarrow> pgxSeriesIterator" where
  "series_Iterator p = newIterator (ps_times p) (ps_values p)"

definition series_Labels :: "pgxSeries \<Rightarrow> label list" where
  "series_Labels p = ps_labels p"

text \<open>Indexing a slice panics out of range.\<close>

definition go_nth :: "'a list \<Rightarrow> int \<Rightarrow> 'a outcome" where
  "go_nth xs i = (if 0 \<le> i \<and> i < int (length xs) then Return (xs ! nat i) else Panic ''index out of range'')"

definition tz_millis :: "timestamptz \<Rightarrow> int" where
  "tz_millis v =
     (case tz_InfinityModifier v of
        NegativeInfinity \<Rightarrow> min_int64
      | Infinity \<Rightarrow> max_int64
      | NotInfinite \<Rightarrow> go_quot (UnixNano (tz_Time v)) 1000000)"

definition si_getTs :: "pgxSeriesIterator \<Rightarrow> int outcome" where
  "si_getTs p = outcome_bind (go_nth (si_times p) (si_cur p)) (\<lambda>v. Return (tz_millis v))"

definition si_getVal :: "pgxSeriesIterator \<Rightarrow> float64 outcome" where
  "si_getVal p = outcome_bind (go_nth (si_values p) (si_cur p)) (\<lambda>v. Return (f8_Float v))"

definition si_At :: "pgxSeriesIterator \<Rightarrow> (int \<times> float64) outcome" where
  "si_At p =
     (if si_cur p \<ge> si_totalSamples p \<or> si_cur p < 0 then Return (0, 0)
      else outcome_bind (si_getTs p) (\<lambda>t. outcome_bind (si_getVal p) (\<lambda>v. Return (t, v))))"

function si_Next :: "pgxSeriesIterator \<Rightarrow> (pgxSeriesIterator \<times> bool) outcome" where
  "si_Next p =
     (let cur = si_cur p + 1; p' = p\<lparr>si_cur := cur\<rparr>
      in if cur \<ge> si_totalSamples p then Return (p', False)
         else outcome_bind (go_nth (si_times p) cur) (\<lambda>t.
           if tz_Status t = Present then
             outcome_bind (go_nth (si_values p) cur) (\<lambda>v.
               if f8_Status v = Present then Return (p', True) else si_Next p')
           else si_Next p'))"
  by pat_completeness auto
termination
  by (relation "measure (\<lambda>p. nat (si_totalSamples p - si_cur p))") auto

declare si_Next.simps [simp del]

function si_seek_loop :: "int \<Rightarrow> pgxSeriesIterator \<Rightarrow> (pgxSeriesIterator \<times> bool) outcome" where
  "si_seek_loop t p =
     (case si_Next p of
        Panic s \<Rightarrow> Panic s
      | Return (p', False) \<Rightarrow> Return (p', False)
      | Return (p', True) \<Rightarrow>
          (case si_getTs p' of
             Panic s \<Rightarrow> Panic s
           | Return ts \<Rightarrow> if ts \<ge> t then Return (p', True) else si_seek_loop t p'))"
  by pat_completeness auto

lemma si_Next_frame:
  "si_Next p = Return (p', b) \<Longrightarrow>
     si_times p' = si_times p \<and> si_values p' = si_values p \<and> si_totalSamples p' = si_totalSamples p \<and>
     si_cur p < si_cur p' \<and> (b \<longrightarrow> si_cur p' < si_totalSamples p)"
proof (induction p rule: si_Next.induct)
  case (1 p)
  note IH = 1(1,2) [OF refl refl]
  from 1(3) have "(let cur = si_cur p + 1; q = p\<lparr>si_cur := cur\<rparr>
      in if cur \<ge> si_totalSamples p then Return (q, False)
         else outcome_bind (go_nth (si_times p) cur) (\<lambda>t.
           if tz_Status t = Present then
             outcome_bind (go_nth (si_values p) cur) (\<lambda>v.
               if f8_Status v = Present then Return (q, True) else si_Next q)
           else si_Next q)) = Return (p', b)"
    by (simp only: si_Next.simps [of p])
  then show ?case
    using IH by (fastforce simp: Let_def outcome_bind_Return_iff split: if_splits)
qed

termination si_seek_loop
proof (relation "measure (\<lambda>(t, p). nat (si_totalSamples p - si_cur p))", goal_cases)
  case (2 t p _ p' _ ts)
  then have "si_Next p = Return (p', True)" by simp
  from si_Next_frame [OF this] show ?case by simp
qed simp

declare si_seek_loop.simps [simp del]

definition si_Seek :: "int \<Rightarrow> pgxSeriesIterator \<Rightarrow> (pgxSeriesIterator \<times> bool) outcome" where
  "si_Seek t p = si_seek_loop t (p\<lparr>si_cur := -1\<rparr>)"

definition si_Err :: "pgxSeriesIterator \<Rightarrow> go_error option" where
  "si_Err p = None"

section \<open>The sample iterator\<close>

definition si_wf :: "pgxSeriesIterator \<Rightarrow> bool" where
  "si_wf p \<longleftrightarrow> si_totalSamples p = int (length (si_times p)) \<and>
     length (si_values p) = length (si_times p) \<and> -1 \<le> si_cur p"

definition present_at :: "pgxSeriesIterator \<Rightarrow> nat \<Rightarrow> bool" where
  "present_at p j \<longleftrightarrow> tz_Status (si_times p ! j) = Present \<and> f8_Status (si_values p ! j) = Present"

text \<open>The positions still to be delivered.\<close>

definition pending_positions :: "pgxSeriesIterator \<Rightarrow> nat list" where
  "pending_positions p = filter (present_at p) [nat (si_cur p + 1)..<length (si_times p)]"

lemma present_at_cur [simp]: "present_at (p\<lparr>si_cur := c\<rparr>) = present_at p"
  by (simp add: present_at_def fun_eq_iff)

lemma si_wf_cur [simp]: "si_wf p \<Longrightarrow> 0 \<le> c \<Longrightarrow> si_wf (p\<lparr>si_cur := c\<rparr>)"
  by (simp add: si_wf_def)

lemma si_Next_step:
  assumes "si_wf p"
  shows "si_Next p =
    (if length (si_times p) \<le> nat (si_cur p + 1) then Return (p\<lparr>si_cur := si_cur p + 1\<rparr>, False)
     else if present_at p (nat (si_cur p + 1)) then Return (p\<lparr>si_cur := si_cur p + 1\<rparr>, True)
     else si_Next (p\<lparr>si_cur := si_cur p + 1\<rparr>))"
proof -
  have "(length (si_times p) \<le> nat (si_cur p + 1)) = (si_totalSamples p \<le> si_cur p + 1)"
    using assms by (auto simp: si_wf_def)
  then show ?thesis
    using assms by (subst si_Next.simps)
      (auto simp: Let_def si_wf_def go_nth_def present_at_def)
qed

lemma upt_filter_skip:
  "\<not> P i \<Longrightarrow> filter P [i..<n] = filter P [Suc i..<n]"
  by (cases "i < n") (simp_all add: upt_conv_Cons)

lemma si_Next_spec:
  assumes "si_wf p"
  shows "\<exists>c. c \<ge> 0 \<and> si_Next p = Return (p\<lparr>si_cur := c\<rparr>, pending_positions p \<noteq> []) \<and>
    (pending_positions p \<noteq> [] \<longrightarrow>
      nat c = hd (pending_positions p) \<and> nat c < length (si_times p) \<and>
      pending_positions (p\<lparr>si_cur := c\<rparr>) = tl (pending_positions p))"
  using assms
proof (induction p rule: si_Next.induct)
  case (1 p)
  let ?i = "nat (si_cur p + 1)" and ?n = "length (si_times p)"
  let ?p = "p\<lparr>si_cur := si_cur p + 1\<rparr>"
  have pos: "0 \<le> si_cur p + 1" using 1(3) by (simp add: si_wf_def)
  have suc: "nat (2 + si_cur p) = Suc ?i" using pos by simp
  consider (past) "?n \<le> ?i" | (hit) "?i < ?n" "present_at p ?i" | (skip) "?i < ?n" "\<not> present_at p ?i"
    by linarith
  then show ?case
  proof cases
    case past
    then show ?thesis using si_Next_step [OF 1(3)] pos
      by (intro exI [of _ "si_cur p + 1"]) (simp add: pending_positions_def)
  next
    case hit
    then have "pending_positions p = ?i # pending_positions ?p"
      by (simp add: pending_positions_def upt_conv_Cons suc)
    then show ?thesis using si_Next_step [OF 1(3)] pos hit
      by (intro exI [of _ "si_cur p + 1"]) simp
  next
    case skip
    then have eq: "pending_positions p = pending_positions ?p"
      by (simp add: pending_positions_def suc upt_filter_skip)
    from skip 1(3) have more: "\<not> si_totalSamples p \<le> si_cur p + 1"
      by (auto simp: si_wf_def)
    have "\<exists>c. c \<ge> 0 \<and> si_Next ?p = Return (?p\<lparr>si_cur := c\<rparr>, pending_positions ?p \<noteq> []) \<and>
      (pending_positions ?p \<noteq> [] \<longrightarrow> nat c = hd (pending_positions ?p) \<and> nat c < length (si_times ?p) \<and>
        pending_positions (?p\<lparr>si_cur := c\<rparr>) = tl (pending_positions ?p))"
    proof (cases "tz_Status (si_times p ! ?i) = Present")
      case True
      with skip have "f8_Status (si_values p ! ?i) \<noteq> Present" by (simp add: present_at_def)
      then show ?thesis by (rule 1(1) [OF refl refl more True]) (use 1(3) pos in simp)
    next
      case False
      then show ?thesis by (rule 1(2) [OF refl refl more]) (use 1(3) pos in simp)
    qed
    with si_Next_step [OF 1(3)] skip eq show ?thesis by simp
  qed
qed

text \<open>Reading an iterator to the end, as its clients do.\<close>

function si_drain :: "pgxSeriesIterator \<Rightarrow> (int \<times> float64) list outcome" where
  "si_drain p =
     (case si_Next p of
        Panic s \<Rightarrow> Panic s
      | Return (p', False) \<Rightarrow> Return []
      | Return (p', True) \<Rightarrow>
          outcome_bind (si_At p') (\<lambda>x. outcome_bind (si_drain p') (\<lambda>xs. Return (x # xs))))"
  by pat_completeness auto
termination
proof (relation "measure (\<lambda>p. nat (si_totalSamples p - si_cur p))", goal_cases)
  case (2 p _ p')
  then have "si_Next p = Return (p', True)" by simp
  from si_Next_frame [OF this] show ?case by simp
qed simp

declare si_drain.simps [simp del]

definition sample_at :: "pgxSeriesIterator \<Rightarrow> nat \<Rightarrow> int \<times> float64" where
  "sample_at p j = (tz_millis (si_times p ! j), f8_Float (si_values p ! j))"

lemma si_At_sample:
  "si_wf p \<Longrightarrow> 0 \<le> si_cur p \<Longrightarrow> nat (si_cur p) < length (si_times p) \<Longrightarrow>
   si_At p = Return (sample_at p (nat (si_cur p)))"
  by (auto simp: si_At_def si_wf_def si_getTs_def si_getVal_def go_nth_def sample_at_def)

lemma si_drain_spec:
  "si_wf p \<Longrightarrow> si_drain p = Return (map (sample_at p) (pending_positions p))"
proof (induction "length (pending_positions p)" arbitrary: p)
  case 0
  with si_Next_spec [OF 0(2)] show ?case by (subst si_drain.simps) auto
next
  case (Suc k)
  from si_Next_spec [OF Suc(3)] Suc(2) obtain c where c: "c \<ge> 0"
    "si_Next p = Return (p\<lparr>si_cur := c\<rparr>, True)" "nat c = hd (pending_positions p)"
    "nat c < length (si_times p)" "pending_positions (p\<lparr>si_cur := c\<rparr>) = tl (pending_positions p)"
    by fastforce
  let ?p = "p\<lparr>si_cur := c\<rparr>"
  have wf: "si_wf ?p" using Suc(3) c(1) by simp
  have at: "si_At ?p = Return (sample_at p (hd (pending_positions p)))"
    using si_At_sample [OF wf] c by (simp add: sample_at_def)
  have "si_drain ?p = Return (map (sample_at ?p) (pending_positions ?p))"
    using Suc(1) [OF _ wf] Suc(2) c(5) by simp
  moreover have "sample_at ?p = sample_at p" by (simp add: sample_at_def fun_eq_iff)
  moreover obtain js where "pending_positions p = nat c # js"
    using c(3) Suc(2) by (cases "pending_positions p") auto
  ultimately show ?case using c(2,5) at by (subst si_drain.simps) simp
qed

lemma si_seek_loop_spec:
  assumes "si_wf p"
  shows "\<exists>c. si_seek_loop t p = Return (p\<lparr>si_cur := c\<rparr>,
      filter (\<lambda>j. t \<le> fst (sample_at p j)) (pending_positions p) \<noteq> []) \<and>
    (case filter (\<lambda>j. t \<le> fst (sample_at p j)) (pending_positions p) of [] \<Rightarrow> True | j # _ \<Rightarrow> c = int j)"
  using assms
proof (induction "length (pending_positions p)" arbitrary: p)
  case 0
  with si_Next_spec [OF 0(2)] show ?case by (subst si_seek_loop.simps) auto
next
  case (Suc k)
  from si_Next_spec [OF Suc(3)] Suc(2) obtain c where c: "c \<ge> 0"
    "si_Next p = Return (p\<lparr>si_cur := c\<rparr>, True)" "nat c = hd (pending_positions p)"
    "nat c < length (si_times p)" "pending_positions (p\<lparr>si_cur := c\<rparr>) = tl (pending_positions p)"
    by fastforce
  let ?p = "p\<lparr>si_cur := c\<rparr>"
  have wf: "si_wf ?p" using Suc(3) c(1) by simp
  have same: "sample_at (p\<lparr>si_cur := d\<rparr>) = sample_at p" for d by (simp add: sample_at_def fun_eq_iff)
  have ts: "si_getTs ?p = Return (fst (sample_at p (nat c)))"
    using wf c(1,4) by (auto simp: si_getTs_def go_nth_def si_wf_def sample_at_def)
  obtain js where js: "pending_positions p = nat c # js" "pending_positions ?p = js"
    using c(3,5) Suc(2) by (cases "pending_positions p") auto
  show ?case
  proof (cases "t \<le> fst (sample_at p (nat c))")
    case True
    then show ?thesis using c(1,2) ts js by (subst si_seek_loop.simps) auto
  next
    case False
    from Suc(1) [OF _ wf] Suc(2) js have "\<exists>d. si_seek_loop t ?p = Return (?p\<lparr>si_cur := d\<rparr>,
      filter (\<lambda>j. t \<le> fst (sample_at p j)) js \<noteq> []) \<and>
      (case filter (\<lambda>j. t \<le> fst (sample_at p j)) js of [] \<Rightarrow> True | j # _ \<Rightarrow> d = int j)"
      by (simp add: same)
    then show ?thesis using False c(2) ts js by (subst si_seek_loop.simps) auto
  qed
qed

definition present_samples :: "timestamptz list \<Rightarrow> float8 list \<Rightarrow> (int \<times> float64) list" where
  "present_samples ts vs =
     map (\<lambda>(t, v). (tz_millis t, f8_Float v))
       (filter (\<lambda>(t, v). tz_Status t = Present \<and> f8_Status v = Present) (zip ts vs))"

lemma new_iterator_samples:
  assumes "length vs = length ts"
  shows "map (sample_at (newIterator ts vs)) (pending_positions (newIterator ts vs)) = present_samples ts vs"
proof -
  have "zip ts vs = map (\<lambda>j. (ts ! j, vs ! j)) [0..<length ts]"
    by (rule nth_equalityI) (simp_all add: assms)
  then show ?thesis
    by (simp add: present_samples_def filter_map o_def pending_positions_def newIterator_def
      sample_at_def present_at_def cong: filter_cong)
qed

lemma new_iterator_wf: "length vs = length ts \<Longrightarrow> si_wf (newIterator ts vs)"
  by (simp add: si_wf_def newIterator_def)

text \<open>
  C21: the sample iterator delivers what the row holds.  For arrays of equal length, reading the
  iterator to its end terminates without a panic and gives exactly the samples whose time and value
  are both present, in order; \<open>Seek t\<close> from any position finds the first of them at or after \<open>t\<close>,
  and reports false exactly when there is none.
\<close>
theorem series_iterator_correct:
  assumes "length vs = length ts"
  shows "si_drain (newIterator ts vs) = Return (present_samples ts vs) \<and>
    (\<exists>p'. si_Seek t ((newIterator ts vs)\<lparr>si_cur := c\<rparr>) =
        Return (p', \<exists>s \<in> set (present_samples ts vs). t \<le> fst s) \<and>
      (case filter (\<lambda>s. t \<le> fst s) (present_samples ts vs) of [] \<Rightarrow> True | s # _ \<Rightarrow> si_At p' = Return s))"
proof
  let ?p = "newIterator ts vs"
  note wf = new_iterator_wf [OF assms] and samples = new_iterator_samples [OF assms]
  show "si_drain ?p = Return (present_samples ts vs)"
    by (simp only: si_drain_spec [OF wf] samples)
  let ?js = "filter (\<lambda>j. t \<le> fst (sample_at ?p j)) (pending_positions ?p)"
  have "(?p\<lparr>si_cur := c\<rparr>)\<lparr>si_cur := -1\<rparr> = ?p" by (simp add: newIterator_def)
  with si_seek_loop_spec [OF wf, of t] obtain d
    where d: "si_Seek t (?p\<lparr>si_cur := c\<rparr>) = Return (?p\<lparr>si_cur := d\<rparr>, ?js \<noteq> [])"
      "case ?js of [] \<Rightarrow> True | j # _ \<Rightarrow> d = int j"
    by (auto simp: si_Seek_def)
  have flt: "filter (\<lambda>s. t \<le> fst s) (present_samples ts vs) = map (sample_at ?p) ?js"
    by (simp add: samples [symmetric] filter_map o_def)
  have "?js \<noteq> [] \<longleftrightarrow> (\<exists>s \<in> set (present_samples ts vs). t \<le> fst s)"
    by (simp add: samples [symmetric] filter_empty_conv)
  moreover have "case filter (\<lambda>s. t \<le> fst s) (present_samples ts vs) of [] \<Rightarrow> True
    | s # _ \<Rightarrow> si_At (?p\<lparr>si_cur := d\<rparr>) = Return s"
  proof (cases ?js)
    case (Cons j js)
    then have "j \<in> set ?js" by simp
    then have "j \<in> set (pending_positions ?p)" by simp
    then have "j < length (si_times ?p)" by (simp add: pending_positions_def)
    moreover have "sample_at (?p\<lparr>si_cur := d\<rparr>) = sample_at ?p" by (simp add: sample_at_def fun_eq_iff)
    ultimately have "si_At (?p\<lparr>si_cur := d\<rparr>) = Return (sample_at ?p j)"
      using d(2) Cons wf by (subst si_At_sample) auto
    with flt Cons show ?thesis by simp
  qed (simp add: flt)
  ultimately show "\<exists>p'. si_Seek t (?p\<lparr>si_cur := c\<rparr>) =
        Return (p', \<exists>s \<in> set (present_samples ts vs). t \<le> fst s) \<and>
      (case filter (\<lambda>s. t \<le> fst s) (present_samples ts vs) of [] \<Rightarrow> True | s # _ \<Rightarrow> si_At p' = Return s)"
    using d(1) by (intro exI [of _ "?p\<lparr>si_cur := d\<rparr>"]) simp
qed

theorem series_iterator_correct_witness:
  "\<exists>p'. si_Seek 5 ((newIterator
      [\<lparr>tz_Time = 4000000, tz_Status = Present, tz_InfinityModifier = NotInfinite\<rparr>,
       \<lparr>tz_Time = 0, tz_Status = Null, tz_InfinityModifier = NotInfinite\<rparr>,
       \<lparr>tz_Time = 0, tz_Status = Present, tz_InfinityModifier = Infinity\<rparr>]
      [\<lparr>f8_Float = 1, f8_Status = Present\<rparr>, \<lparr>f8_Float = 2, f8_Status = Present\<rparr>,
       \<lparr>f8_Float = 3, f8_Status = Present\<rparr>])\<lparr>si_cur := 7\<rparr>) = Return (p', True) \<and>
    si_At p' = Return (max_int64, 3)"
proof -
  let ?ts = "[\<lparr>tz_Time = 4000000, tz_Status = Present, tz_InfinityModifier = NotInfinite\<rparr>,
       \<lparr>tz_Time = 0, tz_Status = Null, tz_InfinityModifier = NotInfinite\<rparr>,
       \<lparr>tz_Time = 0, tz_Status = Present, tz_InfinityModifier = Infinity\<rparr>]"
  let ?vs = "[\<lparr>f8_Float = 1, f8_Status = Present\<rparr>, \<lparr>f8_Float = 2, f8_Status = Present\<rparr>,
       \<lparr>f8_Float = 3, f8_Status = Present\<rparr>] :: float8 list"
  have "present_samples ?ts ?vs = [(4, 1), (max_int64, 3)]"
    by (simp add: present_samples_def tz_millis_def UnixNano_def wrap64_def go_quot_def Let_def)
  with series_iterator_correct [of ?vs ?ts 5 7] show ?thesis by simp
qed

section \<open>The series set\<close>

type_synonym series_row = "int list \<times> timestamptz list \<times> float8 list"

record pgxSeriesSet =
  ss_rowIdx :: nat
  ss_rows :: "series_row cursor list"
  ss_err :: "go_error option"

text \<open>A \<open>labelQuerier\<close>: from its state and label ids to the new state and the labels.\<close>

type_synonym 'q get_labels = "'q \<Rightarrow> int list \<Rightarrow> ('q \<times> label list result) outcome"

definition ss_advance :: "pgxSeriesSet \<Rightarrow> series_row cursor \<Rightarrow> pgxSeriesSet" where
  "ss_advance p c =
     p\<lparr>ss_err := (if ss_err p = None then rows_err c else ss_err p),
       ss_rows := (ss_rows p)[ss_rowIdx p := rows_Close c],
       ss_rowIdx := ss_rowIdx p + 1\<rparr>"

function ss_Next :: "pgxSeriesSet \<Rightarrow> pgxSeriesSet \<times> bool" where
  "ss_Next p =
     (if ss_rowIdx p \<ge> length (ss_rows p) then (p, False)
      else (case rows_Next (ss_rows p ! ss_rowIdx p) of
              (c, True) \<Rightarrow> (p\<lparr>ss_rows := (ss_rows p)[ss_rowIdx p := c]\<rparr>, True)
            | (c, False) \<Rightarrow> ss_Next (ss_advance p c)))"
  by pat_completeness auto
termination
  by (relation "measure (\<lambda>p. length (ss_rows p) - ss_rowIdx p)") (auto simp: ss_advance_def)

declare ss_Next.simps [simp del]

definition ss_At ::
  "'q get_labels \<Rightarrow> pgxSeriesSet \<Rightarrow> 'q \<Rightarrow> (pgxSeriesSet \<times> 'q \<times> pgxSeries option) outcome" where
  "ss_At getLabelsForIds p q =
     (if ss_rowIdx p \<ge> length (ss_rows p) then Return (p, q, None)
      else
        let bad = p\<lparr>ss_err := Some ErrInvalidData\<rparr>
        in case cur_row (ss_rows p ! ss_rowIdx p) of
             Inl e \<Rightarrow> Return (bad, q, None)
           | Inr (labelIds, ts, vs) \<Rightarrow>
               if length ts \<noteq> length vs then Return (bad, q, None)
               else if labelIds \<noteq> [] then
                 outcome_bind (getLabelsForIds q labelIds) (\<lambda>(q', r).
                   case r of
                     Inl e \<Rightarrow> Return (bad, q', None)
                   | Inr lls \<Rightarrow> Return (p\<lparr>ss_err := None\<rparr>, q',
                       Some \<lparr>ps_labels = sort_key lbl_name lls, ps_times = ts, ps_values = vs\<rparr>))
               else Return (p\<lparr>ss_err := None\<rparr>, q,
                      Some \<lparr>ps_labels = [], ps_times = ts, ps_values = vs\<rparr>))"

definition ss_Err :: "pgxSeriesSet \<Rightarrow> go_error option" where
  "ss_Err p = map_option (ErrWrap ''Error retrieving series set: '') (ss_err p)"

definition buildSeriesSet :: "series_row cursor list \<Rightarrow> pgxSeriesSet" where
  "buildSeriesSet rows = \<lparr>ss_rowIdx = 0, ss_rows = rows, ss_err = None\<rparr>"

text \<open>
  \<open>expandSeriesSet\<close> of the PromQL engine, the consumer of the set.  \<open>ctxErr k\<close> is the error of
  the context when it is done before the \<open>k\<close>-th series is read.
\<close>

definition rows_left :: "pgxSeriesSet \<Rightarrow> nat" where
  "rows_left p = sum_list (map (\<lambda>c. length (row_scans c)) (ss_rows p))"

lemma sum_list_map_update:
  "i < length xs \<Longrightarrow> sum_list (map f (xs[i := x])) + f (xs ! i) = sum_list (map f xs) + (f x :: nat)"
  by (induction xs arbitrary: i) (auto split: nat.splits)

lemma ss_Next_rows_left:
  "ss_Next p = (p', True) \<Longrightarrow> Suc (rows_left p') = rows_left p"
proof (induction p rule: ss_Next.induct)
  case (1 p)
  from 1(2) have i: "ss_rowIdx p < length (ss_rows p)" by (subst (asm) ss_Next.simps) (auto split: if_splits)
  let ?c = "ss_rows p ! ss_rowIdx p"
  note upd = sum_list_map_update [OF i, of "\<lambda>c. length (row_scans c)"]
  show ?case
  proof (cases "row_scans ?c")
    case Nil
    then have n: "rows_Next ?c = (?c, False)" by (simp add: rows_Next_def)
    with 1(2) i have "ss_Next (ss_advance p ?c) = (p', True)" by (subst (asm) ss_Next.simps) simp
    from 1(1) [OF _ n [symmetric] refl this] i
    show ?thesis using upd [of "rows_Close ?c"] by (simp add: rows_left_def ss_advance_def rows_Close_def)
  next
    case (Cons r rs)
    let ?c' = "?c\<lparr>row_scans := rs, cur_row := r\<rparr>"
    from Cons have "rows_Next ?c = (?c', True)" by (simp add: rows_Next_def)
    with 1(2) i have "p' = p\<lparr>ss_rows := (ss_rows p)[ss_rowIdx p := ?c']\<rparr>" by (subst (asm) ss_Next.simps) simp
    then show ?thesis using upd [of ?c'] Cons by (simp add: rows_left_def)
  qed
qed

lemma ss_At_rows: "ss_At gl p q = Return (p', q', r) \<Longrightarrow> ss_rows p' = ss_rows p \<and> ss_rowIdx p' = ss_rowIdx p"
  by (auto simp: ss_At_def Let_def outcome_bind_def split: if_splits sum.splits prod.splits outcome.splits)

function expand_loop ::
  "'q get_labels \<Rightarrow> (nat \<Rightarrow> go_error option) \<Rightarrow> nat \<Rightarrow> pgxSeriesSet \<Rightarrow> 'q \<Rightarrow> pgxSeries option list \<Rightarrow>
   (pgxSeriesSet \<times> 'q \<times> pgxSeries option list \<times> go_error option) outcome" where
  "expand_loop gl ctxErr k it q res =
     (case ss_Next it of
        (it', False) \<Rightarrow> Return (it', q, res, ss_Err it')
      | (it', True) \<Rightarrow>
          (case ctxErr k of
             Some e \<Rightarrow> Return (it', q, [], Some e)
           | None \<Rightarrow>
               (case ss_At gl it' q of
                  Panic m \<Rightarrow> Panic m
                | Return (it2, q2, s) \<Rightarrow> expand_loop gl ctxErr (Suc k) it2 q2 (res @ [s]))))"
  by pat_completeness auto
termination
proof (relation "measure (\<lambda>(gl, ctxErr, k, it, q, res). rows_left it)", goal_cases)
  case (2 gl ctxErr k it q res it' b)
  then have "ss_Next it = (it', True)" by simp
  from ss_Next_rows_left [OF this] 2 show ?case
    by (auto simp: rows_left_def dest: ss_At_rows)
qed simp

declare expand_loop.simps [simp del]

definition expandSeriesSet ::
  "'q get_labels \<Rightarrow> (nat \<Rightarrow> go_error option) \<Rightarrow> pgxSeriesSet \<Rightarrow> 'q \<Rightarrow>
   (pgxSeriesSet \<times> 'q \<times> pgxSeries option list \<times> go_error option) outcome" where
  "expandSeriesSet gl ctxErr it q = expand_loop gl ctxErr 0 it q []"

section \<open>Expansion of a series set\<close>

definition ss_state :: "series_row cursor list \<Rightarrow> series_row cursor list \<Rightarrow> go_error option \<Rightarrow> pgxSeriesSet" where
  "ss_state pre rest_rows e = \<lparr>ss_rowIdx = length pre, ss_rows = pre @ rest_rows, ss_err = e\<rparr>"

lemma ss_Next_end: "ss_Next (ss_state pre [] e) = (ss_state pre [] e, False)"
  by (subst ss_Next.simps) (simp add: ss_state_def)

lemma ss_Next_close:
  "row_scans c = [] \<Longrightarrow> ss_Next (ss_state pre (c # cs) e) =
     ss_Next (ss_state (pre @ [rows_Close c]) cs (if e = None then rows_err c else e))"
  by (subst ss_Next.simps) (simp add: ss_state_def rows_Next_def ss_advance_def)

lemma ss_Next_row:
  "row_scans c = r # rs \<Longrightarrow> ss_Next (ss_state pre (c # cs) e) =
     (ss_state pre (c\<lparr>row_scans := rs, cur_row := r\<rparr> # cs) e, True)"
  by (subst ss_Next.simps) (simp add: ss_state_def rows_Next_def)

text \<open>What a row denotes under a label catalog: the series, or nothing for a row in error.\<close>

definition decode_row :: "(int \<rightharpoonup> label) \<Rightarrow> series_row result \<Rightarrow> pgxSeries option" where
  "decode_row cat r =
     (case r of
        Inl e \<Rightarrow> None
      | Inr (ids, ts, vs) \<Rightarrow>
          if length ts \<noteq> length vs then None
          else Some \<lparr>ps_labels = sort_key lbl_name (map (\<lambda>i. the (cat i)) ids), ps_times = ts, ps_values = vs\<rparr>)"

text \<open>The ids of a row are known to the catalog, and no two of its labels have the same name.\<close>

definition row_known :: "(int \<rightharpoonup> label) \<Rightarrow> series_row result \<Rightarrow> bool" where
  "row_known cat r =
     (case r of
        Inl e \<Rightarrow> True
      | Inr (ids, ts, vs) \<Rightarrow> set ids \<subseteq> dom cat \<and> distinct (map (\<lambda>i. lbl_name (the (cat i))) ids))"

text \<open>
  The error a set ends with: a row overwrites it, with nothing if it decodes and with
  \<open>errInvalidData\<close> otherwise; the error of an exhausted cursor is taken if there is none yet.
\<close>

definition row_error :: "(int \<rightharpoonup> label) \<Rightarrow> series_row result \<Rightarrow> go_error option" where
  "row_error cat r = (if decode_row cat r = None then Some ErrInvalidData else None)"

fun set_error ::
  "(int \<rightharpoonup> label) \<Rightarrow> go_error option \<Rightarrow> series_row cursor list \<Rightarrow> go_error option" where
  "set_error cat e [] = e"
| "set_error cat e (c # cs) =
     (let e1 = (if row_scans c = [] then e else row_error cat (last (row_scans c)))
      in set_error cat (if e1 = None then rows_err c else e1) cs)"

text \<open>
  The contract of a \<open>labelQuerier\<close>: over a catalog \<open>qcat\<close> that its operation does not change,
  ids known to the catalog are resolved without error or panic to the labels they stand for, in
  some order.
\<close>

locale label_querier =
  fixes qinv :: "'q \<Rightarrow> bool"
    and qcat :: "'q \<Rightarrow> int \<rightharpoonup> label"
    and qlabels :: "'q \<Rightarrow> int list \<Rightarrow> ('q \<times> label list result) outcome"
  assumes qlabels_known: "qinv q \<Longrightarrow> set ids \<subseteq> dom (qcat q) \<Longrightarrow> distinct ids \<Longrightarrow>
      \<exists>q' ls. qlabels q ids = Return (q', Inr ls) \<and> qinv q' \<and> qcat q' = qcat q \<and>
        mset ls = mset (map (\<lambda>i. the (qcat q i)) ids)"
begin

lemma labels_sorted:
  assumes "qinv q" and "set ids \<subseteq> dom (qcat q)" and "distinct (map (\<lambda>i. lbl_name (the (qcat q i))) ids)"
  shows "\<exists>q' ls. qlabels q ids = Return (q', Inr ls) \<and> qinv q' \<and> qcat q' = qcat q \<and>
    sort_key lbl_name ls = sort_key lbl_name (map (\<lambda>i. the (qcat q i)) ids)"
proof -
  have "distinct ids" using assms(3) by (simp add: distinct_map)
  with qlabels_known [OF assms(1,2)] obtain q' ls where q': "qlabels q ids = Return (q', Inr ls)"
    "qinv q'" "qcat q' = qcat q" and ms: "mset ls = mset (map (\<lambda>i. the (qcat q i)) ids)"
    by blast
  have "distinct (map lbl_name (sort_key lbl_name (map (\<lambda>i. the (qcat q i)) ids)))"
  proof -
    have "mset (map lbl_name (sort_key lbl_name (map (\<lambda>i. the (qcat q i)) ids))) =
      mset (map (\<lambda>i. lbl_name (the (qcat q i))) ids)"
      by (simp add: multiset.map_comp o_def)
    then show ?thesis using assms(3) mset_eq_imp_distinct_iff by blast
  qed
  then have "sort_key lbl_name (map (\<lambda>i. the (qcat q i)) ids) = sort_key lbl_name ls"
    using ms by (intro sorted_names_unique) simp_all
  with q' show ?thesis by metis
qed

lemma at_row:
  assumes "qinv q" and "row_known (qcat q) (cur_row c)"
  shows "\<exists>q'. ss_At qlabels (ss_state pre (c # cs) e) q =
      Return (ss_state pre (c # cs) (row_error (qcat q) (cur_row c)), q', decode_row (qcat q) (cur_row c)) \<and>
    qinv q' \<and> qcat q' = qcat q"
proof (cases "cur_row c")
  case (Inl x)
  then show ?thesis using assms(1)
    by (simp add: ss_At_def ss_state_def row_error_def decode_row_def)
next
  case (Inr row)
  then obtain ids ts vs where row: "cur_row c = Inr (ids, ts, vs)" by (cases row) auto
  show ?thesis
  proof (cases "length ts = length vs \<and> ids \<noteq> []")
    case True
    from assms(2) row have known: "set ids \<subseteq> dom (qcat q)" "distinct (map (\<lambda>i. lbl_name (the (qcat q i))) ids)"
      by (simp_all add: row_known_def)
    from labels_sorted [OF assms(1) known] row True show ?thesis
      by (auto simp: ss_At_def ss_state_def row_error_def decode_row_def)
  next
    case False
    with row show ?thesis using assms(1)
      by (auto simp: ss_At_def ss_state_def row_error_def decode_row_def)
  qed
qed

lemma expand_rows:
  assumes ctx: "\<And>k. ctxErr k = None"
  shows "qinv q \<Longrightarrow> \<forall>c \<in> set cs. \<forall>r \<in> set (row_scans c). row_known (qcat q) r \<Longrightarrow>
    \<exists>q' ended. expand_loop qlabels ctxErr k (ss_state pre cs e) q res =
        Return (ss_state (pre @ ended) [] (set_error (qcat q) e cs), q',
          res @ map (decode_row (qcat q)) (concat (map row_scans cs)),
          ss_Err (ss_state (pre @ ended) [] (set_error (qcat q) e cs))) \<and>
      length ended = length cs \<and> list_all cur_closed ended \<and> qinv q' \<and> qcat q' = qcat q"
proof (induction "rows_left (ss_state [] cs None) + length cs" arbitrary: k pre cs e q res rule: less_induct)
  case less
  show ?case
  proof (cases cs)
    case Nil
    with less.prems show ?thesis by (subst expand_loop.simps) (simp add: ss_Next_end)
  next
    case (Cons c cs')
    show ?thesis
    proof (cases "row_scans c")
      case Nil
      let ?e = "if e = None then rows_err c else e"
      have "expand_loop qlabels ctxErr k (ss_state pre cs e) q res =
          expand_loop qlabels ctxErr k (ss_state (pre @ [rows_Close c]) cs' ?e) q res"
        unfolding Cons by (subst (1 2) expand_loop.simps) (simp add: ss_Next_close [OF Nil])
      moreover obtain q' ended where
        "expand_loop qlabels ctxErr k (ss_state (pre @ [rows_Close c]) cs' ?e) q res =
          Return (ss_state ((pre @ [rows_Close c]) @ ended) [] (set_error (qcat q) ?e cs'), q',
            res @ map (decode_row (qcat q)) (concat (map row_scans cs')),
            ss_Err (ss_state ((pre @ [rows_Close c]) @ ended) [] (set_error (qcat q) ?e cs')))"
        "length ended = length cs'" "list_all cur_closed ended" "qinv q'" "qcat q' = qcat q"
        using less.hyps [of cs' q k "pre @ [rows_Close c]" ?e res] less.prems Cons
        by (auto simp: rows_left_def ss_state_def)
      ultimately show ?thesis using Cons Nil
        by (intro exI [of _ q'] exI [of _ "rows_Close c # ended"]) (simp add: rows_Close_def Let_def)
    next
      case rows: (Cons r rs)
      let ?c = "c\<lparr>row_scans := rs, cur_row := r\<rparr>"
      from less.prems Cons rows obtain q1 where
        q1: "ss_At qlabels (ss_state pre (?c # cs') e) q =
          Return (ss_state pre (?c # cs') (row_error (qcat q) r), q1, decode_row (qcat q) r)"
        "qinv q1" "qcat q1 = qcat q"
        using at_row [of q ?c pre cs' e] by auto
      have "expand_loop qlabels ctxErr k (ss_state pre cs e) q res =
          expand_loop qlabels ctxErr (Suc k) (ss_state pre (?c # cs') (row_error (qcat q) r)) q1
            (res @ [decode_row (qcat q) r])"
        unfolding Cons by (subst expand_loop.simps) (simp add: ss_Next_row [OF rows] ctx q1(1))
      moreover obtain q' ended where
        "expand_loop qlabels ctxErr (Suc k) (ss_state pre (?c # cs') (row_error (qcat q) r)) q1
            (res @ [decode_row (qcat q) r]) =
          Return (ss_state (pre @ ended) [] (set_error (qcat q) (row_error (qcat q) r) (?c # cs')), q',
            (res @ [decode_row (qcat q) r]) @ map (decode_row (qcat q)) (concat (map row_scans (?c # cs'))),
            ss_Err (ss_state (pre @ ended) [] (set_error (qcat q) (row_error (qcat q) r) (?c # cs'))))"
        "length ended = length (?c # cs')" "list_all cur_closed ended" "qinv q'" "qcat q' = qcat q"
        using less.hyps [of "?c # cs'" q1 "Suc k" pre "row_error (qcat q) r" "res @ [decode_row (qcat q) r]"]
          less.prems Cons rows q1(2,3)
        by (auto simp: rows_left_def ss_state_def)
      moreover have "set_error (qcat q) (row_error (qcat q) r) (?c # cs') = set_error (qcat q) e cs"
        unfolding Cons using rows by (cases "rs = []") (simp_all add: Let_def del: not_None_eq)
      ultimately show ?thesis using Cons rows
        by (intro exI [of _ q'] exI [of _ ended]) simp
    qed
  qed
qed

end

end
