(* ===== verification/Sql_Reader.thy ===== *)
theory Sql_Reader
  imports Series_Set Sample_Iter
begin

text \<open>
  The querier of \<open>pkg/pgmodel/sql_reader.go\<close> with the result builders of \<open>query_builder.go\<close>, and
  \<open>DBReader\<close> of \<open>querier.go\<close>: resolution of label ids through the shared labels cache, the choice
  between a query of one metric and a query per metric, and the two entry points \<open>Select\<close> (PromQL)
  and \<open>Query\<close> (remote read).

  The database is the record \<open>reader_conn\<close>: \<open>Query\<close> of the interface \<open>pgxConn\<close> once for each
  list of \<open>Scan\<close> destinations in the code.  It returns a cursor and an error, as pgx does.  The labels
  cache is shared by all queries: \<open>pq_marks n\<close> is what concurrent lookups do during the
  \<open>n\<close>-th batch of insertions, and \<open>pq_env n\<close> what other goroutines did to the cache since the
  lookup before it.
\<close>


section \<open>State\<close>

type_synonym 'r answer = "'r cursor \<times> go_error option"

record reader_conn =
  rc_series :: "string \<Rightarrow> sql_arg list \<Rightarrow> series_row answer"
  rc_metrics :: "string \<Rightarrow> sql_arg list \<Rightarrow> (string \<times> int list) answer"
  rc_labels :: "string \<Rightarrow> sql_arg list \<Rightarrow> (int list \<times> string list \<times> string list) answer"
  rc_strings :: "string \<Rightarrow> sql_arg list \<Rightarrow> string answer"
  rc_plain :: "series_row \<Rightarrow> (int list \<times> int list \<times> float64 list) result"

text \<open>\<open>rc_plain\<close> is how pgx scans a row of arrays into \<open>[]time.Time\<close> and \<open>[]float64\<close>.\<close>

type_synonym label_cache = "(int, label option) cache"

record pgxQuerier =
  pq_conn :: reader_conn
  pq_metricTableNames :: metric_name_cache
  pq_labels :: label_cache
  pq_fetches :: nat
  pq_marks :: "nat \<Rightarrow> nat \<Rightarrow> marks"
  pq_env :: "nat \<Rightarrow> label_cache \<Rightarrow> label_cache"

definition NewPgxReaderWithMetricCache ::
  "reader_conn \<Rightarrow> metric_name_cache \<Rightarrow> nat \<Rightarrow> (nat \<Rightarrow> nat \<Rightarrow> marks) \<Rightarrow> (nat \<Rightarrow> label_cache \<Rightarrow> label_cache) \<Rightarrow> pgxQuerier" where
  "NewPgxReaderWithMetricCache conn cache labelsCacheSize ms env =
     \<lparr>pq_conn = conn, pq_metricTableNames = cache, pq_labels = WithMax labelsCacheSize,
      pq_fetches = 0, pq_marks = ms, pq_env = env\<rparr>"

definition NewPgxReader ::
  "reader_conn \<Rightarrow> nat \<Rightarrow> (nat \<Rightarrow> nat \<Rightarrow> marks) \<Rightarrow> (nat \<Rightarrow> label_cache \<Rightarrow> label_cache) \<Rightarrow> pgxQuerier" where
  "NewPgxReader conn labelsCacheSize ms env =
     NewPgxReaderWithMetricCache conn (WithMax DefaultMetricCacheSize) labelsCacheSize ms env"

definition catalogSchema :: string where "catalogSchema = ''_prom_catalog''"

definition getMetricsTableSQL :: string where
  "getMetricsTableSQL = ''SELECT table_name FROM '' @ catalogSchema @ ''.get_metric_table_name_if_exists($1)''"

definition getLabelNamesSQL :: string where
  "getLabelNamesSQL = ''SELECT distinct key from '' @ catalogSchema @ ''.label''"

definition getLabelValuesSQL :: string where
  "getLabelValuesSQL = ''SELECT value from '' @ catalogSchema @ ''.label WHERE key = $1''"

definition GetLabelsSQL :: string where
  "GetLabelsSQL = ''SELECT (labels_info($1::int[])).*''"

definition querier_HealthCheck :: "pgxQuerier \<Rightarrow> go_error option" where
  "querier_HealthCheck q = snd (rc_strings (pq_conn q) ''SELECT'' [])"

definition NumCachedLabels :: "pgxQuerier \<Rightarrow> nat" where
  "NumCachedLabels q = Len (pq_labels q)"

definition LabelsCacheCapacity :: "pgxQuerier \<Rightarrow> nat" where
  "LabelsCacheCapacity q = Cap (pq_labels q)"


section \<open>Label names and values\<close>

text \<open>The loop over single strings; the error of the cursor is not looked at.\<close>

fun scan_strings :: "string result list \<Rightarrow> string list result" where
  "scan_strings [] = Inr []"
| "scan_strings (Inl e # rs) = Inl e"
| "scan_strings (Inr s # rs) = (case scan_strings rs of Inl e \<Rightarrow> Inl e | Inr ss \<Rightarrow> Inr (s # ss))"

definition LabelNames :: "pgxQuerier \<Rightarrow> string list result" where
  "LabelNames q =
     (case rc_strings (pq_conn q) getLabelNamesSQL [] of
        (rows, Some e) \<Rightarrow> Inl e
      | (rows, None) \<Rightarrow>
          (case scan_strings (row_scans rows) of
             Inl e \<Rightarrow> Inl e
           | Inr labelNames \<Rightarrow> Inr (sort labelNames)))"

definition LabelValues :: "pgxQuerier \<Rightarrow> string \<Rightarrow> string list result" where
  "LabelValues q labelName =
     (case rc_strings (pq_conn q) getLabelValuesSQL [ArgString labelName] of
        (rows, Some e) \<Rightarrow> Inl e
      | (rows, None) \<Rightarrow>
          (case scan_strings (row_scans rows) of
             Inl e \<Rightarrow> Inl e
           | Inr labelValues \<Rightarrow> Inr (sort labelValues)))"


section \<open>Label ids\<close>

definition ids_keys_msg :: "nat \<Rightarrow> nat \<Rightarrow> string" where
  "ids_keys_msg a b = ''query returned a mismatch in ids and keys: '' @ show_nat a @ '', '' @ show_nat b"

definition keys_vals_msg :: "nat \<Rightarrow> nat \<Rightarrow> string" where
  "keys_vals_msg a b = ''query returned a mismatch in timestamps and values: '' @ show_nat a @ '', '' @ show_nat b"

definition num_labels_msg :: "nat \<Rightarrow> nat \<Rightarrow> string" where
  "num_labels_msg a b = ''query returned wrong number of labels: '' @ show_nat a @ '', '' @ show_nat b"

text \<open>
  The loop of \<open>fetchMissingLabels\<close>.  \<open>cnt\<close> is \<open>len(misses)\<close>, which each row shrinks;
  \<open>arr\<close> is the memory behind \<open>newLabels\<close>, whose first \<open>num\<close> entries are the result.
\<close>

fun fetch_loop ::
  "pgxQuerier \<Rightarrow> (int list \<times> string list \<times> string list) result list \<Rightarrow> nat \<Rightarrow> nat \<Rightarrow> label option list \<Rightarrow>
   (pgxQuerier \<times> (nat \<times> label option list) result) outcome" where
  "fetch_loop q [] cnt num arr = Return (q, Inr (num, arr))"
| "fetch_loop q (Inl e # rs) cnt num arr = Return (q, Inl e)"
| "fetch_loop q (Inr (ids, keys, vals) # rs) cnt num arr =
     (if length ids \<noteq> length keys then Return (q, Inl (ErrMsg (ids_keys_msg (length ids) (length keys))))
      else if length keys \<noteq> length vals then Return (q, Inl (ErrMsg (keys_vals_msg (length keys) (length vals))))
      else if length keys > cnt then Return (q, Inl (ErrMsg (num_labels_msg cnt (length keys))))
      else
        let newLabels = map (\<lambda>(k, v). Some \<lparr>lbl_name = k, lbl_value = v\<rparr>) (zip keys vals);
            n = pq_fetches q
        in outcome_bind (InsertBatch (pq_marks q n) (pq_env q n (pq_labels q)) ids newLabels)
             (\<lambda>(c, ids', newLabels', numInserted).
               fetch_loop (q\<lparr>pq_labels := c, pq_fetches := n + 1\<rparr>) rs (length keys) (length keys)
                 (newLabels' @ drop (length keys) arr)))"

definition fetchMissingLabels ::
  "pgxQuerier \<Rightarrow> int list \<Rightarrow> label option list \<Rightarrow>
   (pgxQuerier \<times> (nat \<times> label option list) result) outcome" where
  "fetchMissingLabels q misses newLabels =
     (case rc_labels (pq_conn q) GetLabelsSQL [ArgIds misses] of
        (rows, Some e) \<Rightarrow> Return (q, Inl e)
      | (rows, None) \<Rightarrow> fetch_loop q (row_scans rows) (length misses) 0 newLabels)"

text \<open>The type assertions \<open>values[i].(labels.Label)\<close>: a nil interface value panics.\<close>

fun assert_labels :: "label option list \<Rightarrow> label list outcome" where
  "assert_labels [] = Return []"
| "assert_labels (None # vs) = Panic ''interface conversion: interface {} is nil, not labels.Label''"
| "assert_labels (Some l # vs) = outcome_bind (assert_labels vs) (\<lambda>ls. Return (l # ls))"

definition getLabelsForIds :: "pgxQuerier \<Rightarrow> int list \<Rightarrow> (pgxQuerier \<times> label list result) outcome" where
  "getLabelsForIds q ids =
     outcome_bind (GetValues (pq_labels q) ids (replicate (length ids) None))
       (\<lambda>(c, keys, vals, numHits).
         let q1 = q\<lparr>pq_labels := c\<rparr>
         in if numHits < length ids then
              outcome_bind (fetchMissingLabels q1 (drop numHits keys) (drop numHits vals)) (\<lambda>(q2, r).
                case r of
                  Inl e \<Rightarrow> Return (q2, Inl e)
                | Inr (numFetches, fetched) \<Rightarrow>
                    outcome_bind (assert_labels (take (numHits + numFetches) (take numHits vals @ fetched)))
                      (\<lambda>lls. Return (q2, Inr lls)))
            else outcome_bind (assert_labels vals) (\<lambda>lls. Return (q1, Inr lls)))"

text \<open>The copy to protobuf labels has the same fields.\<close>

definition getPrompbLabelsForIds ::
  "pgxQuerier \<Rightarrow> int list \<Rightarrow> (pgxQuerier \<times> label list result) outcome" where
  "getPrompbLabelsForIds q ids =
     outcome_bind (getLabelsForIds q ids) (\<lambda>(q', r).
       Return (q', case r of Inl e \<Rightarrow> Inl e
                   | Inr ll \<Rightarrow> Inr (map (\<lambda>l. \<lparr>lbl_name = lbl_name l, lbl_value = lbl_value l\<rparr>) ll)))"


section \<open>Time series of a result\<close>

record prom_series =
  pr_Labels :: "label list"
  pr_Samples :: "sample list"

fun build_series_loop ::
  "pgxQuerier \<Rightarrow> series_row result list \<Rightarrow> prom_series list \<Rightarrow>
   (pgxQuerier \<times> prom_series list result) outcome" where
  "build_series_loop q [] results = Return (q, Inr results)"
| "build_series_loop q (row # rs) results =
     (case (case row of Inl e \<Rightarrow> Inl e | Inr r \<Rightarrow> rc_plain (pq_conn q) r) of
        Inl e \<Rightarrow> Return (q, Inl e)
      | Inr (labelIDs, timestamps, vals) \<Rightarrow>
          if length timestamps \<noteq> length vals
          then Return (q, Inl (ErrMsg ''query returned a mismatch in timestamps and values''))
          else outcome_bind (getPrompbLabelsForIds q labelIDs) (\<lambda>(q', r).
            case r of
              Inl e \<Rightarrow> Return (q', Inl e)
            | Inr promLabels \<Rightarrow>
                build_series_loop q' rs (results @
                  [\<lparr>pr_Labels = sort_key lbl_name promLabels,
                    pr_Samples = map (\<lambda>(t, v). \<lparr>s_Value = v, s_Timestamp = toMilis t\<rparr>) (zip timestamps vals)\<rparr>])))"

definition buildTimeSeries ::
  "series_row cursor \<Rightarrow> pgxQuerier \<Rightarrow> (pgxQuerier \<times> prom_series list result) outcome" where
  "buildTimeSeries rows q =
     outcome_bind (build_series_loop q (row_scans rows) []) (\<lambda>(q', r).
       case r of
         Inl e \<Rightarrow> Return (q', Inl e)
       | Inr results \<Rightarrow>
           Return (q', case rows_err rows of Some e \<Rightarrow> Inl e | None \<Rightarrow> Inr results))"

fun getSeriesPerMetric :: "(string \<times> int list) result list \<Rightarrow> (string \<times> int list) list result" where
  "getSeriesPerMetric [] = Inr []"
| "getSeriesPerMetric (Inl e # rs) = Inl e"
| "getSeriesPerMetric (Inr (metricName, seriesIDs) # rs) =
     (case getSeriesPerMetric rs of Inl e \<Rightarrow> Inl e | Inr ms \<Rightarrow> Inr ((metricName, seriesIDs) # ms))"


section \<open>Result rows\<close>

text \<open>The query of \<open>queryMetricTableName\<close> on this connection.\<close>

definition table_query :: "pgxQuerier \<Rightarrow> string \<Rightarrow> string rows result" where
  "table_query q metric =
     (case rc_strings (pq_conn q) getMetricsTableSQL [ArgString metric] of
        (rows, Some e) \<Rightarrow> Inl e
      | (rows, None) \<Rightarrow> Inr (rows.truncate rows))"

definition lookup_table :: "pgxQuerier \<Rightarrow> string \<Rightarrow> (pgxQuerier \<times> string \<times> go_error option) outcome" where
  "lookup_table q metric =
     outcome_bind
       (querier_getMetricTableName mnc_Get mnc_Set (table_query q)
          (pq_marks q (pq_fetches q) 0) (pq_metricTableNames q) metric)
       (\<lambda>(c, tableName, err). Return (q\<lparr>pq_metricTableNames := c\<rparr>, tableName, err))"

definition UndefinedTable :: string where "UndefinedTable = ''42P01''"

text \<open>
  \<open>sanitize\<close>, \<open>other\<close> and \<open>ext\<close> are the quoting of identifiers, the rest of \<open>fmt.Sprintf\<close>
  and \<open>ExtensionIsInstalled\<close>, as in the query builder.
\<close>

definition querySingleMetric ::
  "(string list \<Rightarrow> string) \<Rightarrow> (string \<Rightarrow> nat list \<Rightarrow> string) \<Rightarrow> bool \<Rightarrow> pgxQuerier \<Rightarrow> string \<Rightarrow>
   metricTimeRangeFilter \<Rightarrow> string list \<Rightarrow> sql_arg list \<Rightarrow> selectHints option \<Rightarrow> node list \<Rightarrow>
   (pgxQuerier \<times> (series_row cursor list \<times> node option) result) outcome" where
  "querySingleMetric sanitize other ext q metric filt cases vals hints path =
     outcome_bind (lookup_table q metric) (\<lambda>(q1, tableName, err).
       case err of
         Some e \<Rightarrow> Return (q1, if e = ErrMissingTableName then Inr ([], None) else Inl e)
       | None \<Rightarrow>
           outcome_bind (buildTimeseriesByLabelClausesQuery sanitize other ext
               (filt\<lparr>flt_metric := tableName\<rparr>) cases vals hints path) (\<lambda>b.
             case b of
               Inl e \<Rightarrow> Return (q1, Inl e)
             | Inr (sqlQuery, vals', topNode) \<Rightarrow>
                 (case rc_series (pq_conn q1) sqlQuery vals' of
                    (rows, Some (PgError code msg)) \<Rightarrow>
                      Return (q1, if code \<noteq> UndefinedTable then Inl (PgError code msg) else Inr ([rows], topNode))
                  | (rows, Some e) \<Rightarrow> Return (q1, Inl e)
                  | (rows, None) \<Rightarrow> Return (q1, Inr ([rows], topNode)))))"

fun metric_rows_loop ::
  "(string list \<Rightarrow> string) \<Rightarrow> metricTimeRangeFilter \<Rightarrow> pgxQuerier \<Rightarrow> (string \<times> int list) list \<Rightarrow>
   series_row cursor list \<Rightarrow> (pgxQuerier \<times> series_row cursor list result) outcome" where
  "metric_rows_loop sanitize filt q [] results = Return (q, Inr results)"
| "metric_rows_loop sanitize filt q ((metric, series) # ms) results =
     outcome_bind (lookup_table q metric) (\<lambda>(q1, tableName, err).
       case err of
         Some e \<Rightarrow>
           (if e = ErrMissingTableName then metric_rows_loop sanitize filt q1 ms results
            else Return (q1, Inl e))
       | None \<Rightarrow>
           (let filt' = filt\<lparr>flt_metric := tableName\<rparr>
            in case rc_series (pq_conn q1) (buildTimeseriesBySeriesIDQuery sanitize filt' series) [] of
                 (rows, Some e) \<Rightarrow> Return (q1, Inl e)
               | (rows, None) \<Rightarrow> metric_rows_loop sanitize filt' q1 ms (results @ [rows])))"

definition getResultRows ::
  "(string list \<Rightarrow> string) \<Rightarrow> (string \<Rightarrow> nat list \<Rightarrow> string) \<Rightarrow> bool \<Rightarrow> pgxQuerier \<Rightarrow> int \<Rightarrow> int \<Rightarrow>
   selectHints option \<Rightarrow> node list \<Rightarrow> matcher list \<Rightarrow>
   (pgxQuerier \<times> (series_row cursor list \<times> node option) result) outcome" where
  "getResultRows sanitize other ext q startTimestamp endTimestamp hints path matchers =
     (case buildSubQueries other matchers of
        Inl e \<Rightarrow> Return (q, Inl e)
      | Inr (metric, cases, vals) \<Rightarrow>
          let filt = \<lparr>flt_metric = metric, flt_startTime = toRFC3339Nano startTimestamp,
                      flt_endTime = toRFC3339Nano endTimestamp\<rparr>
          in if metric \<noteq> '''' then querySingleMetric sanitize other ext q metric filt cases vals hints path
             else
               (case rc_metrics (pq_conn q) (buildMetricNameSeriesIDQuery cases) vals of
                  (rows, Some e) \<Rightarrow> Return (q, Inl e)
                | (rows, None) \<Rightarrow>
                    (case getSeriesPerMetric (row_scans rows) of
                       Inl e \<Rightarrow> Return (q, Inl e)
                     | Inr ms \<Rightarrow>
                         outcome_bind (metric_rows_loop sanitize filt q ms []) (\<lambda>(q1, r).
                           Return (q1, case r of Inl e \<Rightarrow> Inl e | Inr results \<Rightarrow> Inr (results, None))))))"


section \<open>Entry points\<close>

definition Select ::
  "(string list \<Rightarrow> string) \<Rightarrow> (string \<Rightarrow> nat list \<Rightarrow> string) \<Rightarrow> bool \<Rightarrow> pgxQuerier \<Rightarrow> int \<Rightarrow> int \<Rightarrow>
   selectHints option \<Rightarrow> node list \<Rightarrow> matcher list \<Rightarrow>
   (pgxQuerier \<times> (pgxSeriesSet \<times> node option) result) outcome" where
  "Select sanitize other ext q mint maxt hints path ms =
     outcome_bind (getResultRows sanitize other ext q mint maxt hints path ms) (\<lambda>(q', r).
       Return (q', case r of Inl e \<Rightarrow> Inl e | Inr (rows, topNode) \<Rightarrow> Inr (buildSeriesSet rows, topNode)))"

record prom_query =
  qy_StartTimestampMs :: int
  qy_EndTimestampMs :: int
  qy_Matchers :: "LabelMatcher list"

fun query_rows_loop ::
  "pgxQuerier \<Rightarrow> series_row cursor list \<Rightarrow> prom_series list \<Rightarrow> (pgxQuerier \<times> prom_series list result) outcome" where
  "query_rows_loop q [] results = Return (q, Inr results)"
| "query_rows_loop q (r # rs) results =
     outcome_bind (buildTimeSeries r q) (\<lambda>(q', ts).
       case ts of
         Inl e \<Rightarrow> Return (q', Inl e)
       | Inr ts' \<Rightarrow> query_rows_loop q' rs (results @ ts'))"

text \<open>\<open>newMatcher\<close> is \<open>labels.NewMatcher\<close>; a nil query is \<open>None\<close>.\<close>

definition Query ::
  "(match_type \<Rightarrow> string \<Rightarrow> string \<Rightarrow> matcher result) \<Rightarrow>
   (string list \<Rightarrow> string) \<Rightarrow> (string \<Rightarrow> nat list \<Rightarrow> string) \<Rightarrow> bool \<Rightarrow> pgxQuerier \<Rightarrow> prom_query option \<Rightarrow>
   (pgxQuerier \<times> prom_series list result) outcome" where
  "Query newMatcher sanitize other ext q query =
     (case query of
        None \<Rightarrow> Return (q, Inr [])
      | Some qy \<Rightarrow>
          (case FromLabelMatchers newMatcher (qy_Matchers qy) of
             Inl e \<Rightarrow> Return (q, Inl e)
           | Inr matchers \<Rightarrow>
               outcome_bind (getResultRows sanitize other ext q (qy_StartTimestampMs qy) (qy_EndTimestampMs qy)
                   None [] matchers) (\<lambda>(q1, r).
                 case r of
                   Inl e \<Rightarrow> Return (q1, Inl e)
                 | Inr (rows, _) \<Rightarrow> query_rows_loop q1 rows [])))"

text \<open>\<open>DBReader.Read\<close>: one result per query, in order, or the first error.\<close>

fun read_loop ::
  "(pgxQuerier \<Rightarrow> 'y \<Rightarrow> (pgxQuerier \<times> prom_series list result) outcome) \<Rightarrow> pgxQuerier \<Rightarrow> 'y list \<Rightarrow>
   (pgxQuerier \<times> prom_series list list result) outcome" where
  "read_loop query q [] = Return (q, Inr [])"
| "read_loop query q (y # ys) =
     outcome_bind (query q y) (\<lambda>(q1, r).
       case r of
         Inl e \<Rightarrow> Return (q1, Inl e)
       | Inr tts \<Rightarrow>
           outcome_bind (read_loop query q1 ys) (\<lambda>(q2, r2).
             Return (q2, case r2 of Inl e \<Rightarrow> Inl e | Inr rest_res \<Rightarrow> Inr (tts # rest_res))))"

definition Read ::
  "(pgxQuerier \<Rightarrow> prom_query option \<Rightarrow> (pgxQuerier \<times> prom_series list result) outcome) \<Rightarrow> pgxQuerier \<Rightarrow>
   prom_query option list option \<Rightarrow> (pgxQuerier \<times> prom_series list list option result) outcome" where
  "Read query q req =
     (case req of
        None \<Rightarrow> Return (q, Inr None)
      | Some queries \<Rightarrow>
          outcome_bind (read_loop query q queries) (\<lambda>(q', r).
            Return (q', case r of Inl e \<Rightarrow> Inl e | Inr results \<Rightarrow> Inr (Some results))))"

definition reader_HealthCheck :: "pgxQuerier \<Rightarrow> go_error option" where
  "reader_HealthCheck q = querier_HealthCheck q"

section \<open>The labels of ids\<close>

text \<open>The label catalog as the database presents it: what it answers for a single id.\<close>

definition conn_catalog :: "reader_conn \<Rightarrow> int \<rightharpoonup> label" where
  "conn_catalog conn i =
     (case rc_labels conn GetLabelsSQL [ArgIds [i]] of
        (c, Some e) \<Rightarrow> None
      | (c, None) \<Rightarrow>
          (case row_scans c of
             [Inr ([j], [k], [v])] \<Rightarrow> if j = i then Some \<lparr>lbl_name = k, lbl_value = v\<rparr> else None
           | _ \<Rightarrow> None))"

text \<open>
  What the code relies on in \<open>labels_info\<close>: for known ids it returns one row with the ids and
  their keys and values, in some order.
\<close>

definition labels_answer :: "(int \<rightharpoonup> label) \<Rightarrow> int list \<Rightarrow> (int list \<times> string list \<times> string list) answer \<Rightarrow> bool" where
  "labels_answer cat ids a \<longleftrightarrow>
     (\<exists>ids'. mset ids' = mset ids \<and> snd a = None \<and>
       row_scans (fst a) = [Inr (ids', map (\<lambda>i. lbl_name (the (cat i))) ids', map (\<lambda>i. lbl_value (the (cat i))) ids')])"

definition labels_db_ok :: "reader_conn \<Rightarrow> bool" where
  "labels_db_ok conn \<longleftrightarrow>
     (\<forall>ids. distinct ids \<longrightarrow> set ids \<subseteq> dom (conn_catalog conn) \<longrightarrow>
        labels_answer (conn_catalog conn) ids (rc_labels conn GetLabelsSQL [ArgIds ids]))"

definition label_cache_ok :: "(int \<rightharpoonup> label) \<Rightarrow> label_cache \<Rightarrow> bool" where
  "label_cache_ok cat c \<longleftrightarrow> cache_inv c \<and> contents c \<subseteq>\<^sub>m (\<lambda>i. map_option Some (cat i))"

text \<open>
  The invariant of the querier: the labels cache agrees with the catalog, the other users of the
  cache keep it so, and the database answers according to the catalog.
\<close>

definition querier_cat :: "pgxQuerier \<Rightarrow> int \<rightharpoonup> label" where
  "querier_cat q = conn_catalog (pq_conn q)"

definition querier_inv :: "pgxQuerier \<Rightarrow> bool" where
  "querier_inv q \<longleftrightarrow>
     label_cache_ok (querier_cat q) (pq_labels q) \<and> labels_db_ok (pq_conn q) \<and>
     (\<forall>n c. label_cache_ok (querier_cat q) c \<longrightarrow> label_cache_ok (querier_cat q) (pq_env q n c))"

lemma querier_invD:
  assumes "querier_inv q"
  shows "label_cache_ok (querier_cat q) (pq_labels q)" and "labels_db_ok (pq_conn q)"
    and "label_cache_ok (querier_cat q) c \<Longrightarrow> label_cache_ok (querier_cat q) (pq_env q n c)"
  using assms by (simp_all add: querier_inv_def)

lemma querier_inv_labels:
  assumes "querier_inv q" and "label_cache_ok (querier_cat q) c"
  shows "querier_inv (q\<lparr>pq_labels := c\<rparr>)" "querier_inv (q\<lparr>pq_labels := c, pq_fetches := n\<rparr>)"
    "querier_cat (q\<lparr>pq_labels := c\<rparr>) = querier_cat q"
    "querier_cat (q\<lparr>pq_labels := c, pq_fetches := n\<rparr>) = querier_cat q"
  using assms by (simp_all add: querier_inv_def querier_cat_def)

lemma assert_labels_Some: "assert_labels (map Some ls) = Return ls"
  by (induction ls) simp_all

lemma label_eta: "\<lparr>lbl_name = lbl_name l, lbl_value = lbl_value l\<rparr> = l"
  by simp

lemma fetch_known:
  assumes inv: "querier_inv q" and "distinct ids" and "set ids \<subseteq> dom (querier_cat q)"
    and len: "length arr = length ids"
  shows "\<exists>q' ids'. fetchMissingLabels q ids arr =
      Return (q', Inr (length ids, map (\<lambda>i. Some (the (querier_cat q i))) ids')) \<and>
    mset ids' = mset ids \<and> querier_inv q' \<and> querier_cat q' = querier_cat q"
proof -
  let ?cat = "querier_cat q"
  let ?f = "\<lambda>i. map_option Some (?cat i)"
  have "labels_answer ?cat ids (rc_labels (pq_conn q) GetLabelsSQL [ArgIds ids])"
    using querier_invD(2) [OF inv] assms(2,3) unfolding labels_db_ok_def querier_cat_def by blast
  then obtain ids' rows where ms: "mset ids' = mset ids"
    and ans: "rc_labels (pq_conn q) GetLabelsSQL [ArgIds ids] = (rows, None)"
    and scans: "row_scans rows = [Inr (ids', map (\<lambda>i. lbl_name (the (?cat i))) ids', map (\<lambda>i. lbl_value (the (?cat i))) ids')]"
    unfolding labels_answer_def by (metis prod.collapse)
  have len': "length ids' = length ids" using ms by (metis size_mset)
  let ?new = "map (\<lambda>i. Some (the (?cat i))) ids'"
  have new: "map (\<lambda>(k, v). Some \<lparr>lbl_name = k, lbl_value = v\<rparr>)
      (zip (map (\<lambda>i. lbl_name (the (?cat i))) ids') (map (\<lambda>i. lbl_value (the (?cat i))) ids')) = ?new"
    by (simp add: zip_map1 zip_map2 zip_same_conv_map o_def)
  let ?env = "pq_env q (pq_fetches q) (pq_labels q)"
  have env: "label_cache_ok ?cat ?env" by (rule querier_invD(3) [OF inv querier_invD(1) [OF inv]])
  have "\<forall>i < length ids'. ?f (ids' ! i) = Some (?new ! i)"
  proof (intro allI impI)
    fix i assume i: "i < length ids'"
    then have "ids' ! i \<in> set ids" using ms by (metis nth_mem set_mset_mset)
    with assms(3) obtain l where "?cat (ids' ! i) = Some l" by blast
    with i show "?f (ids' ! i) = Some (?new ! i)" by simp
  qed
  moreover obtain c vals' n where
    batch: "InsertBatch (pq_marks q (pq_fetches q)) ?env ids' ?new = Return (c, ids', vals', n)"
      "cache_inv c"
      "contents ?env \<subseteq>\<^sub>m ?f \<Longrightarrow> (\<forall>i < length ids'. ?f (ids' ! i) = Some (?new ! i)) \<Longrightarrow> contents c \<subseteq>\<^sub>m ?f \<and> vals' = ?new"
    using InsertBatch_spec [of ?env ids' ?new "pq_marks q (pq_fetches q)"] env
    unfolding label_cache_ok_def by (metis length_map)
  ultimately have c: "label_cache_ok ?cat c" "vals' = ?new"
    using env unfolding label_cache_ok_def by blast+
  let ?q = "q\<lparr>pq_labels := c, pq_fetches := pq_fetches q + 1\<rparr>"
  have "fetchMissingLabels q ids arr = Return (?q, Inr (length ids', ?new))"
    unfolding fetchMissingLabels_def ans using scans len len' batch(1) c(2)
    by (simp add: new Let_def)
  with ms len' querier_inv_labels [OF inv c(1)] show ?thesis by metis
qed

lemma hits_values:
  assumes "contents c \<subseteq>\<^sub>m (\<lambda>i. map_option Some (cat i))"
    and "\<forall>i < n. contents c (keys ! i) = Some (vals ! i)" and "n \<le> length keys" and "length vals = length keys"
  shows "take n vals = map (\<lambda>i. Some (the (cat i))) (take n keys)"
proof (rule nth_equalityI)
  show "length (take n vals) = length (map (\<lambda>i. Some (the (cat i))) (take n keys))"
    using assms(3,4) by simp
  fix i assume "i < length (take n vals)"
  then have i: "i < n" "i < length keys" using assms(3,4) by auto
  with assms(2) have "contents c (keys ! i) = Some (vals ! i)" by blast
  with assms(1) have "map_option Some (cat (keys ! i)) = Some (vals ! i)"
    by (metis (no_types, lifting) domI map_le_def)
  then have "vals ! i = Some (the (cat (keys ! i)))" by (metis map_option_eq_Some option.sel)
  with i show "take n vals ! i = map (\<lambda>i. Some (the (cat i))) (take n keys) ! i" by simp
qed

lemma getLabelsForIds_known:
  assumes inv: "querier_inv q" and known: "set ids \<subseteq> dom (querier_cat q)" and dist: "distinct ids"
  shows "\<exists>q' ls. getLabelsForIds q ids = Return (q', Inr ls) \<and> querier_inv q' \<and>
    querier_cat q' = querier_cat q \<and> mset ls = mset (map (\<lambda>i. the (querier_cat q i)) ids)"
proof -
  let ?cat = "querier_cat q"
  let ?lab = "\<lambda>i. the (?cat i)"
  note cok = querier_invD(1) [OF inv, unfolded label_cache_ok_def]
  obtain c keys vals n where g: "GetValues (pq_labels q) ids (replicate (length ids) None) = Return (c, keys, vals, n)"
    by (cases "get_values_loop (pq_labels q) ids (replicate (length ids) None) 0 (length ids)")
      (simp add: GetValues_def)
  note spec = GetValues_spec [OF conjunct1 [OF cok] g]
  have c: "label_cache_ok ?cat c" using cok spec(1,2) by (simp add: label_cache_ok_def)
  note q1 = querier_inv_labels [OF inv c]
  have keys: "length keys = length ids" "set keys = set ids" "distinct keys"
    using spec(3) dist by (metis size_mset, metis set_mset_mset, metis mset_eq_imp_distinct_iff)
  have hits: "take n vals = map Some (map ?lab (take n keys))"
    using hits_values [OF conjunct2 [OF cok] spec(6)] spec(4,5) keys(1) by (simp add: o_def)
  show ?thesis
  proof (cases "n < length ids")
    case True
    have dk: "distinct (drop n keys)" and sk: "set (drop n keys) \<subseteq> dom (querier_cat (q\<lparr>pq_labels := c\<rparr>))"
      and lk: "length (drop n vals) = length (drop n keys)"
      using keys known spec(4) q1(3) set_drop_subset [of n keys] by auto
    from fetch_known [OF q1(1) dk sk lk] obtain q2 ids' where
      fetch: "fetchMissingLabels (q\<lparr>pq_labels := c\<rparr>) (drop n keys) (drop n vals) =
        Return (q2, Inr (length (drop n keys), map Some (map ?lab ids')))"
      and ids': "mset ids' = mset (drop n keys)" and q2: "querier_inv q2" "querier_cat q2 = ?cat"
      by (auto simp: q1(3) o_def)
    have "length ids' = length (drop n keys)" using ids' by (metis size_mset)
    then have "take (n + length (drop n keys)) (take n vals @ map Some (map ?lab ids')) =
        map Some (map ?lab (take n keys @ ids'))"
      using hits keys(1) True by simp
    then have "getLabelsForIds q ids = Return (q2, Inr (map ?lab (take n keys @ ids')))"
      using True by (simp add: getLabelsForIds_def g fetch assert_labels_Some Let_def del: map_map map_append)
    moreover have "mset (take n keys @ ids') = mset ids"
      using ids' spec(3) by (metis append_take_drop_id mset_append)
    then have "mset (map ?lab (take n keys @ ids')) = mset (map ?lab ids)" by (metis mset_map)
    ultimately show ?thesis using q2 by blast
  next
    case False
    then have "vals = map Some (map ?lab keys)" using hits spec(4) keys(1) by simp
    with False have "getLabelsForIds q ids = Return (q\<lparr>pq_labels := c\<rparr>, Inr (map ?lab keys))"
      by (simp add: getLabelsForIds_def g assert_labels_Some Let_def del: map_map)
    moreover have "mset (map ?lab keys) = mset (map ?lab ids)" using spec(3) by (metis mset_map)
    ultimately show ?thesis using q1 by blast
  qed
qed

interpretation lq: label_querier querier_inv querier_cat getLabelsForIds
  by unfold_locales (rule getLabelsForIds_known)


text \<open>A database with two labels, for the examples.\<close>

definition closed_cursor :: "'r result list \<Rightarrow> 'r cursor" where
  "closed_cursor rs = \<lparr>row_scans = rs, rows_err = None, cur_row = Inl (ExtError ''no current row''), cur_closed = False\<rparr>"

lemma closed_cursor_simps [simp]: "row_scans (closed_cursor rs) = rs" "rows_err (closed_cursor rs) = None"
  by (simp_all add: closed_cursor_def)

definition ex_label_row :: "int list \<Rightarrow> int list \<times> string list \<times> string list" where
  "ex_label_row ids =
     (let known = filter (\<lambda>i. i \<in> {1, 2}) ids
      in (known, map (\<lambda>i. if i = 1 then ''__name__'' else ''host'') known,
          map (\<lambda>i. if i = 1 then ''cpu'' else ''b'') known))"

definition ex_reader_conn :: "series_row answer \<Rightarrow> reader_conn" where
  "ex_reader_conn ans =
     \<lparr>rc_series = (\<lambda>_ _. ans),
      rc_metrics = (\<lambda>_ _. (closed_cursor [], None)),
      rc_labels = (\<lambda>_ args. case args of [ArgIds ids] \<Rightarrow> (closed_cursor [Inr (ex_label_row ids)], None)
                            | _ \<Rightarrow> (closed_cursor [], None)),
      rc_strings = (\<lambda>_ _. (closed_cursor [Inr ''cpu''], None)),
      rc_plain = (\<lambda>(ids, ts, vs). Inr (ids, map tz_Time ts, map f8_Float vs))\<rparr>"

definition ex_querier :: "series_row answer \<Rightarrow> pgxQuerier" where
  "ex_querier ans = NewPgxReader (ex_reader_conn ans) 1 (\<lambda>_ _. quiet) (\<lambda>_ c. c)"

lemma ex_labels_query:
  "rc_labels (ex_reader_conn ans) sql [ArgIds ids] = (closed_cursor [Inr (ex_label_row ids)], None)"
  by (simp add: ex_reader_conn_def)

lemma ex_catalog_of:
  "conn_catalog (ex_reader_conn ans) =
     (\<lambda>i. if i = 1 then Some \<lparr>lbl_name = ''__name__'', lbl_value = ''cpu''\<rparr>
          else if i = 2 then Some \<lparr>lbl_name = ''host'', lbl_value = ''b''\<rparr> else None)"
  by (rule ext) (simp add: conn_catalog_def ex_reader_conn_def closed_cursor_def ex_label_row_def Let_def)

lemma ex_querier_inv: "querier_inv (ex_querier ans)"
proof -
  let ?conn = "ex_reader_conn ans"
  have "labels_answer (conn_catalog ?conn) ids (rc_labels ?conn GetLabelsSQL [ArgIds ids])"
    if ids: "distinct ids" "set ids \<subseteq> dom (conn_catalog ?conn)" for ids
  proof -
    have known: "set ids \<subseteq> {1, 2}" using ids(2) by (auto simp: ex_catalog_of split: if_splits)
    then have "filter (\<lambda>i. i \<in> {1, 2}) ids = ids" by (auto simp: filter_id_conv)
    with known show ?thesis
      unfolding labels_answer_def ex_labels_query ex_catalog_of
      by (intro exI [of _ ids]) (auto simp: ex_label_row_def Let_def subset_iff)
  qed
  moreover have "label_cache_ok (conn_catalog ?conn) (WithMax 1)"
    by (simp add: label_cache_ok_def WithMax_inv) (simp add: contents_def WithMax_def map_le_def dom_def)
  ultimately show ?thesis
    by (simp add: querier_inv_def querier_cat_def ex_querier_def NewPgxReader_def
      NewPgxReaderWithMetricCache_def labels_db_ok_def)
qed



section \<open>Series sets of the querier\<close>


definition ex_row :: "int \<Rightarrow> series_row" where
  "ex_row t = ([1, 2], [\<lparr>tz_Time = t, tz_Status = Present, tz_InfinityModifier = NotInfinite\<rparr>],
     [\<lparr>f8_Float = 7, f8_Status = Present\<rparr>])"

lemma ex_querier_cat:
  "querier_cat (ex_querier ans) = (\<lambda>i. if i = 1 then Some \<lparr>lbl_name = ''__name__'', lbl_value = ''cpu''\<rparr>
          else if i = 2 then Some \<lparr>lbl_name = ''host'', lbl_value = ''b''\<rparr> else None)"
  by (simp add: querier_cat_def ex_querier_def NewPgxReader_def NewPgxReaderWithMetricCache_def ex_catalog_of)

lemma ex_row_known: "row_known (querier_cat (ex_querier ans)) (Inr (ex_row t))"
  by (simp add: row_known_def ex_row_def ex_querier_cat) auto


lemma set_error_append: "set_error cat e (cs @ ds) = set_error cat (set_error cat e cs) ds"
  by (induction cs arbitrary: e) (simp_all add: Let_def)

text \<open>
  C37: a good row hides earlier failures.  Whatever errors the earlier result sets ended with and
  however many of their rows were in error, if the last row of the last result set decodes and that
  result set ends without an error, then the expansion reports no error, with nil entries for the
  rows that failed.
\<close>
theorem series_set_masks_errors:
  assumes "querier_inv q"
    and "\<forall>c \<in> set (earlier @ [c]). \<forall>r \<in> set (row_scans c). row_known (querier_cat q) r"
    and "row_scans c = rs @ [r]" and "decode_row (querier_cat q) r \<noteq> None" and "rows_err c = None"
  shows "\<exists>set' q' res. expandSeriesSet getLabelsForIds (\<lambda>_. None) (buildSeriesSet (earlier @ [c])) q =
      Return (set', q', res, None) \<and>
    length res = length (concat (map row_scans (earlier @ [c])))"
proof -
  have "set_error (querier_cat q) None (earlier @ [c]) = None"
    using assms(3-5) by (auto simp: set_error_append Let_def row_error_def)
  with lq.expand_rows [where ctxErr = "\<lambda>_. None" and k = 0 and pre = "[]" and e = None and res = "[]", OF refl assms(1,2)]
  show ?thesis
    by (fastforce simp: expandSeriesSet_def ss_Err_def ss_state_def buildSeriesSet_def)
qed

theorem series_set_masks_errors_witness:
  "\<exists>set' q' res. expandSeriesSet getLabelsForIds (\<lambda>_. None)
      (buildSeriesSet ([\<lparr>row_scans = [Inl (ExtError ''bad row'')], rows_err = Some (ExtError ''connection lost''),
          cur_row = Inl (ExtError ''''), cur_closed = False\<rparr>] @ [closed_cursor [Inr (ex_row 5)]]))
      (ex_querier (closed_cursor [], None)) = Return (set', q', res, None) \<and> length res = 2"
proof -
  let ?q = "ex_querier (closed_cursor [], None)"
  let ?bad = "[\<lparr>row_scans = [Inl (ExtError ''bad row'')], rows_err = Some (ExtError ''connection lost''),
          cur_row = Inl (ExtError ''''), cur_closed = False\<rparr>] :: series_row cursor list"
  have "\<forall>c \<in> set (?bad @ [closed_cursor [Inr (ex_row 5)]]). \<forall>r \<in> set (row_scans c). row_known (querier_cat ?q) r"
    using ex_row_known by (simp add: row_known_def)
  from series_set_masks_errors [OF ex_querier_inv this, of "[]" "Inr (ex_row 5)"] show ?thesis
    by (auto simp: decode_row_def ex_row_def)
qed

section \<open>Remote read\<close>

text \<open>The series a scanned row denotes, and when a row is one the code can turn into a series.\<close>

definition plain_series :: "(int \<rightharpoonup> label) \<Rightarrow> int list \<times> int list \<times> float64 list \<Rightarrow> prom_series" where
  "plain_series cat row = (case row of (ids, ts, vs) \<Rightarrow>
     \<lparr>pr_Labels = sort_key lbl_name (map (\<lambda>i. the (cat i)) ids),
      pr_Samples = map (\<lambda>(t, v). \<lparr>s_Value = v, s_Timestamp = toMilis t\<rparr>) (zip ts vs)\<rparr>)"

definition row_readable :: "pgxQuerier \<Rightarrow> series_row result \<Rightarrow> int list \<times> int list \<times> float64 list \<Rightarrow> bool" where
  "row_readable q row p \<longleftrightarrow>
     (\<exists>r. row = Inr r \<and> rc_plain (pq_conn q) r = Inr p) \<and>
     length (fst (snd p)) = length (snd (snd p)) \<and>
     set (fst p) \<subseteq> dom (querier_cat q) \<and> distinct (map (\<lambda>i. lbl_name (the (querier_cat q i))) (fst p))"

definition keeps_conn :: "pgxQuerier \<Rightarrow> pgxQuerier \<Rightarrow> bool" where
  "keeps_conn q q' \<longleftrightarrow> querier_inv q' \<and> pq_conn q' = pq_conn q"

lemma fetch_loop_conn: "fetch_loop q rs cnt num arr = Return (q', r) \<Longrightarrow> pq_conn q' = pq_conn q"
  by (induction q rs cnt num arr rule: fetch_loop.induct)
    (auto simp: Let_def outcome_bind_Return_iff split: if_splits)

lemma fetchMissingLabels_conn: "fetchMissingLabels q ids arr = Return (q', r) \<Longrightarrow> pq_conn q' = pq_conn q"
  by (auto simp: fetchMissingLabels_def split: prod.splits option.splits dest: fetch_loop_conn)

lemma getLabelsForIds_conn: "getLabelsForIds q ids = Return (q', r) \<Longrightarrow> pq_conn q' = pq_conn q"
  by (auto simp: getLabelsForIds_def outcome_bind_def Let_def
      split: if_splits sum.splits prod.splits outcome.splits dest: fetchMissingLabels_conn)

lemma prompb_labels_sorted:
  assumes "querier_inv q" and "set ids \<subseteq> dom (querier_cat q)"
    and "distinct (map (\<lambda>i. lbl_name (the (querier_cat q i))) ids)"
  shows "\<exists>q' ls. getPrompbLabelsForIds q ids = Return (q', Inr ls) \<and> keeps_conn q q' \<and>
    sort_key lbl_name ls = sort_key lbl_name (map (\<lambda>i. the (querier_cat q i)) ids)"
proof -
  from lq.labels_sorted [OF assms] obtain q' ls where
    r: "getLabelsForIds q ids = Return (q', Inr ls)" "querier_inv q'"
      "sort_key lbl_name ls = sort_key lbl_name (map (\<lambda>i. the (querier_cat q i)) ids)" by blast
  have "map (\<lambda>l. \<lparr>lbl_name = lbl_name l, lbl_value = lbl_value l\<rparr>) ls = ls"
    by (simp add: map_idI)
  with r getLabelsForIds_conn [OF r(1)] show ?thesis
    by (auto simp: getPrompbLabelsForIds_def keeps_conn_def)
qed

lemma row_readable_conn: "pq_conn q' = pq_conn q \<Longrightarrow> row_readable q' = row_readable q"
  by (simp add: row_readable_def querier_cat_def fun_eq_iff)

lemma build_series_ok:
  assumes "list_all2 (row_readable q) rows ps" and "querier_inv q"
  shows "\<exists>q'. build_series_loop q rows acc = Return (q', Inr (acc @ map (plain_series (querier_cat q)) ps)) \<and>
    keeps_conn q q'"
  using assms
proof (induction rows ps arbitrary: q acc rule: list_induct2')
  case 1
  then show ?case by (simp add: keeps_conn_def)
next
  case (4 row rows p ps)
  obtain ids ts vs where p: "p = (ids, ts, vs)" by (cases p)
  from 4(2) have "row_readable q row p" "list_all2 (row_readable q) rows ps" by simp_all
  then obtain r where row: "row = Inr r" "rc_plain (pq_conn q) r = Inr (ids, ts, vs)" "length ts = length vs"
    and known: "set ids \<subseteq> dom (querier_cat q)" "distinct (map (\<lambda>i. lbl_name (the (querier_cat q i))) ids)"
    by (auto simp: row_readable_def p)
  from prompb_labels_sorted [OF 4(3) known] obtain q1 ls where
    q1: "getPrompbLabelsForIds q ids = Return (q1, Inr ls)" "querier_inv q1" "pq_conn q1 = pq_conn q"
    "sort_key lbl_name ls = sort_key lbl_name (map (\<lambda>i. the (querier_cat q i)) ids)"
    by (auto simp: keeps_conn_def)
  have rest_ok: "list_all2 (row_readable q1) rows ps" using 4(2) by (simp add: row_readable_conn [OF q1(3)])
  have cat: "querier_cat q1 = querier_cat q" by (simp add: querier_cat_def q1(3))
  from 4(1) [OF rest_ok q1(2), of "acc @ [plain_series (querier_cat q) p]"] row q1 cat show ?case
    by (auto simp: plain_series_def p keeps_conn_def)
qed simp_all

lemma buildTimeSeries_ok:
  assumes "list_all2 (row_readable q) (row_scans rows) ps" and "querier_inv q"
  shows "\<exists>q'. buildTimeSeries rows q =
      Return (q', case rows_err rows of Some e \<Rightarrow> Inl e | None \<Rightarrow> Inr (map (plain_series (querier_cat q)) ps)) \<and>
    keeps_conn q q'"
  using build_series_ok [OF assms, of "[]"] by (auto simp: buildTimeSeries_def)

section \<open>One metric\<close>

lemma pad_int_chars: "set (pad_int w n) \<subseteq> set ''0123456789''"
  using show_nat_digits [of n] by (auto simp: pad_int_def)

lemma percent_no_digit: "CHR ''%'' \<notin> set ''0123456789''"
  by simp

lemma no_verb_digits: "set s \<subseteq> set ''0123456789'' \<Longrightarrow> CHR ''%'' \<notin> set s"
  using percent_no_digit by blast

lemma trim_zeros_subset: "set (trim_zeros s) \<subseteq> set s"
  by (metis trim_zeros_def set_dropWhileD set_rev subsetI)

lemma no_verb_time: "no_verb (toRFC3339Nano ms)"
proof -
  have pad: "CHR ''%'' \<notin> set (pad_int w n)" for w n by (rule no_verb_digits [OF pad_int_chars])
  then have trim: "CHR ''%'' \<notin> set (trim_zeros (pad_int w n))" for w n using trim_zeros_subset by blast
  have year: "CHR ''%'' \<notin> set (show_year y)" for y using pad by (simp add: show_year_def)
  have "CHR ''%'' \<notin> set (format_rfc3339 c)" for c by (simp add: format_rfc3339_def pad trim year)
  then show ?thesis by (simp add: toRFC3339Nano_def no_verb_def Let_def)
qed

lemma no_verb_clause: "op \<in> set cmp_ops \<Longrightarrow> no_verb (clause_text n op i j)"
  using no_verb_digits [OF show_nat_digits] by (auto simp: clause_text_def no_verb_def cmp_ops_def)

lemma no_verb_clauses: "\<forall>s \<in> set (clause_texts k ms). no_verb s"
  by (induction ms arbitrary: k) (simp_all add: no_verb_clause clause_op_known)

text \<open>The table names the querier may rely on: those of \<open>f\<close>, in the cache and in the database.\<close>

definition table_known :: "(string \<rightharpoonup> string) \<Rightarrow> pgxQuerier \<Rightarrow> string \<Rightarrow> string \<Rightarrow> bool" where
  "table_known f q metric t \<longleftrightarrow>
     cache_inv (pq_metricTableNames q) \<and> contents (pq_metricTableNames q) \<subseteq>\<^sub>m f \<and> f metric = Some t \<and>
     queryMetricTableName (table_query q) metric = Inr t"

lemma lookup_table_ok:
  assumes "table_known f q metric t"
  shows "\<exists>c. lookup_table q metric = Return (q\<lparr>pq_metricTableNames := c\<rparr>, t, None)"
  using assms mnc.querier_lookup [of "pq_metricTableNames q" f metric t "table_query q" "pq_marks q (pq_fetches q) 0"]
  by (auto simp: table_known_def lookup_table_def)

text \<open>The text of the query of one metric without a pushdown.\<close>

definition single_metric_text ::
  "(string list \<Rightarrow> string) \<Rightarrow> string \<Rightarrow> int \<Rightarrow> int \<Rightarrow> string list \<Rightarrow> string" where
  "single_metric_text sanitize t mint maxt clauses =
     ''SELECT s.labels, array_agg(m.time ORDER BY time) as time_array, array_agg(m.value ORDER BY time)'' @
     nl @ series_query_tail sanitize
       \<lparr>flt_metric = t, flt_startTime = toRFC3339Nano mint, flt_endTime = toRFC3339Nano maxt\<rparr>
       (str_join '' AND '' clauses)"

lemma single_metric_rows:
  assumes "table_known f q (single_metric ms) t" and "single_metric ms \<noteq> ''''"
    and "no_verb (sanitize [dataSchema, t])" "no_verb (sanitize [dataSeriesSchema, t])"
    and "rc_series (pq_conn q) (single_metric_text sanitize t mint maxt (clause_texts 0 ms)) (clause_args ms) = (rows, err)"
  shows "\<exists>c. getResultRows sanitize other ext q mint maxt None path ms =
    Return (q\<lparr>pq_metricTableNames := c\<rparr>,
      case err of
        None \<Rightarrow> Inr ([rows], None)
      | Some e \<Rightarrow> (case e of PgError code msg \<Rightarrow> if code \<noteq> UndefinedTable then Inl e else Inr ([rows], None) | _ \<Rightarrow> Inl e))"
proof -
  from lookup_table_ok [OF assms(1)] obtain c
    where look: "lookup_table q (single_metric ms) = Return (q\<lparr>pq_metricTableNames := c\<rparr>, t, None)" by blast
  let ?filt = "\<lparr>flt_metric = t, flt_startTime = toRFC3339Nano mint, flt_endTime = toRFC3339Nano maxt\<rparr>"
  have tail: "CHR ''%'' \<notin> set (nl @ series_query_tail sanitize ?filt (str_join '' AND '' (clause_texts 0 ms)))"
    by (rule no_verb_tail) (use assms(3,4) no_verb_time no_verb_clauses in simp_all)
  have built: "buildTimeseriesByLabelClausesQuery sanitize other ext ?filt (clause_texts 0 ms) (clause_args ms) None path =
      Return (Inr (single_metric_text sanitize t mint maxt (clause_texts 0 ms), clause_args ms, None))"
    using Finalize_default [OF tail, of other "clause_args ms"]
    by (simp add: buildTimeseriesByLabelClausesQuery_def getQueryFinalizer_def Let_def single_metric_text_def)
  have ms: "ms \<noteq> []" using assms(2) by (auto simp: single_metric_def)
  show ?thesis
    using assms(2,5) look ms built
    by (auto simp: getResultRows_def buildSubQueries_eq Let_def querySingleMetric_def
      split: option.splits go_error.splits)
qed

lemma querier_inv_tables: "querier_inv (q\<lparr>pq_metricTableNames := c\<rparr>) = querier_inv q"
  "querier_cat (q\<lparr>pq_metricTableNames := c\<rparr>) = querier_cat q"
  by (simp_all add: querier_inv_def querier_cat_def)


definition ex_query :: prom_query where
  "ex_query = \<lparr>qy_StartTimestampMs = 0, qy_EndTimestampMs = 1000,
     qy_Matchers = [\<lparr>lm_Type = 0, lm_Name = ''__name__'', lm_Value = ''cpu''\<rparr>]\<rparr>"

definition ex_newMatcher :: "match_type \<Rightarrow> string \<Rightarrow> string \<Rightarrow> matcher result" where
  "ex_newMatcher t n v =
     (if t = MatchEqual then Inr \<lparr>mt_Type = t, mt_Name = n, mt_Value = v, mt_Matches = (\<lambda>s. s = v)\<rparr>
      else Inl (ExtError ''unsupported''))"

lemma ex_table_known:
  "table_known (\<lambda>k. if k = ''cpu'' then Some ''cpu'' else None) (ex_querier ans) ''cpu'' ''cpu''"
proof -
  have "contents (WithMax DefaultMetricCacheSize) \<subseteq>\<^sub>m (\<lambda>k. if k = ''cpu'' then Some ''cpu'' else None)"
    by (simp add: contents_def WithMax_def map_le_def dom_def)
  then show ?thesis
    by (simp add: table_known_def ex_querier_def NewPgxReader_def NewPgxReaderWithMetricCache_def WithMax_inv
      queryMetricTableName_def table_query_def ex_reader_conn_def rows.defs)
qed

lemma ex_matchers_of:
  "FromLabelMatchers ex_newMatcher (qy_Matchers ex_query) =
     Inr [\<lparr>mt_Type = MatchEqual, mt_Name = ''__name__'', mt_Value = ''cpu'', mt_Matches = (\<lambda>s. s = ''cpu'')\<rparr>]"
  by (simp add: ex_query_def match_type_of_def ex_newMatcher_def)

lemma ex_single_metric:
  "single_metric [\<lparr>mt_Type = MatchEqual, mt_Name = ''__name__'', mt_Value = ''cpu'', mt_Matches = (\<lambda>s. s = ''cpu'')\<rparr>] = ''cpu''"
  by (simp add: single_metric_def names_metric_def MetricNameLabelName_def)


text \<open>
  The tolerated error returns by the other door: when the database reports an undefined table,
  \<open>querySingleMetric\<close> passes the rows on instead of the error, but pgx documents that rows returned
  together with an error are in an error state, and \<open>buildTimeSeries\<close> asks for it.
\<close>

theorem undefined_table_surfaces:
  assumes "FromLabelMatchers newMatcher (qy_Matchers qy) = Inr ms"
    and "table_known f q (single_metric ms) t" and "single_metric ms \<noteq> ''''"
    and "no_verb (sanitize [dataSchema, t])" "no_verb (sanitize [dataSeriesSchema, t])"
    and "rc_series (pq_conn q) (single_metric_text sanitize t (qy_StartTimestampMs qy) (qy_EndTimestampMs qy)
      (clause_texts 0 ms)) (clause_args ms) = (rows, Some (PgError UndefinedTable msg))"
    and "row_scans rows = []" and "rows_err rows = Some (PgError UndefinedTable msg)"
  shows "\<exists>q'. Query newMatcher sanitize other ext q (Some qy) = Return (q', Inl (PgError UndefinedTable msg))"
  using single_metric_rows [OF assms(2-6), of other ext "[]"] assms(1,7,8)
  by (auto simp: Query_def buildTimeSeries_def)

text \<open>
  \<open>LabelNames\<close> returns the names it has read so far, sorted and without an error, even when reading
  the rows ended with one.
\<close>

theorem label_names_ignore_read_error:
  assumes "rc_strings (pq_conn q) getLabelNamesSQL [] = (rows, None)" and "row_scans rows = map Inr names"
  shows "LabelNames q = Inr (sort names)"
proof -
  have "scan_strings (map Inr names) = Inr names" by (induction names) simp_all
  with assms show ?thesis by (simp add: LabelNames_def)
qed

text \<open>A read request is answered query by query, in order, with as many results as queries.\<close>

lemma read_loop_length:
  "read_loop query q ys = Return (q', Inr rs) \<Longrightarrow> length rs = length ys"
  by (induction ys arbitrary: q rs) (auto simp: outcome_bind_def split: outcome.splits sum.splits prod.splits)

end
