(* ===== verification/Promql_Storage.thy ===== *)
theory Promql_Storage
  imports Promql_Types Sql_Reader
begin

text \<open>
  The engine over the database: the queryable of \<open>pkg/query/queryable.go\<close>, which hands the calls of the
  engine to the querier of \<open>pkg/pgmodel\<close>, and the pushdown of \<open>delta\<close> into the database, in which the
  preparation in the engine, the hints and the query builder work together.
\<close>


section \<open>Queryable\<close>

record queryable_querier =
  qq_mint :: int
  qq_maxt :: int
  qq_pgQuerier :: pgxQuerier

definition newQuerier :: "pgxQuerier \<Rightarrow> int \<Rightarrow> int \<Rightarrow> queryable_querier result" where
  "newQuerier q mint maxt = Inr \<lparr>qq_mint = mint, qq_maxt = maxt, qq_pgQuerier = q\<rparr>"

definition queryable_Querier :: "pgxQuerier \<Rightarrow> int \<Rightarrow> int \<Rightarrow> queryable_querier result" where
  "queryable_Querier q mint maxt = newQuerier q mint maxt"

definition queryable_LabelValues :: "queryable_querier \<Rightarrow> string \<Rightarrow> string list result" where
  "queryable_LabelValues q name = LabelValues (qq_pgQuerier q) name"

definition queryable_LabelNames :: "queryable_querier \<Rightarrow> string list result" where
  "queryable_LabelNames q = LabelNames (qq_pgQuerier q)"

text \<open>The path as the query builder sees it.\<close>

definition node_of :: "path_node \<Rightarrow> node" where
  "node_of n = (case n of N_Subquery _ _ \<Rightarrow> SubqueryExpr | N_Call _ name \<Rightarrow> Call name | _ \<Rightarrow> OtherNode 0)"

definition queryable_Select ::
  "(string list \<Rightarrow> string) \<Rightarrow> (string \<Rightarrow> nat list \<Rightarrow> string) \<Rightarrow> bool \<Rightarrow> queryable_querier \<Rightarrow> engine_hints \<Rightarrow> path_node list \<Rightarrow> matcher list \<Rightarrow>
   (queryable_querier \<times> (pgxSeriesSet \<times> node option) result) outcome" where
  "queryable_Select sanitize other ext q hints path ms =
     outcome_bind (Select sanitize other ext (qq_pgQuerier q) (qq_mint q) (qq_maxt q) (Some (selectHints.truncate hints)) (map node_of path) ms)
       (\<lambda>(pq, r). Return (q\<lparr>qq_pgQuerier := pq\<rparr>, r))"


section \<open>Pushdown\<close>

text \<open>
  The node that the query builder takes over is a call of \<open>delta\<close> on the path, which returns a vector, as
  the contract of the storage asks.
\<close>

lemma pushdown_node_vector:
  assumes "getQueryFinalizer ext clauses vals hints (map node_of path) = Return (qf, Some node)"
  obtains i where "path ! (length path - 2) = N_Call i ''delta''" "N_Call i ''delta'' \<in> set path" "''delta'' \<notin> set scalar_functions"
proof -
  from assms have p: "2 \<le> length path" "map node_of path ! (length path - 2) = Call ''delta''"
    unfolding getQueryFinalizer_def by (auto simp: outcome_bind_Return_iff split: option.splits if_splits)
  then have len: "length path - 2 < length path" by simp
  with p(2) have "node_of (path ! (length path - 2)) = Call ''delta''" by simp
  then obtain i where i: "path ! (length path - 2) = N_Call i ''delta''"
    by (cases "path ! (length path - 2)") (auto simp: node_of_def)
  moreover have "N_Call i ''delta'' \<in> set path" using nth_mem [OF len] i by simp
  ultimately show ?thesis by (rule that) (simp add: scalar_functions_def)
qed

lemma no_subquery_offset: "\<not> hasSubquery (map node_of path) \<Longrightarrow> cumulativeSubqueryOffset path 0 = 0"
  by (induction path) (auto simp: node_of_def split: path_node.splits)

text \<open>
  C33: when the pushdown of \<open>delta\<close> panics.  For the hints that the engine computes for a range selector
  outside subqueries, the query builder panics exactly if the step is less than a millisecond although
  the query has more than one point in time: an instant query never does, and a range query does when
  its step is rounded to nothing.
\<close>
theorem pushdown_panics_iff:
  fixes lb ng s path n evalRange
  defines "h \<equiv> select_hints lb ng s path n evalRange"
  assumes "evalRange \<noteq> 0" "\<not> hasSubquery (map node_of path)" "in_int64 (h_Start h + h_Range h)"
  shows "(\<exists>msg. delta_finalizer clauses vals (selectHints.truncate h) = Panic msg) \<longleftrightarrow>
    durationMilliseconds (es_Interval s) \<le> 0 \<and> FromTime (es_Start s) \<noteq> FromTime (es_End s)"
proof -
  let ?shift = "if vs_Offset n > 0 then durationMilliseconds (vs_Offset n) else 0"
  have h: "h_Start h + h_Range h = FromTime (es_Start s) - ?shift" "h_End h = FromTime (es_End s) - ?shift"
    "h_Step h = durationMilliseconds (es_Interval s)"
    using assms(2) no_subquery_offset [OF assms(3)] unfolding h_def
    by (simp_all add: select_hints_def Let_def durationToInt64Millis_def durationMilliseconds_def go_quot_def [of 0] split: prod.split)
  have "wrap64 (h_Start h + h_Range h) = h_Start h + h_Range h" by (rule wrap64_id [OF assms(4)])
  then show ?thesis unfolding delta_finalizer_def selectHints.truncate_def by (simp add: Let_def h)
qed

definition ex_stmt :: "expr \<Rightarrow> int \<Rightarrow> int \<Rightarrow> int \<Rightarrow> eval_stmt" where
  "ex_stmt e start end_t interval = \<lparr>es_Expr = e, es_Start = start, es_End = end_t, es_Interval = interval\<rparr>"

theorem pushdown_panics_iff_witness:
  "\<exists>msg. delta_finalizer [] [] (selectHints.truncate (select_hints ex_lib (query_NewEngine 0)
     (ex_stmt (E_Number 0) 0 60000000000 500000) [N_Call 1 ''delta'', N_Other] ex_selector 60000000000)) = Panic msg"
proof -
  let ?s = "ex_stmt (E_Number 0) 0 60000000000 500000" and ?path = "[N_Call 1 ''delta'', N_Other]"
  have "\<not> hasSubquery (map node_of ?path)" by (simp add: node_of_def)
  moreover have "in_int64 (h_Start (select_hints ex_lib (query_NewEngine 0) ?s ?path ex_selector 60000000000) +
      h_Range (select_hints ex_lib (query_NewEngine 0) ?s ?path ex_selector 60000000000))"
    by (simp add: select_hints_def extractGroupsFromPath_def ex_selector_def ex_stmt_def FromTime_def wrap64_def
        durationMilliseconds_def go_quot_def in_int64_def)
  ultimately show ?thesis
    using pushdown_panics_iff [of 60000000000 ?path ex_lib "query_NewEngine 0" ?s ex_selector "[]" "[]"]
    by (simp add: ex_stmt_def FromTime_def wrap64_def durationMilliseconds_def go_quot_def)
qed

text \<open>
  C34: the pushdown breaks queries with another selector.  When the storage takes over the first
  selector of \<open>delta(a[r]) op b\<close>, the walk that prepares the series stops at the second one with an error
  that is dropped, and the evaluation dereferences its nil set of series: the query fails with an
  unexpected error, whatever the database holds.
\<close>
theorem pushdown_second_selector_fails:
  fixes s :: eval_stmt
  assumes "es_Expr s = E_Binary op (E_Call i \<lparr>fn_Name = ''delta'', fn_ReturnType = VT_Vector\<rparr> [E_Matrix va rng]) (E_Vector vb) m returnBool"
    and "vs_Series vb = Inl (EvRuntime ''nil pointer dereference'')" "vs_Id vb \<noteq> i"
    and "openQuerier (FromTime (findMinTime ng s)) (FromTime (es_End s)) = Inr q"
    and "\<forall>hints path ms. select q hints path ms = (q', Inr (Inr ss, Some i), [])"
    and "\<forall>n. ctx n = None" "is_instant s \<or> durationMilliseconds (es_Interval s) \<noteq> 0"
  shows "execEvalStmt lb bl openQuerier select ng defaultInterval ctx k s =
    Return (Inl (PlainError (ErrWrap ''unexpected error'' (ErrMsg ''nil pointer dereference''))), [])"
proof -
  let ?va = "va\<lparr>vs_Series := Inr ss\<rparr>"
  let ?call = "E_Call i \<lparr>fn_Name = ''delta'', fn_ReturnType = VT_Vector\<rparr> [E_Matrix ?va rng]"
  let ?e = "E_Binary op ?call (E_Vector vb) m returnBool"
  obtain po where po: "populateSeries lb select q ng s = (?e, po)" "po_topNode po = Some i" "po_err po = None" "po_warnings po = []"
    using assms(1,5) by (auto simp: populateSeries_def populate_selector_def Let_def)
  let ?ev = "stmt_evaluator ng defaultInterval ctx (Some i) s"
  have ev: "ev_interval ?ev \<noteq> 0" "ev_ctx ?ev = ctx" "ev_topNode ?ev = Some i" using assms(7) by (auto simp: stmt_evaluator_def)
  have check: "contextDone ?ev evaluation_env st = Inr (st\<lparr>st_checks := st_checks st + 1\<rparr>)" for st
    using assms(6) by (simp add: contextDone_def ev(2))
  have call: "\<exists>st' mat. eval lb bl ?ev ?call st = Inr (st', VMatrix mat)" for st
    by (subst eval.simps) (simp add: check ev is_top_def eval_top_def checkForSeriesSetExpansion_def)
  have second: "eval lb bl ?ev (E_Vector vb) st = Inl (EvRuntime ''nil pointer dereference'')" for st
    using assms(2,3) by (subst eval.simps) (simp add: check ev is_top_def checkForSeriesSetExpansion_def)
  have "eval lb bl ?ev ?e st = Inl (EvRuntime ''nil pointer dereference'')" for st
  proof -
    obtain f where f: "binary_node lb op VT_Vector VT_Vector m returnBool = Some f" by (simp add: binary_node_def)
    obtain st' mat where c: "eval lb bl ?ev ?call (st\<lparr>st_checks := st_checks st + 1\<rparr>) = Inr (st', VMatrix mat)" using call by blast
    show ?thesis
      by (subst eval.simps) (simp add: check ev is_top_def f operands_def c [simplified] second as_matrix_def)
  qed
  then show ?thesis using assms(4) po by (simp add: execEvalStmt_def Eval_def recover_panic_def Let_def)
qed

definition unpopulated :: vsel where
  "unpopulated = \<lparr>vs_Id = 7, vs_Offset = 0, vs_LabelMatchers = [], vs_Series = Inl (EvRuntime ''nil pointer dereference'')\<rparr>"

theorem pushdown_second_selector_fails_witness:
  "execEvalStmt ex_lib ex_buffer (\<lambda>_ _. Inr ()) (\<lambda>q h path ms. (q, Inr (Inr [ex_series], Some 1), [])) (query_NewEngine 0) 0 (\<lambda>_. None) 1
     (ex_stmt (E_Binary I_ADD (E_Call 1 \<lparr>fn_Name = ''delta'', fn_ReturnType = VT_Vector\<rparr> [E_Matrix ex_selector 60000000000])
        (E_Vector unpopulated) ex_many False) 60000000000 60000000000 0) =
   Return (Inl (PlainError (ErrWrap ''unexpected error'' (ErrMsg ''nil pointer dereference''))), [])"
  by (rule pushdown_second_selector_fails [where op = I_ADD and va = ex_selector and rng = 60000000000 and vb = unpopulated
        and m = ex_many and returnBool = False]) (simp_all add: ex_stmt_def unpopulated_def is_instant_def)

end
