(* ===== verification/Spec2Isabelle.thy ===== *)
theory Spec2Isabelle
  imports Ingest_System Election Api_Marshal Promql_Storage
begin

text \<open>
  A verification development for \<open>timescale-prometheus\<close>, the connector that stores Prometheus
  samples in TimescaleDB and evaluates PromQL over them.
\<close>

end
